(* ===== verification/Prelude.thy ===== *)
theory Prelude
  imports Main "HOL-Library.Word" "HOL-Library.Monad_Syntax" "HOL-Library.Product_Lexorder" "HOL-Library.Multiset"
begin

text \<open>
  Shared ground of the development: the machine integers of the program
  (\<open>unsigned\<close> is a 32-bit word, \<open>uint64_t\<close> a 64-bit word), the ordered containers
  (\<open>std::map\<close> is a list of pairs in key order, \<open>std::set\<close> a strictly sorted list, a
  pointer is the number of the object it points to) and the generic lemmas on them.
  An \<open>assert\<close> that fails, or an \<open>at()\<close> that finds nothing, is the value
  \<^term>\<open>None\<close> of the option monad.
\<close>

unbundle bit_operations_syntax

type_synonym u32 = "32 word"
type_synonym u64 = "64 word"
type_synonym ptr = nat

named_theorems omap_simps \<open>lookup and domain of the ordered maps\<close>
named_theorems wf_intros \<open>operations keep the well-formedness of their component\<close>

subsection \<open>Ordered maps: \<open>std::map\<close>\<close>

fun omap_put :: "'k::linorder \<Rightarrow> 'v \<Rightarrow> ('k \<times> 'v) list \<Rightarrow> ('k \<times> 'v) list" where
  "omap_put k v [] = [(k, v)]"
| "omap_put k v ((k', v') # m) =
     (if k < k' then (k, v) # (k', v') # m
      else if k = k' then (k, v) # m
      else (k', v') # omap_put k v m)"

definition omap_del :: "'k \<Rightarrow> ('k \<times> 'v) list \<Rightarrow> ('k \<times> 'v) list" where
  "omap_del k m = filter (\<lambda>p. fst p \<noteq> k) m"

definition omap_keys :: "('k \<times> 'v) list \<Rightarrow> 'k list" where
  "omap_keys m = map fst m"

definition omap_ok :: "('k::linorder \<times> 'v) list \<Rightarrow> bool" where
  "omap_ok m \<longleftrightarrow> sorted_wrt (<) (map fst m)"

lemma omap_ok_Nil [simp]: "omap_ok []"
  by (simp add: omap_ok_def)

lemma map_of_omap_put [simp, omap_simps]: "map_of (omap_put k v m) = (map_of m)(k \<mapsto> v)"
  by (induction m) auto

lemma dom_omap_put [omap_simps]: "fst ` set (omap_put k v m) = insert k (fst ` set m)"
  by (simp add: dom_map_of_conv_image_fst [symmetric])

lemma omap_ok_put [simp, intro]: "omap_ok m \<Longrightarrow> omap_ok (omap_put k v m)"
proof (induction m)
  case (Cons p m)
  obtain k' v' where p: "p = (k', v')" by force
  have "\<forall>x \<in> fst ` set (omap_put k v m). x = k \<or> x \<in> fst ` set m"
    by (simp add: dom_omap_put)
  with Cons show ?case by (fastforce simp: omap_ok_def p)
qed (simp add: omap_ok_def)

lemma map_of_omap_del [simp, omap_simps]: "map_of (omap_del k m) = (map_of m)(k := None)"
  by (induction m) (auto simp: omap_del_def fun_eq_iff)

lemma sorted_wrt_less_filter_map:
  "sorted_wrt (<) (map f xs) \<Longrightarrow> sorted_wrt (<) (map f (filter P xs))"
  by (induction xs) auto

lemma omap_ok_del [simp, intro]: "omap_ok m \<Longrightarrow> omap_ok (omap_del k m)"
  unfolding omap_ok_def omap_del_def by (rule sorted_wrt_less_filter_map)

lemma omap_ok_distinct: "omap_ok m \<Longrightarrow> distinct (map fst m)"
  unfolding omap_ok_def strict_sorted_iff by simp

lemma omap_ok_map_of: "omap_ok m \<Longrightarrow> (k, v) \<in> set m \<longleftrightarrow> map_of m k = Some v"
  by (metis map_of_SomeD map_of_is_SomeI omap_ok_distinct)

lemma omap_keys_set [simp]: "set (omap_keys m) = dom (map_of m)"
  by (simp add: omap_keys_def dom_map_of_conv_image_fst)

lemma omap_keys_distinct: "omap_ok m \<Longrightarrow> distinct (omap_keys m)"
  unfolding omap_keys_def by (rule omap_ok_distinct)

text \<open>\<open>insert\<close> keeps the value a key already has; \<open>operator[]\<close> makes a default value when the
  key is absent.\<close>

definition omap_insert :: "'k::linorder \<Rightarrow> 'v \<Rightarrow> ('k \<times> 'v) list \<Rightarrow> ('k \<times> 'v) list" where
  "omap_insert k v m = (if map_of m k = None then omap_put k v m else m)"

definition omap_get :: "'v \<Rightarrow> ('k \<times> 'v) list \<Rightarrow> 'k \<Rightarrow> 'v" where
  "omap_get d m k = (case map_of m k of Some v \<Rightarrow> v | None \<Rightarrow> d)"

lemma map_of_omap_insert [simp, omap_simps]:
  "map_of (omap_insert k v m) k' =
     (if k' = k \<and> map_of m k = None then Some v else map_of m k')"
  by (simp add: omap_insert_def)

lemma omap_ok_insert [simp, intro]: "omap_ok m \<Longrightarrow> omap_ok (omap_insert k v m)"
  by (simp add: omap_insert_def)

lemma omap_get_put [simp]: "omap_get d (omap_put k v m) k' = (if k' = k then v else omap_get d m k')"
  by (simp add: omap_get_def)

lemma omap_get_Nil [simp]: "omap_get d [] k = d"
  by (simp add: omap_get_def)

text \<open>\<open>std::set<unsigned>\<close> as a strictly sorted list.\<close>

abbreviation oset_add :: "'k::linorder \<Rightarrow> 'k list \<Rightarrow> 'k list" where
  "oset_add \<equiv> insort_insert"

definition oset_ok :: "'k::linorder list \<Rightarrow> bool" where
  "oset_ok s \<longleftrightarrow> sorted s \<and> distinct s"

lemma oset_ok_simps [simp, intro]:
  "oset_ok []"
  "oset_ok s \<Longrightarrow> oset_ok (oset_add x s)"
  "oset_ok s \<Longrightarrow> oset_ok (removeAll x s)"
  by (simp_all add: oset_ok_def sorted_insort_insert distinct_insort_insert
        removeAll_filter_not_eq sorted_wrt_filter)

lemma set_oset_add [simp]: "set (oset_add x s) = insert x (set s)"
  by (rule set_insort_insert)

subsection \<open>Machine words\<close>

lemma unat_lt: "unat (w :: 'a::len word) < 2 ^ LENGTH('a)"
  by (rule unsigned_less)

lemma unat_lt32: "unat (w :: u32) < 4294967296"
  by (rule order_less_le_trans [OF unat_lt]) simp

lemma unat_lt64: "unat (w :: u64) < 18446744073709551616"
  by (rule order_less_le_trans [OF unat_lt]) simp

lemma unat_pow2: "k < LENGTH('a) \<Longrightarrow> unat (2 ^ k :: 'a::len word) = 2 ^ k"
proof -
  assume "k < LENGTH('a)"
  then have "(2::nat) ^ k < 2 ^ LENGTH('a)" by simp
  moreover have "(2 ^ k :: 'a word) = word_of_nat (2 ^ k)" by simp
  ultimately show ?thesis by (simp only: unat_of_nat mod_less)
qed

lemma unat_inc: "a < (w :: 'a::len word) \<Longrightarrow> unat (a + 1) = unat a + 1"
proof -
  assume "a < w"
  then have "unat a < unat w" by (simp add: word_less_nat_alt)
  then have "unat a + 1 < 2 ^ LENGTH('a)"
    using unat_lt [of w] by linarith
  then show ?thesis by (simp add: unat_word_ariths)
qed

lemma word_of_nat_unat_add: "word_of_nat (m + unat a) = (word_of_nat m :: 'a::len word) + a"
  by simp

text \<open>A sum of machine integers is the sum of naturals, modulo the word size.\<close>

definition wsum :: "'a::len word list \<Rightarrow> 'a word" where
  "wsum xs = foldl (+) 0 xs"

lemma foldl_plus_word: "foldl (+) a xs = a + sum_list (xs :: 'a::len word list)"
  by (induction xs arbitrary: a) (simp_all add: add.assoc)

lemma wsum_of_nat: "wsum xs = (word_of_nat (\<Sum>x\<leftarrow>xs. unat x) :: 'a::len word)"
  unfolding wsum_def by (simp add: foldl_plus_word) (induction xs; simp)

lemma unat_wsum:
  "(\<Sum>x\<leftarrow>xs. unat x) < 2 ^ LENGTH('a) \<Longrightarrow> unat (wsum xs :: 'a::len word) = (\<Sum>x\<leftarrow>xs. unat x)"
  by (simp add: wsum_of_nat unat_of_nat)

subsection \<open>Decimal printing: \<open>std::to_string\<close>\<close>

fun dec_string :: "nat \<Rightarrow> string" where
  "dec_string n =
     (if n < 10 then [char_of (48 + n)] else dec_string (n div 10) @ [char_of (48 + n mod 10)])"

declare dec_string.simps [simp del]

end
