(* ===== verification/CacheGeometry.thy ===== *)
theory CacheGeometry
  imports Prelude
begin

text \<open>
  \<open>include/Analysis/Cache/CacheGeometry.h\<close>: the structural parameters of a
  set-associative cache and the decomposition of an address into a line and a set index.
  The lemmas show that on a valid geometry the masks are the division and remainder they
  stand for, so a line belongs to exactly one set of the cache.
\<close>

record CacheGeometry =
  NumSets :: u32
  Ways :: u32
  LineBytes :: u32

definition defaultGeometry :: CacheGeometry where
  "defaultGeometry = \<lparr>NumSets = 1, Ways = 1, LineBytes = 8\<rparr>"

definition lineId :: "CacheGeometry \<Rightarrow> u64 \<Rightarrow> u64" where
  "lineId Geo Addr = Addr AND NOT (ucast (LineBytes Geo) - 1)"

definition setIndex :: "CacheGeometry \<Rightarrow> u64 \<Rightarrow> u32" where
  "setIndex Geo LineId =
     ucast ((LineId div ucast (LineBytes Geo)) AND ucast (NumSets Geo - 1))"

definition isPow2 :: "u32 \<Rightarrow> bool" where
  "isPow2 X \<longleftrightarrow> X \<noteq> 0 \<and> X AND (X - 1) = 0"

definition isValid :: "CacheGeometry \<Rightarrow> bool" where
  "isValid Geo \<longleftrightarrow> isPow2 (NumSets Geo) \<and> isPow2 (LineBytes Geo) \<and> 1 \<le> Ways Geo"

subsection \<open>Powers of two\<close>

lemma nat_and_pred_pow2: "n \<noteq> 0 \<Longrightarrow> n AND (n - 1) = 0 \<Longrightarrow> \<exists>k. n = 2 ^ k" for n :: nat
proof (induction n rule: less_induct)
  case (less n)
  show ?case
  proof (cases "even n")
    case True
    then obtain m where m: "n = 2 * m" by (elim evenE)
    with less.prems have "m \<noteq> 0" by simp
    have half: "(2 * m - Suc 0) div 2 = m - 1" using \<open>m \<noteq> 0\<close> by arith
    have "n AND (n - 1) = 2 * (m AND (m - 1))"
      using m \<open>m \<noteq> 0\<close> by (subst and_rec) (simp add: half)
    with less.prems \<open>m \<noteq> 0\<close> m obtain k where "m = 2 ^ k"
      using less.IH [of m] by auto
    with m have "n = 2 ^ Suc k" by simp
    then show ?thesis ..
  next
    case False
    then obtain m where m: "n = 2 * m + 1" by (elim oddE)
    then have "n AND (n - 1) = 2 * (m AND m)" by (subst and_rec) auto
    with less.prems m have "n = 2 ^ 0" by simp
    then show ?thesis ..
  qed
qed

lemma isPow2_unat: "isPow2 X \<Longrightarrow> \<exists>k < 32. unat X = 2 ^ k"
proof -
  assume X: "isPow2 X"
  then have "X \<noteq> 0" and "X AND (X - 1) = 0" by (simp_all add: isPow2_def)
  moreover have "unat (X - 1) = unat X - 1"
    using \<open>X \<noteq> 0\<close> by (rule unat_minus_one)
  ultimately have "unat X AND (unat X - 1) = 0" and "unat X \<noteq> 0"
    by (metis unsigned_and_eq unsigned_0, simp add: unat_eq_zero)
  then obtain k where k: "unat X = 2 ^ k" using nat_and_pred_pow2 by blast
  with unat_lt [of X] have "(2::nat) ^ k < 2 ^ 32" by simp
  then have "k < 32" by (rule power_less_imp_less_exp [rotated]) simp
  with k show ?thesis by blast
qed

subsection \<open>Lines and sets\<close>

text \<open>On a valid geometry the line mask is division by the line size, and the set mask is
  the remainder by the number of sets.\<close>

lemma isValid_pow2:
  assumes "isValid Geo"
  obtains k m where "k < 32" "unat (LineBytes Geo) = 2 ^ k" "m < 32" "unat (NumSets Geo) = 2 ^ m"
  using assms isPow2_unat unfolding isValid_def by metis

lemma unat_ucast_u64 [simp]: "unat (ucast (X :: u32) :: u64) = unat X"
proof -
  have "unat X < 2 ^ 64"
    using unat_lt [of X] by simp
  then show ?thesis by (simp add: unsigned_ucast_eq take_bit_nat_eq_self)
qed

lemma ucast_pow2: "unat (X :: u32) = 2 ^ k \<Longrightarrow> k < 32 \<Longrightarrow> (ucast X :: u64) = 2 ^ k"
proof -
  assume "unat X = 2 ^ k" "k < 32"
  then have "unat (ucast X :: u64) = unat (2 ^ k :: u64)"
    by (simp add: unat_pow2)
  then show ?thesis by (simp only: word_unat_eq_iff)
qed

lemma and_not_mask_shift: "w AND NOT (mask k) = push_bit k (drop_bit k w)" for w :: "'a::len word"
  by (rule bit_word_eqI) (auto simp: bit_simps)

lemma lineId_div:
  assumes "isValid Geo"
  shows "unat (lineId Geo Addr) =
    unat Addr div unat (LineBytes Geo) * unat (LineBytes Geo)"
proof -
  obtain k where k: "k < 32" "unat (LineBytes Geo) = 2 ^ k"
    using assms by (rule isValid_pow2)
  then have "lineId Geo Addr = push_bit k (drop_bit k Addr)"
    by (simp add: lineId_def ucast_pow2 and_not_mask_shift flip: mask_eq_decr_exp)
  also have "\<dots> = (Addr div 2 ^ k) * 2 ^ k"
    by (simp add: push_bit_eq_mult drop_bit_eq_div)
  finally have "lineId Geo Addr = (Addr div 2 ^ k) * 2 ^ k" .
  moreover have "unat Addr div 2 ^ k * 2 ^ k < 2 ^ 64" and "unat Addr div 2 ^ k < 2 ^ 64"
    using unat_lt [of Addr]
    by (auto intro: le_less_trans [OF div_times_less_eq_dividend] le_less_trans [OF div_le_dividend])
  ultimately show ?thesis
    using k by (simp add: unat_word_ariths unat_div unat_pow2)
qed

lemma setIndex_mod:
  assumes "isValid Geo"
  shows "unat (setIndex Geo L) = unat L div unat (LineBytes Geo) mod unat (NumSets Geo)"
proof -
  obtain k m where k: "k < 32" "unat (LineBytes Geo) = 2 ^ k"
    and m: "m < 32" "unat (NumSets Geo) = 2 ^ m"
    using assms by (rule isValid_pow2)
  have "NumSets Geo = 2 ^ m"
    using m by (simp add: word_unat_eq_iff unat_pow2)
  then have mask: "(ucast (NumSets Geo - 1) :: u64) = mask m"
    using m by (simp flip: mask_eq_decr_exp) (rule bit_word_eqI, auto simp: bit_simps)
  have "unat L div 2 ^ k mod 2 ^ m < 2 ^ m" by simp
  also have "(2::nat) ^ m \<le> 2 ^ 32" using m by (intro power_increasing) simp_all
  finally have "unat L div 2 ^ k mod 2 ^ m < 2 ^ 32" .
  then show ?thesis
    using k m unfolding setIndex_def mask
    by (simp add: ucast_pow2 unsigned_ucast_eq take_bit_eq_mask [symmetric] unsigned_take_bit_eq unat_mod
        unat_div unat_pow2 take_bit_eq_mod)
qed

lemma setIndex_less: "isValid Geo \<Longrightarrow> unat (setIndex Geo L) < unat (NumSets Geo)"
  by (rule isValid_pow2, assumption) (simp add: setIndex_mod)

text \<open>The line of an address: its base is at most the address, less than a line away, and two
  addresses share a line exactly when they agree up to the offset in the line.\<close>

lemma lineId_bounds:
  assumes "isValid Geo"
  shows "unat (lineId Geo a) \<le> unat a"
    and "unat a < unat (lineId Geo a) + unat (LineBytes Geo)"
proof -
  obtain k where "unat (LineBytes Geo) = 2 ^ k" using assms by (rule isValid_pow2)
  then have pos: "0 < unat (LineBytes Geo)" by simp
  show "unat (lineId Geo a) \<le> unat a"
    unfolding lineId_div [OF assms] by (rule div_times_less_eq_dividend)
  have "unat a mod unat (LineBytes Geo) < unat (LineBytes Geo)" using pos by simp
  then show "unat a < unat (lineId Geo a) + unat (LineBytes Geo)"
    unfolding lineId_div [OF assms] using div_mult_mod_eq [of "unat a" "unat (LineBytes Geo)"]
    by linarith
qed

lemma lineId_eq_iff:
  assumes "isValid Geo"
  shows "lineId Geo a = lineId Geo b \<longleftrightarrow>
    unat a div unat (LineBytes Geo) = unat b div unat (LineBytes Geo)"
proof -
  obtain k where "unat (LineBytes Geo) = 2 ^ k" using assms by (rule isValid_pow2)
  then show ?thesis
    unfolding word_unat_eq_iff lineId_div [OF assms] by simp
qed

lemma lineId_idem: "isValid Geo \<Longrightarrow> lineId Geo (lineId Geo a) = lineId Geo a"
  by (rule isValid_pow2, assumption) (simp add: lineId_eq_iff lineId_div)

end
