(* ===== verification/ReplacementPolicy.thy ===== *)
theory ReplacementPolicy
  imports Prelude
begin

text \<open>
  \<open>include/Analysis/Cache/ReplacementPolicy.h\<close>: the abstract state of one cache set and the
  three policies that interpret it. The virtual class \<open>ReplacementPolicy\<close> is the record of its
  operations; \<open>CacheSetState\<close> is the record's type parameter, so a \<open>static_cast\<close> of a state to
  the wrong subclass cannot be written. \<open>clone\<close> copies a value and is the identity here.
\<close>

datatype AnalysisKind = Must | May

record 's ReplacementPolicy =
  rp_name :: string
  rp_supports :: "AnalysisKind \<Rightarrow> bool"
  rp_makeEmpty :: 's
  rp_clone :: "'s \<Rightarrow> 's"
  rp_equals :: "'s \<Rightarrow> 's \<Rightarrow> bool"
  rp_contains :: "'s \<Rightarrow> u64 \<Rightarrow> bool"
  rp_update :: "'s \<Rightarrow> u64 \<Rightarrow> 's"
  rp_join :: "'s \<Rightarrow> 's \<Rightarrow> AnalysisKind \<Rightarrow> 's \<times> bool"
  rp_toString :: "'s \<Rightarrow> string"

subsection \<open>UnknownPolicy\<close>

type_synonym UnknownSetState = "u64 option"

definition Unknown_contains :: "UnknownSetState \<Rightarrow> u64 \<Rightarrow> bool" where
  "Unknown_contains S LineId \<longleftrightarrow> S \<noteq> None \<and> the S = LineId"

definition Unknown_update :: "UnknownSetState \<Rightarrow> u64 \<Rightarrow> UnknownSetState" where
  "Unknown_update S LineId = Some LineId"

definition Unknown_join ::
  "UnknownSetState \<Rightarrow> UnknownSetState \<Rightarrow> AnalysisKind \<Rightarrow> UnknownSetState \<times> bool" where
  "Unknown_join I O' Kind =
     (let Merged = (if I \<noteq> None \<and> O' \<noteq> None \<and> the I = the O' then I else None)
      in if Merged = I then (I, False) else (Merged, True))"

definition Unknown_toString :: "UnknownSetState \<Rightarrow> string" where
  "Unknown_toString S =
     (case S of Some L \<Rightarrow> ''{'' @ dec_string (unat L) @ ''}'' | None \<Rightarrow> ''{}'')"

definition UnknownPolicy :: "UnknownSetState ReplacementPolicy" where
  "UnknownPolicy =
     \<lparr>rp_name = ''unknown'',
      rp_supports = (\<lambda>Kind. Kind = Must),
      rp_makeEmpty = None,
      rp_clone = (\<lambda>S. S),
      rp_equals = (=),
      rp_contains = Unknown_contains,
      rp_update = Unknown_update,
      rp_join = Unknown_join,
      rp_toString = Unknown_toString\<rparr>"

subsection \<open>AgeBasedPolicy: what LRU and FIFO share\<close>

text \<open>The lines of a set with their age bounds, in the order of the vector. \<open>find\<close> returns a
  pointer to the age of the first entry of a line, or null.\<close>

type_synonym AgeSetState = "(u64 \<times> u32) list"

fun age_find :: "AgeSetState \<Rightarrow> u64 \<Rightarrow> u32 option" where
  "age_find [] LineId = None"
| "age_find (P # V) LineId = (if fst P = LineId then Some (snd P) else age_find V LineId)"

definition age_sorted :: "AgeSetState \<Rightarrow> AgeSetState" where
  "age_sorted S = sort S"

definition AgeBased_ways :: "u32 \<Rightarrow> u32" where
  "AgeBased_ways W = (if W = 0 then 1 else W)"

definition AgeBased_equals :: "AgeSetState \<Rightarrow> AgeSetState \<Rightarrow> bool" where
  "AgeBased_equals A B \<longleftrightarrow> age_sorted A = age_sorted B"

definition AgeBased_contains :: "AgeSetState \<Rightarrow> u64 \<Rightarrow> bool" where
  "AgeBased_contains S LineId \<longleftrightarrow> list_ex (\<lambda>P. fst P = LineId) S"

definition AgeBased_merge :: "AgeSetState \<Rightarrow> AgeSetState \<Rightarrow> AnalysisKind \<Rightarrow> AgeSetState" where
  "AgeBased_merge I O' Kind =
     (case Kind of
        Must \<Rightarrow>
          List.map_filter
            (\<lambda>P. case age_find O' (fst P) of
                    Some AO \<Rightarrow> Some (fst P, max (snd P) AO) | None \<Rightarrow> None) I
      | May \<Rightarrow>
          map (\<lambda>P. case age_find O' (fst P) of
                    Some AO \<Rightarrow> (fst P, min (snd P) AO) | None \<Rightarrow> P) I
          @ filter (\<lambda>Q. age_find I (fst Q) = None) O')"

definition AgeBased_join ::
  "AgeSetState \<Rightarrow> AgeSetState \<Rightarrow> AnalysisKind \<Rightarrow> AgeSetState \<times> bool" where
  "AgeBased_join Into Other Kind =
     (let Merged = AgeBased_merge Into Other Kind
      in if AgeBased_equals Into Merged then (Into, False) else (Merged, True))"

fun age_entries_string :: "AgeSetState \<Rightarrow> string" where
  "age_entries_string [] = ''''"
| "age_entries_string [P] = dec_string (unat (fst P)) @ ''@'' @ dec_string (unat (snd P))"
| "age_entries_string (P # C) =
     dec_string (unat (fst P)) @ ''@'' @ dec_string (unat (snd P)) @ '','' @ age_entries_string C"

definition AgeBased_toString :: "AgeSetState \<Rightarrow> string" where
  "AgeBased_toString S = ''{'' @ age_entries_string (age_sorted S) @ ''}''"

definition insertMiss :: "u32 \<Rightarrow> AgeSetState \<Rightarrow> u64 \<Rightarrow> AgeSetState" where
  "insertMiss W S LineId =
     filter (\<lambda>P. \<not> W \<le> snd P) (map (\<lambda>P. (fst P, snd P + 1)) S) @ [(LineId, 0)]"

subsection \<open>LRUPolicy and FIFOPolicy\<close>

fun age_reset :: "u64 \<Rightarrow> AgeSetState \<Rightarrow> AgeSetState" where
  "age_reset LineId [] = []"
| "age_reset LineId (P # V) =
     (if fst P = LineId then (fst P, 0) # V else P # age_reset LineId V)"

definition LRU_update :: "u32 \<Rightarrow> AgeSetState \<Rightarrow> u64 \<Rightarrow> AgeSetState" where
  "LRU_update W S LineId =
     (case age_find S LineId of
        Some A \<Rightarrow>
          age_reset LineId (map (\<lambda>Q. if snd Q < A then (fst Q, snd Q + 1) else Q) S)
      | None \<Rightarrow> insertMiss W S LineId)"

definition FIFO_update :: "u32 \<Rightarrow> AgeSetState \<Rightarrow> u64 \<Rightarrow> AgeSetState" where
  "FIFO_update W S LineId =
     (if AgeBased_contains S LineId then S else insertMiss W S LineId)"

definition AgeBasedPolicy ::
  "string \<Rightarrow> (AgeSetState \<Rightarrow> u64 \<Rightarrow> AgeSetState) \<Rightarrow> AgeSetState ReplacementPolicy" where
  "AgeBasedPolicy nm upd =
     \<lparr>rp_name = nm,
      rp_supports = (\<lambda>Kind. True),
      rp_makeEmpty = [],
      rp_clone = (\<lambda>S. S),
      rp_equals = AgeBased_equals,
      rp_contains = AgeBased_contains,
      rp_update = upd,
      rp_join = AgeBased_join,
      rp_toString = AgeBased_toString\<rparr>"

definition LRUPolicy :: "u32 \<Rightarrow> AgeSetState ReplacementPolicy" where
  "LRUPolicy W = AgeBasedPolicy ''lru'' (LRU_update (AgeBased_ways W))"

definition FIFOPolicy :: "u32 \<Rightarrow> AgeSetState ReplacementPolicy" where
  "FIFOPolicy W = AgeBasedPolicy ''fifo'' (FIFO_update (AgeBased_ways W))"

subsection \<open>The representation: at most one entry per line, ages below the associativity\<close>

definition age_inv :: "u32 \<Rightarrow> AgeSetState \<Rightarrow> bool" where
  "age_inv W S \<longleftrightarrow> distinct (map fst S) \<and> (\<forall>P \<in> set S. snd P < W)"

named_theorems age_simps \<open>lookups in the results of the age-based operations\<close>

lemma age_find_map_of [age_simps]: "age_find S l = map_of S l"
  by (induction S) auto

lemma AgeBased_contains_iff [age_simps]: "AgeBased_contains S l \<longleftrightarrow> map_of S l \<noteq> None"
  by (auto simp: AgeBased_contains_def list_ex_iff map_of_eq_None_iff)

lemma age_inv_Nil [simp]: "age_inv W []"
  by (simp add: age_inv_def)

lemma age_inv_less: "age_inv W S \<Longrightarrow> map_of S l = Some a \<Longrightarrow> a < W"
  by (auto simp: age_inv_def dest!: map_of_SomeD)

lemma AgeBased_ways_pos [simp]: "0 < AgeBased_ways W"
  by (simp add: AgeBased_ways_def word_neq_0_conv [symmetric])

lemma map_of_map_age:
  "map_of (map (\<lambda>P. (fst P, f (snd P))) S) l = map_option f (map_of S l)"
  by (induction S) auto

lemma map_of_filter_age:
  "distinct (map fst S) \<Longrightarrow>
   map_of (filter (\<lambda>P. Q (snd P)) S) l =
     (case map_of S l of Some a \<Rightarrow> if Q a then Some a else None | None \<Rightarrow> None)"
  by (induction S) (auto split: option.splits simp: map_of_eq_None_iff)

lemma distinct_fst_map_age:
  "distinct (map fst (map (\<lambda>P. (fst P, f (snd P))) S)) \<longleftrightarrow> distinct (map fst S)"
  by (simp add: comp_def)

lemma insertMiss_lookup [age_simps]:
  assumes "age_inv W S" and "map_of S l = None"
  shows "map_of (insertMiss W S l) k =
    (if k = l then Some 0
     else case map_of S k of
       Some a \<Rightarrow> if a + 1 < W then Some (a + 1) else None
     | None \<Rightarrow> None)"
proof -
  let ?M = "map (\<lambda>P. (fst P, snd P + 1)) S"
  have d: "distinct (map fst ?M)"
    using assms(1) by (simp add: age_inv_def comp_def)
  have "map_of (filter (\<lambda>P. \<not> W \<le> snd P) ?M) k =
      (case map_of S k of Some a \<Rightarrow> if a + 1 < W then Some (a + 1) else None | None \<Rightarrow> None)" for k
    using map_of_filter_age [OF d, of "\<lambda>a. \<not> W \<le> a" k] map_of_map_age [of "\<lambda>a. a + 1" S k]
    by (auto split: option.splits)
  then show ?thesis
    using assms(2) by (auto simp: insertMiss_def map_add_def split: option.splits)
qed

lemma insertMiss_inv [wf_intros]:
  assumes "age_inv W S" and "map_of S l = None" and "0 < W"
  shows "age_inv W (insertMiss W S l)"
proof -
  have "distinct (map fst (filter Q (map (\<lambda>P. (fst P, snd P + 1)) S)))" for Q
    using assms(1) by (auto simp: age_inv_def comp_def intro!: distinct_map_filter)
  then show ?thesis
    using assms by (force simp: age_inv_def insertMiss_def map_of_eq_None_iff not_le)
qed

lemma map_of_age_reset [age_simps]:
  "map_of (age_reset l S) k = (if k = l then map_option (\<lambda>_. 0) (map_of S l) else map_of S k)"
  by (induction S) auto

lemma fst_age_reset [simp]: "map fst (age_reset l S) = map fst S"
  by (induction S) auto

lemma set_age_reset: "P \<in> set (age_reset l S) \<Longrightarrow> snd P = 0 \<or> P \<in> set S"
  by (induction S) (auto split: if_splits)

lemma map_of_age_bump:
  "map_of (map (\<lambda>Q. if snd Q < a then (fst Q, snd Q + 1) else Q) S) l =
    map_option (\<lambda>b. if b < a then b + 1 else b) (map_of S l)"
  by (induction S) auto

lemma LRU_update_lookup [age_simps]:
  assumes "age_inv W S"
  shows "map_of (LRU_update W S l) k =
    (if k = l then Some 0
     else case (map_of S k, map_of S l) of
       (Some b, Some a) \<Rightarrow> Some (if b < a then b + 1 else b)
     | (Some b, None) \<Rightarrow> if b + 1 < W then Some (b + 1) else None
     | (None, _) \<Rightarrow> None)"
proof (cases "map_of S l")
  case None
  with assms show ?thesis
    by (simp add: LRU_update_def age_simps split: option.splits)
next
  case (Some a)
  then show ?thesis
    by (simp add: LRU_update_def age_simps map_of_age_bump split: option.splits)
qed

lemma LRU_update_inv [wf_intros]:
  assumes inv: "age_inv W S" and W: "0 < W"
  shows "age_inv W (LRU_update W S l)"
proof (cases "map_of S l")
  case None
  with assms show ?thesis
    by (simp add: LRU_update_def age_simps insertMiss_inv)
next
  case (Some a)
  then have a: "a < W" using inv by (rule age_inv_less [rotated])
  let ?M = "map (\<lambda>Q. if snd Q < a then (fst Q, snd Q + 1) else Q) S"
  have "map fst ?M = map fst S" by simp
  then have "distinct (map fst ?M)" using inv by (simp only: age_inv_def)
  moreover have "\<forall>P \<in> set ?M. snd P < W"
    using inv a by (auto simp: age_inv_def inc_le intro: le_less_trans [OF inc_le])
  ultimately show ?thesis
    using Some W by (auto simp: LRU_update_def age_simps age_inv_def dest!: set_age_reset)
qed

lemma FIFO_update_lookup [age_simps]:
  assumes "age_inv W S"
  shows "map_of (FIFO_update W S l) k =
    (if map_of S l \<noteq> None then map_of S k
     else if k = l then Some 0
     else case map_of S k of
       Some b \<Rightarrow> if b + 1 < W then Some (b + 1) else None
     | None \<Rightarrow> None)"
  using assms by (auto simp: FIFO_update_def age_simps)

lemma FIFO_update_inv [wf_intros]:
  "age_inv W S \<Longrightarrow> 0 < W \<Longrightarrow> age_inv W (FIFO_update W S l)"
  by (auto simp: FIFO_update_def age_simps intro: wf_intros)

subsection \<open>Joins\<close>

lemma age_merge_Must_lookup [age_simps]:
  "distinct (map fst I) \<Longrightarrow>
   map_of (AgeBased_merge I O' Must) k =
     (case (map_of I k, map_of O' k) of (Some a, Some b) \<Rightarrow> Some (max a b) | _ \<Rightarrow> None)"
  unfolding AgeBased_merge_def age_find_map_of
proof (induction I)
  case (Cons P I)
  then have "map_of I (fst P) = None" by (simp add: map_of_eq_None_iff)
  with Cons show ?case
    by (cases "k = fst P") (simp_all add: map_filter_simps split: option.splits)
qed (simp add: map_filter_simps)

lemma age_merge_May_lookup [age_simps]:
  "map_of (AgeBased_merge I O' May) k =
     (case (map_of I k, map_of O' k) of
        (Some a, Some b) \<Rightarrow> Some (min a b) | (Some a, None) \<Rightarrow> Some a | (None, b) \<Rightarrow> b)"
proof -
  have "map_of (map (\<lambda>P. case map_of O' (fst P) of
            Some AO \<Rightarrow> (fst P, min (snd P) AO) | None \<Rightarrow> P) I) k =
        map_option (\<lambda>a. case map_of O' k of Some b \<Rightarrow> min a b | None \<Rightarrow> a) (map_of I k)"
    by (induction I) (auto split: option.splits)
  moreover have "map_of I k = None \<Longrightarrow> map_of (filter (\<lambda>Q. map_of I (fst Q) = None) O') k = map_of O' k"
    by (induction O') auto
  ultimately show ?thesis
    by (auto simp: AgeBased_merge_def age_find_map_of map_add_def split: option.splits)
qed

lemma age_merge_inv [wf_intros]:
  assumes "age_inv W I" and "age_inv W O'"
  shows "age_inv W (AgeBased_merge I O' Kind)"
proof (cases Kind)
  case Must
  let ?M = "AgeBased_merge I O' Must"
  have "map fst ?M = map fst (filter (\<lambda>P. map_of O' (fst P) \<noteq> None) I)"
    unfolding AgeBased_merge_def age_find_map_of
    by (induction I) (auto simp: map_filter_simps split: option.splits)
  then have d: "distinct (map fst ?M)"
    using assms(1) by (simp add: age_inv_def distinct_map_filter)
  have "snd P < W" if "P \<in> set ?M" for P
  proof -
    from that d have "map_of ?M (fst P) = Some (snd P)" by simp
    then obtain a b where "map_of I (fst P) = Some a" "map_of O' (fst P) = Some b" "snd P = max a b"
      using assms(1) by (auto simp: age_inv_def age_merge_Must_lookup split: option.splits)
    then show ?thesis using assms by (auto dest: age_inv_less)
  qed
  with d Must show ?thesis by (simp add: age_inv_def)
next
  case May
  have "map fst (AgeBased_merge I O' May) =
      map fst I @ map fst (filter (\<lambda>Q. map_of I (fst Q) = None) O')"
    by (auto simp: AgeBased_merge_def age_find_map_of split: option.splits)
  moreover have "fst ` {Q \<in> set O'. map_of I (fst Q) = None} \<inter> fst ` set I = {}"
    by (auto simp: map_of_eq_None_iff)
  ultimately have "distinct (map fst (AgeBased_merge I O' May))"
    using assms by (auto simp: age_inv_def distinct_map_filter)
  moreover have "\<forall>P \<in> set (AgeBased_merge I O' May). snd P < W"
    using assms by (auto simp: AgeBased_merge_def age_find_map_of age_inv_def min_less_iff_disj
        split: option.splits)
  ultimately show ?thesis using May by (simp add: age_inv_def)
qed

text \<open>Two states are equal for the code exactly when they hold the same entries, and a join
  reports a change exactly when the state it leaves is another one.\<close>

lemma AgeBased_equals_mset: "AgeBased_equals A B \<longleftrightarrow> mset A = mset B"
proof
  assume "AgeBased_equals A B"
  then have "mset (sort A) = mset (sort B)" by (simp add: AgeBased_equals_def age_sorted_def)
  then show "mset A = mset B" by simp
next
  assume "mset A = mset B"
  then have "sort A = sort B" by (intro properties_for_sort) simp_all
  then show "AgeBased_equals A B" by (simp add: AgeBased_equals_def age_sorted_def)
qed

lemma age_inv_mset_map_of:
  assumes "age_inv W A" and "age_inv W B"
  shows "mset A = mset B \<longleftrightarrow> map_of A = map_of B"
proof -
  have "distinct A" "distinct B" and dA: "distinct (map fst A)" and dB: "distinct (map fst B)"
    using assms by (auto simp: age_inv_def distinct_map)
  then have "mset A = mset B \<longleftrightarrow> set A = set B"
    by (metis set_eq_iff_mset_eq_distinct)
  also have "\<dots> \<longleftrightarrow> map_of A = map_of B"
    using map_of_inject_set [OF dA dB] by simp
  finally show ?thesis .
qed

lemma AgeBased_join_fst:
  "mset (fst (AgeBased_join I O' Kind)) = mset (AgeBased_merge I O' Kind)"
  by (simp add: AgeBased_join_def Let_def AgeBased_equals_mset)

lemma AgeBased_join_changed:
  "snd (AgeBased_join I O' Kind) \<longleftrightarrow> \<not> AgeBased_equals I (fst (AgeBased_join I O' Kind))"
  by (simp add: AgeBased_join_def Let_def AgeBased_equals_mset)

lemma AgeBased_join_inv [wf_intros]:
  "age_inv W I \<Longrightarrow> age_inv W O' \<Longrightarrow> age_inv W (fst (AgeBased_join I O' Kind))"
  by (simp add: AgeBased_join_def Let_def age_merge_inv)

lemma AgeBased_join_lookup [age_simps]:
  assumes "age_inv W I" and "age_inv W O'"
  shows "map_of (fst (AgeBased_join I O' Kind)) = map_of (AgeBased_merge I O' Kind)"
  using AgeBased_join_fst [of I O' Kind] assms
  by (metis age_inv_mset_map_of age_merge_inv AgeBased_join_inv)

end
