(* ===== verification/ConcreteCache.thy ===== *)
theory ConcreteCache
  imports ReplacementPolicy
begin

text \<open>
  The specification the abstract policies are measured against: what one set of a real cache
  does. A set under LRU or FIFO is the list of its lines, youngest first; an undocumented
  policy is the set of resident lines with a transition that may evict anything on a miss.
  The contract between a policy and the cache analysis is the locale \<open>set_domain\<close> (updates and
  joins keep the described caches) with its two directions \<open>must_domain\<close> (present means a hit)
  and \<open>may_domain\<close> (absent means a miss); the policies of the code are interpretations.
\<close>

subsection \<open>Real cache sets\<close>

fun pos :: "'a list \<Rightarrow> 'a \<Rightarrow> nat" where
  "pos [] l = 0"
| "pos (x # c) l = (if x = l then 0 else Suc (pos c l))"

definition valid_set :: "nat \<Rightarrow> u64 list \<Rightarrow> bool" where
  "valid_set k c \<longleftrightarrow> distinct c \<and> length c \<le> k"

definition lru_touch :: "nat \<Rightarrow> u64 list \<Rightarrow> u64 \<Rightarrow> u64 list" where
  "lru_touch k c l = (if l \<in> set c then l # remove1 l c else take k (l # c))"

definition fifo_touch :: "nat \<Rightarrow> u64 list \<Rightarrow> u64 \<Rightarrow> u64 list" where
  "fifo_touch k c l = (if l \<in> set c then c else take k (l # c))"

definition adversary :: "u64 set \<Rightarrow> u64 \<Rightarrow> u64 set \<Rightarrow> bool" where
  "adversary R l R' \<longleftrightarrow> (if l \<in> R then R' = R else l \<in> R' \<and> R' \<subseteq> insert l R)"

lemma pos_less [simp]: "l \<in> set c \<Longrightarrow> pos c l < length c"
  by (induction c) auto

lemma in_set_take_pos: "q \<in> set (take n c) \<longleftrightarrow> q \<in> set c \<and> pos c q < n"
proof (induction c arbitrary: n)
  case (Cons x c)
  then show ?case by (cases n) auto
qed simp

lemma pos_take [simp]: "q \<in> set (take n c) \<Longrightarrow> pos (take n c) q = pos c q"
proof (induction c arbitrary: n)
  case (Cons x c)
  then show ?case by (cases n) auto
qed simp

lemma pos_inject: "q \<in> set c \<Longrightarrow> l \<in> set c \<Longrightarrow> pos c q = pos c l \<longleftrightarrow> q = l"
  by (induction c) auto

lemma pos_remove1:
  "distinct c \<Longrightarrow> q \<in> set c \<Longrightarrow> l \<in> set c \<Longrightarrow> q \<noteq> l \<Longrightarrow>
   pos (remove1 l c) q = (if pos c q < pos c l then pos c q else pos c q - 1)"
proof (induction c)
  case (Cons x c)
  show ?case
  proof (cases "x = q \<or> x = l")
    case True
    with Cons.prems show ?thesis by auto
  next
    case False
    with Cons.prems have "q \<in> set c" "l \<in> set c" by auto
    with Cons.prems have "pos c q \<noteq> pos c l" using pos_inject by metis
    with False Cons show ?thesis by auto
  qed
qed simp

lemma valid_lru [wf_intros]: "0 < k \<Longrightarrow> valid_set k c \<Longrightarrow> valid_set k (lru_touch k c l)"
  by (auto simp: valid_set_def lru_touch_def length_remove1 distinct_take dest: in_set_takeD)

lemma valid_fifo [wf_intros]: "valid_set k c \<Longrightarrow> valid_set k (fifo_touch k c l)"
  by (auto simp: valid_set_def fifo_touch_def distinct_take)

text \<open>Where a line sits after an access.\<close>

lemma lru_touch_set:
  "0 < k \<Longrightarrow> valid_set k c \<Longrightarrow>
   q \<in> set (lru_touch k c l) \<longleftrightarrow>
     q = l \<or> q \<in> set c \<and> (l \<in> set c \<or> pos c q + 1 < k)"
  unfolding lru_touch_def valid_set_def
  by (cases k) (auto simp: in_set_take_pos)

lemma lru_touch_pos:
  "0 < k \<Longrightarrow> valid_set k c \<Longrightarrow> q \<in> set (lru_touch k c l) \<Longrightarrow>
   pos (lru_touch k c l) q =
     (if q = l then 0
      else if l \<notin> set c \<or> pos c q < pos c l then pos c q + 1 else pos c q)"
proof (cases "l \<in> set c")
  case True
  assume "valid_set k c" "q \<in> set (lru_touch k c l)"
  with True show ?thesis
    using pos_inject [of q c l]
    by (cases "pos c q") (auto simp: lru_touch_def valid_set_def pos_remove1)
next
  case False
  assume "0 < k" "q \<in> set (lru_touch k c l)"
  with False show ?thesis
    by (cases k) (auto simp: lru_touch_def)
qed

lemma fifo_touch_set:
  "0 < k \<Longrightarrow> q \<in> set (fifo_touch k c l) \<longleftrightarrow>
     (if l \<in> set c then q \<in> set c else q = l \<or> q \<in> set c \<and> pos c q + 1 < k)"
  by (cases k) (auto simp: fifo_touch_def in_set_take_pos)

lemma fifo_touch_pos:
  "0 < k \<Longrightarrow> q \<in> set (fifo_touch k c l) \<Longrightarrow>
   pos (fifo_touch k c l) q =
     (if l \<in> set c then pos c q else if q = l then 0 else pos c q + 1)"
  by (cases k) (auto simp: fifo_touch_def)

text \<open>Every real policy is an adversary.\<close>

lemma perm_remove1_set: "l \<in> set c \<Longrightarrow> insert l (set (remove1 l c)) = set c"
  by (induction c) auto

lemma lru_adversary: "0 < k \<Longrightarrow> adversary (set c) l (set (lru_touch k c l))"
  by (cases k; cases "l \<in> set c")
    (auto simp: adversary_def lru_touch_def perm_remove1_set dest: in_set_takeD)

lemma fifo_adversary: "0 < k \<Longrightarrow> adversary (set c) l (set (fifo_touch k c l))"
  by (cases k) (auto simp: adversary_def fifo_touch_def dest: in_set_takeD)

subsection \<open>The contract between a policy and the cache analysis\<close>

locale set_domain =
  fixes pol :: "'s ReplacementPolicy"
    and kind :: AnalysisKind
    and ok :: "'s \<Rightarrow> bool"
    and valid :: "'c \<Rightarrow> bool"
    and resident :: "'c \<Rightarrow> u64 \<Rightarrow> bool"
    and touch :: "'c \<Rightarrow> u64 \<Rightarrow> 'c \<Rightarrow> bool"
    and gam :: "'s \<Rightarrow> 'c \<Rightarrow> bool"
  assumes supports: "rp_supports pol kind"
    and ok_empty: "ok (rp_makeEmpty pol)"
    and ok_update: "ok S \<Longrightarrow> ok (rp_update pol S l)"
    and ok_join: "ok S \<Longrightarrow> ok T \<Longrightarrow> ok (fst (rp_join pol S T kind))"
    and clone_id: "rp_clone pol S = S"
    and valid_touch: "valid c \<Longrightarrow> touch c l c' \<Longrightarrow> valid c'"
    and gam_update:
      "ok S \<Longrightarrow> valid c \<Longrightarrow> gam S c \<Longrightarrow> touch c l c' \<Longrightarrow> gam (rp_update pol S l) c'"
    and gam_join1: "ok S \<Longrightarrow> ok T \<Longrightarrow> gam S c \<Longrightarrow> gam (fst (rp_join pol S T kind)) c"
    and gam_join2: "ok S \<Longrightarrow> ok T \<Longrightarrow> gam T c \<Longrightarrow> gam (fst (rp_join pol S T kind)) c"
    and join_unchanged: "\<not> snd (rp_join pol S T kind) \<Longrightarrow> fst (rp_join pol S T kind) = S"
    and gam_equals: "ok S \<Longrightarrow> ok T \<Longrightarrow> rp_equals pol S T \<Longrightarrow> gam S c \<longleftrightarrow> gam T c"
begin

lemma unchanged_covers:
  "ok S \<Longrightarrow> ok T \<Longrightarrow> \<not> snd (rp_join pol S T kind) \<Longrightarrow> gam T c \<Longrightarrow> gam S c"
  using gam_join2 join_unchanged by metis

end

text \<open>A must domain describes every cache by its empty state, and what it contains is
  resident.\<close>

locale must_domain = set_domain +
  assumes kind_must: "kind = Must"
    and gam_top: "valid c \<Longrightarrow> gam (rp_makeEmpty pol) c"
    and hit: "ok S \<Longrightarrow> valid c \<Longrightarrow> gam S c \<Longrightarrow> rp_contains pol S l \<Longrightarrow> resident c l"

text \<open>A may domain describes the cold cache by its empty state, and what it does not contain is
  not resident.\<close>

locale may_domain = set_domain +
  fixes cold :: 'c
  assumes kind_may: "kind = May"
    and cold_valid: "valid cold"
    and gam_cold: "gam (rp_makeEmpty pol) cold"
    and miss: "ok S \<Longrightarrow> valid c \<Longrightarrow> gam S c \<Longrightarrow> \<not> rp_contains pol S l \<Longrightarrow> \<not> resident c l"

subsection \<open>LRU\<close>

definition lru_must_gam :: "AgeSetState \<Rightarrow> u64 list \<Rightarrow> bool" where
  "lru_must_gam S c \<longleftrightarrow>
     (\<forall>l a. map_of S l = Some a \<longrightarrow> l \<in> set c \<and> pos c l \<le> unat a)"

definition lru_may_gam :: "AgeSetState \<Rightarrow> u64 list \<Rightarrow> bool" where
  "lru_may_gam S c \<longleftrightarrow>
     (\<forall>l \<in> set c. \<exists>a. map_of S l = Some a \<and> unat a \<le> pos c l)"

lemmas lru_step = lru_touch_set lru_touch_pos LRU_update_lookup

lemma word_max_le: "unat (max a b) = max (unat a) (unat (b :: 'a::len word))"
  by (simp add: max_def word_le_nat_alt)

lemma word_min_le: "unat (min a b) = min (unat a) (unat (b :: 'a::len word))"
  by (simp add: min_def word_le_nat_alt)

lemma lru_must_update:
  assumes inv: "age_inv W S" and W: "0 < unat W" and v: "valid_set (unat W) c"
    and g: "lru_must_gam S c"
  shows "lru_must_gam (LRU_update W S l) (lru_touch (unat W) c l)"
  unfolding lru_must_gam_def
proof (intro allI impI)
  fix q a assume q: "map_of (LRU_update W S l) q = Some a"
  let ?c = "lru_touch (unat W) c l"
  show "q \<in> set ?c \<and> pos ?c q \<le> unat a"
  proof (cases "q = l")
    case True
    with W v show ?thesis by (auto simp: lru_step)
  next
    case False
    with q inv obtain b where b: "map_of S q = Some b"
      by (auto simp: LRU_update_lookup split: option.splits)
    with g have qc: "q \<in> set c" "pos c q \<le> unat b" by (auto simp: lru_must_gam_def)
    have len: "length c \<le> unat W" using v by (simp add: valid_set_def)
    show ?thesis
    proof (cases "map_of S l")
      case None
      with q b False inv have a: "b + 1 < W" "a = b + 1"
        by (auto simp: LRU_update_lookup split: if_splits)
      have bW: "b < W" using b inv by (auto dest: age_inv_less)
      then have "unat a = unat b + 1" using a by (simp add: unat_inc)
      moreover have "unat a < unat W" using a by (simp add: word_less_nat_alt)
      ultimately show ?thesis using qc False W v by (auto simp: lru_touch_set lru_touch_pos)
    next
      case (Some d)
      with g have lc: "l \<in> set c" "pos c l \<le> unat d" by (auto simp: lru_must_gam_def)
      from Some q b False inv have a: "a = (if b < d then b + 1 else b)"
        by (auto simp: LRU_update_lookup)
      show ?thesis
        using a qc lc False W v
        by (auto simp: lru_touch_set lru_touch_pos unat_inc not_less word_le_nat_alt)
    qed
  qed
qed

lemma lru_may_update:
  assumes inv: "age_inv W S" and W: "0 < unat W" and v: "valid_set (unat W) c"
    and g: "lru_may_gam S c"
  shows "lru_may_gam (LRU_update W S l) (lru_touch (unat W) c l)"
  unfolding lru_may_gam_def
proof (intro ballI)
  let ?c = "lru_touch (unat W) c l"
  fix q assume q: "q \<in> set ?c"
  show "\<exists>a. map_of (LRU_update W S l) q = Some a \<and> unat a \<le> pos ?c q"
  proof (cases "q = l")
    case True
    with inv show ?thesis by (simp add: LRU_update_lookup)
  next
    case False
    with q W v have qc: "q \<in> set c" and room: "l \<in> set c \<or> pos c q + 1 < unat W"
      by (auto simp: lru_touch_set)
    with g obtain b where b: "map_of S q = Some b" "unat b \<le> pos c q"
      by (auto simp: lru_may_gam_def)
    have bW: "b < W" using b inv by (auto dest: age_inv_less)
    show ?thesis
    proof (cases "map_of S l")
      case None
      with g have "l \<notin> set c" by (auto simp: lru_may_gam_def)
      moreover have "b + 1 < W"
        using room b \<open>l \<notin> set c\<close> unat_inc [OF bW] by (simp add: word_less_nat_alt)
      ultimately show ?thesis
        using None False b q W v inv bW by (simp add: LRU_update_lookup lru_touch_pos unat_inc)
    next
      case (Some d)
      have "l \<in> set c \<Longrightarrow> unat d \<le> pos c l" using g Some by (auto simp: lru_may_gam_def)
      moreover have "l \<in> set c \<Longrightarrow> pos c q \<noteq> pos c l" using qc False by (simp add: pos_inject)
      ultimately show ?thesis
        using Some False b q W v inv
        by (auto simp: LRU_update_lookup lru_touch_pos unat_inc word_less_nat_alt)
    qed
  qed
qed

lemmas policy_sel = LRUPolicy_def FIFOPolicy_def UnknownPolicy_def AgeBasedPolicy_def

lemma age_equals_lookup:
  "age_inv W S \<Longrightarrow> age_inv W T \<Longrightarrow> AgeBased_equals S T \<Longrightarrow> map_of S = map_of T"
  by (simp add: AgeBased_equals_mset age_inv_mset_map_of)

lemma lru_must_join:
  assumes "age_inv W S" "age_inv W T" "lru_must_gam S c \<or> lru_must_gam T c"
  shows "lru_must_gam (fst (AgeBased_join S T Must)) c"
proof -
  have "distinct (map fst S)" using assms(1) by (simp add: age_inv_def)
  with assms show ?thesis
    by (fastforce simp: lru_must_gam_def AgeBased_join_lookup age_merge_Must_lookup word_max_le
        split: option.splits)
qed

lemma lru_may_join:
  assumes "age_inv W S" "age_inv W T" "lru_may_gam S c \<or> lru_may_gam T c"
  shows "lru_may_gam (fst (AgeBased_join S T May)) c"
  using assms
  by (fastforce simp: lru_may_gam_def AgeBased_join_lookup age_merge_May_lookup word_min_le
      split: option.splits)

lemma AgeBased_join_unchanged:
  "\<not> snd (AgeBased_join S T Kind) \<Longrightarrow> fst (AgeBased_join S T Kind) = S"
  by (simp add: AgeBased_join_def Let_def split: if_splits)

abbreviation lru_step_rel :: "u32 \<Rightarrow> u64 list \<Rightarrow> u64 \<Rightarrow> u64 list \<Rightarrow> bool" where
  "lru_step_rel W c l c' \<equiv> c' = lru_touch (unat (AgeBased_ways W)) c l"

lemma unat_ways_pos [simp]: "0 < unat (AgeBased_ways W)"
  by (simp add: word_less_nat_alt [of 0, simplified, symmetric])

lemma lru_gam_equals:
  assumes "age_inv W S" "age_inv W T" "AgeBased_equals S T"
  shows "lru_must_gam S c \<longleftrightarrow> lru_must_gam T c" "lru_may_gam S c \<longleftrightarrow> lru_may_gam T c"
  using age_equals_lookup [OF assms] by (simp_all add: lru_must_gam_def lru_may_gam_def)

lemma lru_gam_empty [simp]: "lru_must_gam [] c" "lru_may_gam [] []" "valid_set k []"
  by (simp_all add: lru_must_gam_def lru_may_gam_def valid_set_def)

lemma lru_classify:
  "lru_must_gam S c \<Longrightarrow> map_of S l = Some a \<Longrightarrow> l \<in> set c"
  "lru_may_gam S c \<Longrightarrow> map_of S l = None \<Longrightarrow> l \<in> set c \<Longrightarrow> False"
  by (auto simp: lru_must_gam_def lru_may_gam_def)

lemmas lru_laws = policy_sel LRU_update_inv AgeBased_join_inv valid_lru lru_must_update
  lru_may_update lru_must_join lru_may_join AgeBased_join_unchanged AgeBased_contains_iff

interpretation lru_must: must_domain "LRUPolicy W" Must "age_inv (AgeBased_ways W)"
    "valid_set (unat (AgeBased_ways W))" "\<lambda>c l. l \<in> set c" "lru_step_rel W" lru_must_gam
  for W
  by unfold_locales (auto simp: lru_laws lru_gam_equals intro: lru_classify)

interpretation lru_may: may_domain "LRUPolicy W" May "age_inv (AgeBased_ways W)"
    "valid_set (unat (AgeBased_ways W))" "\<lambda>c l. l \<in> set c" "lru_step_rel W" lru_may_gam "[]"
  for W
  by unfold_locales (auto simp: lru_laws lru_gam_equals intro: lru_classify)

subsection \<open>The undocumented policy\<close>

definition unknown_gam :: "UnknownSetState \<Rightarrow> u64 set \<Rightarrow> bool" where
  "unknown_gam S R \<longleftrightarrow> (case S of Some l \<Rightarrow> l \<in> R | None \<Rightarrow> True)"

interpretation unknown_must: must_domain UnknownPolicy Must "\<lambda>S. True"
    "\<lambda>R. True" "\<lambda>R l. l \<in> R" adversary unknown_gam
  by unfold_locales
    (auto simp: policy_sel unknown_gam_def Unknown_update_def Unknown_join_def
      Unknown_contains_def adversary_def Let_def split: option.splits if_splits)

text \<open>So the policy for undocumented hardware is right for any cache whose step is one the
  adversary can make: here LRU and FIFO.\<close>

interpretation unknown_lru: must_domain UnknownPolicy Must "\<lambda>S. True"
    "\<lambda>c. True" "\<lambda>c l. l \<in> set c" "lru_step_rel W" "\<lambda>S c. unknown_gam S (set c)"
  for W
  using lru_adversary [OF unat_ways_pos [of W]]
  by unfold_locales
    (auto intro: unknown_must.gam_update unknown_must.gam_join1 unknown_must.gam_join2
      unknown_must.hit unknown_must.gam_top simp: unknown_must.join_unchanged unknown_must.clone_id
      unknown_must.supports unknown_must.gam_equals)

interpretation unknown_fifo: must_domain UnknownPolicy Must "\<lambda>S. True"
    "\<lambda>c. True" "\<lambda>c l. l \<in> set c"
    "\<lambda>c l c'. c' = fifo_touch (unat (AgeBased_ways W)) c l" "\<lambda>S c. unknown_gam S (set c)"
  for W
  using fifo_adversary [OF unat_ways_pos [of W]]
  by unfold_locales
    (auto intro: unknown_must.gam_update unknown_must.gam_join1 unknown_must.gam_join2
      unknown_must.hit unknown_must.gam_top simp: unknown_must.join_unchanged unknown_must.clone_id
      unknown_must.supports unknown_must.gam_equals)

end
