(* ===== verification/CacheAnalysis.thy ===== *)
theory CacheAnalysis
  imports CacheGeometry ConcreteCache
begin

text \<open>
  \<open>CacheEvent.h\<close>, \<open>CacheState.h\<close> and \<open>CacheAnalysis.cpp\<close>: the abstract cache as a vector of set
  states interpreted by a policy, and the engine that runs the memory effects of an
  instruction on it. A vector is indexed with \<open>!\<close>; on the geometries the constructor's callers
  accept (\<open>isValid\<close>) every index the code computes is in range (\<open>access_in_range\<close>).
  The lemmas lift the contract of a policy to the whole cache and to sequences of events:
  the cost the must direction reports bounds what a real cache pays.
\<close>

subsection \<open>CacheEvent\<close>

datatype CacheEvent = Access (ev_LineId: u64) | Barrier (ev_Cost: u32)

subsection \<open>CacheState\<close>

record 's CacheState =
  cs_Geo :: CacheGeometry
  cs_Policy :: "'s ReplacementPolicy"
  cs_Kind :: AnalysisKind
  Sets :: "'s list"

definition newCacheState ::
  "CacheGeometry \<Rightarrow> 's ReplacementPolicy \<Rightarrow> AnalysisKind \<Rightarrow> 's CacheState" where
  "newCacheState Geo P K =
     \<lparr>cs_Geo = Geo, cs_Policy = P, cs_Kind = K,
      Sets = replicate (unat (NumSets Geo)) (rp_makeEmpty P)\<rparr>"

definition access :: "'s CacheState \<Rightarrow> u64 \<Rightarrow> bool \<times> 's CacheState" where
  "access C LineId =
     (let S = unat (setIndex (cs_Geo C) LineId);
          Present = rp_contains (cs_Policy C) (Sets C ! S) LineId
      in (Present, C\<lparr>Sets := (Sets C)[S := rp_update (cs_Policy C) (Sets C ! S) LineId]\<rparr>))"

definition barrier :: "'s CacheState \<Rightarrow> 's CacheState" where
  "barrier C = C\<lparr>Sets := map (\<lambda>_. rp_makeEmpty (cs_Policy C)) (Sets C)\<rparr>"

definition cs_clone :: "'s CacheState \<Rightarrow> 's CacheState" where
  "cs_clone C = (newCacheState (cs_Geo C) (cs_Policy C) (cs_Kind C))
     \<lparr>Sets := map (rp_clone (cs_Policy C)) (Sets C)\<rparr>"

definition cs_equals :: "'s CacheState \<Rightarrow> 's CacheState \<Rightarrow> bool" where
  "cs_equals C O' \<longleftrightarrow>
     (if length (Sets C) \<noteq> length (Sets O') then False
      else list_all2 (rp_equals (cs_Policy C)) (Sets C) (Sets O'))"

fun join_sets ::
  "'s ReplacementPolicy \<Rightarrow> AnalysisKind \<Rightarrow> 's list \<Rightarrow> 's list \<Rightarrow> 's list \<times> bool" where
  "join_sets P K (A # As) (B # Bs) =
     (let (A', c) = rp_join P A B K; (As', cs) = join_sets P K As Bs in (A' # As', c \<or> cs))"
| "join_sets P K As Bs = (As, False)"

definition cs_join :: "'s CacheState \<Rightarrow> 's CacheState \<Rightarrow> 's CacheState \<times> bool" where
  "cs_join C O' =
     (let (Ss, Changed) = join_sets (cs_Policy C) (cs_Kind C) (Sets C) (Sets O')
      in (C\<lparr>Sets := Ss\<rparr>, Changed))"

fun sets_string :: "('s \<Rightarrow> string) \<Rightarrow> 's list \<Rightarrow> string" where
  "sets_string f [] = ''''"
| "sets_string f [S] = f S"
| "sets_string f (S # Ss) = f S @ '' '' @ sets_string f Ss"

definition cs_toString :: "'s CacheState \<Rightarrow> string" where
  "cs_toString C = ''Cache['' @ sets_string (rp_toString (cs_Policy C)) (Sets C) @ '']''"

subsection \<open>CacheAnalysis\<close>

text \<open>The mapper is the engine's extension point, a function from instructions to events. The
  sink is called for each guaranteed miss; its calls are the list the step returns.\<close>

record ('s, 'mi) CacheAnalysis =
  ca_Geo :: CacheGeometry
  MissPenalty :: u32
  ca_Policy :: "'s ReplacementPolicy"
  Mapper :: "'mi \<Rightarrow> CacheEvent list"
  ca_Kind :: AnalysisKind
  Sink :: bool

definition ca_getInitialState :: "('s, 'mi) CacheAnalysis \<Rightarrow> 's CacheState" where
  "ca_getInitialState A = newCacheState (ca_Geo A) (ca_Policy A) (ca_Kind A)"

fun process_events ::
  "('s, 'mi) CacheAnalysis \<Rightarrow> 'mi \<Rightarrow> CacheEvent list \<Rightarrow> u32 \<Rightarrow> 's CacheState
   \<Rightarrow> u32 \<times> 's CacheState \<times> ('mi \<times> u64) list" where
  "process_events A MI [] Cost C = (Cost, C, [])"
| "process_events A MI (Access L # Es) Cost C =
     (let (Present, C') = access C L in
      if ca_Kind A = Must then
        process_events A MI Es (if \<not> Present then Cost + MissPenalty A else Cost) C'
      else
        (let (Cost', C'', Calls) = process_events A MI Es Cost C'
         in (Cost', C'', (if \<not> Present \<and> Sink A then [(MI, L)] else []) @ Calls)))"
| "process_events A MI (Barrier W # Es) Cost C =
     process_events A MI Es (if ca_Kind A = Must then Cost + W else Cost) (barrier C)"

definition ca_process ::
  "('s, 'mi) CacheAnalysis \<Rightarrow> 's CacheState \<Rightarrow> 'mi
   \<Rightarrow> u32 \<times> 's CacheState \<times> ('mi \<times> u64) list" where
  "ca_process A C MI = process_events A MI (Mapper A MI) 0 C"

subsection \<open>The cache as a state: what every operation keeps\<close>

text \<open>A state belongs to an analysis when it has its policy, direction and geometry, one
  state per set, each well formed.\<close>

definition cs_wf :: "('s \<Rightarrow> bool) \<Rightarrow> 's ReplacementPolicy \<Rightarrow> AnalysisKind \<Rightarrow> CacheGeometry
    \<Rightarrow> 's CacheState \<Rightarrow> bool" where
  "cs_wf ok P K Geo C \<longleftrightarrow>
     cs_Policy C = P \<and> cs_Kind C = K \<and> cs_Geo C = Geo \<and>
     length (Sets C) = unat (NumSets Geo) \<and> (\<forall>S \<in> set (Sets C). ok S)"

lemma cs_wfE:
  assumes "cs_wf ok P K Geo C"
  obtains Ss where "C = \<lparr>cs_Geo = Geo, cs_Policy = P, cs_Kind = K, Sets = Ss\<rparr>"
    "length Ss = unat (NumSets Geo)" "\<And>i. i < unat (NumSets Geo) \<Longrightarrow> ok (Ss ! i)"
  using assms by (cases C) (auto simp: cs_wf_def)

lemma cs_wfI:
  "length Ss = unat (NumSets Geo) \<Longrightarrow> (\<And>i. i < unat (NumSets Geo) \<Longrightarrow> ok (Ss ! i)) \<Longrightarrow>
   cs_wf ok P K Geo \<lparr>cs_Geo = Geo, cs_Policy = P, cs_Kind = K, Sets = Ss\<rparr>"
  by (auto simp: cs_wf_def in_set_conv_nth)

lemma access_in_range:
  "isValid (cs_Geo C) \<Longrightarrow> length (Sets C) = unat (NumSets (cs_Geo C)) \<Longrightarrow>
   unat (setIndex (cs_Geo C) L) < length (Sets C)"
  by (simp add: setIndex_less)

lemma length_join_sets [simp]: "length (fst (join_sets P K As Bs)) = length As"
  by (induction P K As Bs rule: join_sets.induct) (auto simp: Let_def split: prod.splits)

lemma join_sets_nth:
  "length As = length Bs \<Longrightarrow> i < length As \<Longrightarrow>
   fst (join_sets P K As Bs) ! i = fst (rp_join P (As ! i) (Bs ! i) K)"
  by (induction P K As Bs arbitrary: i rule: join_sets.induct)
    (auto simp: Let_def nth_Cons' split: prod.splits)

lemma join_sets_changed:
  "length As = length Bs \<Longrightarrow>
   snd (join_sets P K As Bs) \<longleftrightarrow> (\<exists>i < length As. snd (rp_join P (As ! i) (Bs ! i) K))"
proof (induction P K As Bs rule: join_sets.induct)
  case (1 P K A As B Bs)
  then show ?case
    by (simp add: Let_def case_prod_beta Ex_less_Suc2) (metis prod.collapse)
qed auto

subsection \<open>A real cache, and what it pays for a sequence of events\<close>

text \<open>A real cache is a set per index. An access touches the set of its line and pays the
  miss penalty when the line is not there; a barrier stands for accesses at unknown
  addresses, which may leave any cache behind and pay at most the charge of the event.\<close>

inductive cache_run ::
  "CacheGeometry \<Rightarrow> nat \<Rightarrow> ('c \<Rightarrow> bool) \<Rightarrow> ('c \<Rightarrow> u64 \<Rightarrow> bool) \<Rightarrow> ('c \<Rightarrow> u64 \<Rightarrow> 'c \<Rightarrow> bool)
   \<Rightarrow> (nat \<Rightarrow> 'c) \<Rightarrow> CacheEvent list \<Rightarrow> nat \<Rightarrow> (nat \<Rightarrow> 'c) \<Rightarrow> bool"
  for Geo pen valid resident touch where
  run_done: "cache_run Geo pen valid resident touch f [] 0 f"
| run_access:
    "i = unat (setIndex Geo L) \<Longrightarrow> touch (f i) L c \<Longrightarrow>
     cache_run Geo pen valid resident touch (f(i := c)) Es n g \<Longrightarrow>
     cache_run Geo pen valid resident touch f (Access L # Es)
       ((if resident (f i) L then 0 else pen) + n) g"
| run_barrier:
    "k \<le> unat W \<Longrightarrow> \<forall>i. valid (f' i) \<Longrightarrow>
     cache_run Geo pen valid resident touch f' Es n g \<Longrightarrow>
     cache_run Geo pen valid resident touch f (Barrier W # Es) (k + n) g"

inductive_cases run_doneE: "cache_run Geo pen valid resident touch f [] n g"
inductive_cases run_accessE: "cache_run Geo pen valid resident touch f (Access L # Es) n g"
inductive_cases run_barrierE: "cache_run Geo pen valid resident touch f (Barrier W # Es) n g"

text \<open>The largest cost the events of a sequence can add, to rule out wrap-around.\<close>

fun max_cost :: "u32 \<Rightarrow> CacheEvent list \<Rightarrow> nat" where
  "max_cost pen [] = 0"
| "max_cost pen (Access L # Es) = unat pen + max_cost pen Es"
| "max_cost pen (Barrier W # Es) = unat W + max_cost pen Es"

definition cache_gam ::
  "('s \<Rightarrow> 'c \<Rightarrow> bool) \<Rightarrow> 's CacheState \<Rightarrow> (nat \<Rightarrow> 'c) \<Rightarrow> bool" where
  "cache_gam gam C f \<longleftrightarrow> (\<forall>i < length (Sets C). gam (Sets C ! i) (f i))"

context set_domain
begin

lemma wf_new [wf_intros]: "cs_wf ok pol kind Geo (newCacheState Geo pol kind)"
  by (auto simp: newCacheState_def ok_empty intro: cs_wfI)

lemma wf_access [wf_intros]:
  "cs_wf ok pol kind Geo C \<Longrightarrow> isValid Geo \<Longrightarrow> cs_wf ok pol kind Geo (snd (access C L))"
  by (erule cs_wfE)
    (auto simp: access_def Let_def nth_list_update setIndex_less ok_update intro!: cs_wfI)

lemma wf_barrier [wf_intros]: "cs_wf ok pol kind Geo C \<Longrightarrow> cs_wf ok pol kind Geo (barrier C)"
  by (erule cs_wfE) (auto simp: barrier_def ok_empty intro!: cs_wfI)

lemma wf_join [wf_intros]:
  "cs_wf ok pol kind Geo C \<Longrightarrow> cs_wf ok pol kind Geo D \<Longrightarrow>
   cs_wf ok pol kind Geo (fst (cs_join C D))"
  by (elim cs_wfE) (auto simp: cs_join_def case_prod_beta join_sets_nth ok_join intro!: cs_wfI)

lemma clone_same: "cs_wf ok pol kind Geo C \<Longrightarrow> cs_clone C = C"
  by (erule cs_wfE) (simp add: cs_clone_def newCacheState_def clone_id map_idI)

lemma cache_gam_join:
  assumes "cs_wf ok pol kind Geo C" "cs_wf ok pol kind Geo D"
    and "cache_gam gam C f \<or> cache_gam gam D f"
  shows "cache_gam gam (fst (cs_join C D)) f"
  using assms
  by (elim cs_wfE)
    (auto simp: cache_gam_def cs_join_def case_prod_beta join_sets_nth gam_join1 gam_join2)

lemma cache_join_unchanged:
  assumes "cs_wf ok pol kind Geo C" "cs_wf ok pol kind Geo D" "\<not> snd (cs_join C D)"
  shows "fst (cs_join C D) = C"
  using assms
  by (elim cs_wfE)
    (auto simp: cs_join_def case_prod_beta join_sets_nth join_sets_changed join_unchanged
      intro!: nth_equalityI)

lemma access_present:
  "cs_wf ok pol kind Geo C \<Longrightarrow>
   fst (access C L) = rp_contains pol (Sets C ! unat (setIndex Geo L)) L"
  by (simp add: access_def Let_def cs_wf_def)

lemma cache_set_ok:
  "cs_wf ok pol kind Geo C \<Longrightarrow> isValid Geo \<Longrightarrow> ok (Sets C ! unat (setIndex Geo L))"
  by (erule cs_wfE) (simp add: setIndex_less)

lemma cache_set_gam:
  "cs_wf ok pol kind Geo C \<Longrightarrow> isValid Geo \<Longrightarrow> cache_gam gam C f \<Longrightarrow>
   gam (Sets C ! unat (setIndex Geo L)) (f (unat (setIndex Geo L)))"
  by (erule cs_wfE) (simp add: setIndex_less cache_gam_def)

lemma cache_gam_access:
  assumes "cs_wf ok pol kind Geo C" "isValid Geo" "cache_gam gam C f" "\<forall>i. valid (f i)"
    and "i = unat (setIndex Geo L)" "touch (f i) L c"
  shows "cache_gam gam (snd (access C L)) (f(i := c))"
proof -
  have "gam (rp_update pol (Sets C ! i) L) c"
    using assms cache_set_ok cache_set_gam gam_update by metis
  then show ?thesis
    using assms by (elim cs_wfE)
      (auto simp: cache_gam_def access_def Let_def nth_list_update setIndex_less)
qed

lemma wf_process [wf_intros]:
  "cs_wf ok pol kind Geo C \<Longrightarrow> isValid Geo \<Longrightarrow>
   cs_wf ok pol kind Geo (fst (snd (process_events A MI Es Cost C)))"
proof (induction Es arbitrary: Cost C)
  case (Cons E Es)
  then show ?case
    by (cases E) (simp_all add: case_prod_beta Let_def wf_access wf_barrier)
qed simp

end

text \<open>Must: what the engine reports is at least what any described cache pays, and the state it
  leaves describes the cache the run leaves.\<close>

context must_domain
begin

lemma cache_gam_barrier:
  "cs_wf ok pol kind Geo C \<Longrightarrow> \<forall>i. valid (f i) \<Longrightarrow> cache_gam gam (barrier C) f"
  by (erule cs_wfE) (auto simp: cache_gam_def barrier_def gam_top)

lemma process_must:
  assumes "cache_run Geo (unat (MissPenalty A)) valid resident touch f Es n g"
    and "cs_wf ok pol kind Geo C" "isValid Geo" "ca_Kind A = Must"
    and "cache_gam gam C f" "\<forall>i. valid (f i)"
    and "unat Cost + max_cost (MissPenalty A) Es < 2 ^ 32"
  shows "unat Cost + n \<le> unat (fst (process_events A MI Es Cost C)) \<and>
    cache_gam gam (fst (snd (process_events A MI Es Cost C))) g \<and> (\<forall>i. valid (g i))"
  using assms
proof (induction arbitrary: C Cost rule: cache_run.induct)
  case (run_done f)
  then show ?case by simp
next
  case (run_access i L f c Es n g)
  note wf = run_access.prems(1)
  let ?C = "snd (access C L)" and ?Cost = "if \<not> fst (access C L) then Cost + MissPenalty A else Cost"
  have g: "cache_gam gam ?C (f(i := c))"
    using run_access by (intro cache_gam_access)
  have v: "\<forall>j. valid ((f(i := c)) j)"
    using run_access.prems(5) run_access.hyps(2) valid_touch by auto
  have cost: "unat ?Cost = unat Cost + (if fst (access C L) then 0 else unat (MissPenalty A))"
    using run_access.prems(6) by (auto simp: unat_word_ariths)
  have res: "fst (access C L) \<Longrightarrow> resident (f i) L"
    using run_access.prems hit cache_set_ok cache_set_gam
    by (simp add: access_present run_access.hyps(1)) blast
  have "unat ?Cost + max_cost (MissPenalty A) Es < 2 ^ 32"
    using run_access.prems(6) unfolding cost by auto
  from run_access.IH [OF wf_access [OF wf run_access.prems(2)] run_access.prems(2,3) g v this]
  have "unat ?Cost + n \<le> unat (fst (process_events A MI Es ?Cost ?C)) \<and>
      cache_gam gam (fst (snd (process_events A MI Es ?Cost ?C))) g \<and> (\<forall>i. valid (g i))" .
  then show ?case
    unfolding cost using res run_access.prems(3) by (auto simp: case_prod_beta Let_def)
next
  case (run_barrier k W f' Es n g f)
  have cost: "unat (Cost + W) = unat Cost + unat W"
    using run_barrier.prems(6) by (auto simp: unat_word_ariths)
  have "unat (Cost + W) + max_cost (MissPenalty A) Es < 2 ^ 32"
    using run_barrier.prems(6) unfolding cost by simp
  from run_barrier.IH [OF wf_barrier [OF run_barrier.prems(1)] run_barrier.prems(2,3)
      cache_gam_barrier [OF run_barrier.prems(1) run_barrier.hyps(2)] run_barrier.hyps(2) this]
  show ?case
    using run_barrier.hyps(1) run_barrier.prems(3) cost by simp
qed

lemma gam_initial: "\<forall>i. valid (f i) \<Longrightarrow> cache_gam gam (newCacheState Geo pol kind) f"
  by (auto simp: cache_gam_def newCacheState_def gam_top)

end

text \<open>May: as long as no barrier intervenes, a line the sink reports is one the run misses.\<close>

inductive run_misses ::
  "CacheGeometry \<Rightarrow> ('c \<Rightarrow> u64 \<Rightarrow> bool) \<Rightarrow> ('c \<Rightarrow> u64 \<Rightarrow> 'c \<Rightarrow> bool)
   \<Rightarrow> (nat \<Rightarrow> 'c) \<Rightarrow> u64 list \<Rightarrow> bool list \<Rightarrow> (nat \<Rightarrow> 'c) \<Rightarrow> bool"
  for Geo resident touch where
  "run_misses Geo resident touch f [] [] f"
| "i = unat (setIndex Geo L) \<Longrightarrow> touch (f i) L c \<Longrightarrow>
   run_misses Geo resident touch (f(i := c)) Ls ms g \<Longrightarrow>
   run_misses Geo resident touch f (L # Ls) ((\<not> resident (f i) L) # ms) g"

context may_domain
begin

lemma process_may:
  assumes "run_misses Geo resident touch f Ls ms g"
    and "cs_wf ok pol kind Geo C" "isValid Geo" "ca_Kind A = May" "Sink A"
    and "cache_gam gam C f" "\<forall>i. valid (f i)"
  shows "fst (process_events A MI (map Access Ls) Cost C) = Cost \<and>
    (\<exists>bs. length bs = length Ls \<and> list_all2 (\<longrightarrow>) bs ms \<and>
       snd (snd (process_events A MI (map Access Ls) Cost C)) =
         map (\<lambda>p. (MI, snd p)) (filter fst (zip bs Ls)))"
  using assms
proof (induction arbitrary: C rule: run_misses.induct)
  case (1 f)
  then show ?case by simp
next
  case (2 i L f c Ls ms g)
  let ?C = "snd (access C L)"
  have "valid c" using 2 valid_touch by blast
  then have v: "\<forall>j. valid ((f(i := c)) j)" using 2 by simp
  have g: "cache_gam gam ?C (f(i := c))" using 2 by (intro cache_gam_access)
  from "2.IH" [OF wf_access [OF "2.prems"(1,2)] "2.prems"(2-4) g v]
  obtain bs where IH: "fst (process_events A MI (map Access Ls) Cost ?C) = Cost"
    "length bs = length Ls" "list_all2 (\<longrightarrow>) bs ms"
    "snd (snd (process_events A MI (map Access Ls) Cost ?C)) =
      map (\<lambda>p. (MI, snd p)) (filter fst (zip bs Ls))" by blast
  have "\<not> fst (access C L) \<Longrightarrow> \<not> resident (f i) L"
    using "2.prems" miss cache_set_ok cache_set_gam
    by (simp add: access_present "2.hyps"(1)) blast
  with IH "2.prems"(3,4) show ?case
    by (intro conjI exI [of _ "(\<not> fst (access C L)) # bs"]) (simp_all add: case_prod_beta Let_def)
qed

end

end
