(* ===== verification/Machine.thy ===== *)
theory Machine
  imports Prelude
begin

text \<open>
  What the analyses read of LLVM's machine code. LLVM is not part of the repository: its
  objects are records of the observations the code makes of them (flags of an instruction,
  its operands, the successors of a block), never definitions of how LLVM computes them.
  The opcodes are the enumerators of the MSP430 back end the sources name:
  \<open>F1 fADD W16 md_rr\<close> is \<open>MSP430::ADD16rr\<close>, \<open>F2 fRRA W8 md2_n\<close> is \<open>MSP430::RRA8n\<close>.
\<close>

subsection \<open>Opcodes\<close>

datatype Width = W16 | W8

datatype FormatI =
  fADD | fADDC | fAND | fBIC | fBIS | fBIT | fCMP | fDADD | fSUB | fSUBC | fXOR | fMOV

text \<open>Destination first, source second: \<open>r\<close> register, \<open>m\<close> indexed or absolute memory, \<open>n\<close>
  indirect, \<open>p\<close> indirect with increment, \<open>i\<close> immediate, \<open>c\<close> constant generator.\<close>

datatype Mode =
  md_mc | md_mi | md_mm | md_mn | md_mp | md_mr | md_rc | md_ri | md_rm | md_rn | md_rp | md_rr

datatype FormatII = fRRA | fRRC | fSWPB | fSEXT

datatype Mode2 = md2_m | md2_n | md2_p | md2_r

datatype CallMode = call_i | call_m | call_n | call_p | call_r

datatype PseudoOp =
  Rrcl16 | Rrcl8 | Select16 | Select8 | Shl16 | Shl8 | Sra16 | Sra8 | Srl16 | Srl8

datatype Opcode =
  F1 FormatI Width Mode | F2 FormatII Width Mode2 | ZEXT16r | CALL CallMode
| POP16r | PUSH16c | PUSH16i | PUSH16r | PUSH8r | MOVZX16rm8 | MOVZX16rr8
| Bi | Bm | Br | JCC | JMP | RET | RETI | PseudoInst PseudoOp
| CFI_INSTRUCTION | DBG_VALUE | DBG_LABEL | DBG_INSTR_REF | DBG_PHI | DBG_VALUE_LIST
| INLINEASM | OtherOpcode nat

subsection \<open>Operands, instructions, blocks and functions\<close>

type_synonym Reg = string

datatype GlobalValue = GV_Function ptr | GV_Variable string

datatype MachineOperand =
  MO_Register Reg bool \<comment> \<open>register, implicit\<close>
| MO_Immediate int
| MO_RegisterMask
| MO_GlobalAddress GlobalValue
| MO_ExternalSymbol string
| MO_Other

fun MO_isReg :: "MachineOperand \<Rightarrow> bool" where
  "MO_isReg (MO_Register r i) = True"
| "MO_isReg _ = False"

fun MO_getReg :: "MachineOperand \<Rightarrow> Reg option" where
  "MO_getReg (MO_Register r i) = Some r"
| "MO_getReg _ = None"

text \<open>A memory operand: the pseudo value it carries, or the IR object its address is based on
  after \<open>getUnderlyingObject\<close>.\<close>

datatype PseudoSource = PSV_Stack | PSV_FixedStack | PSV_OtherKind

datatype UnderlyingObject = UO_Alloca | UO_Global string | UO_Unknown

record MachineMemOperand =
  mmo_PseudoValue :: "PseudoSource option"
  mmo_Value :: "UnderlyingObject option"

record MachineInstr =
  mi_id :: ptr
  mi_opcode :: Opcode
  mi_operands :: "MachineOperand list"
  mi_memoperands :: "MachineMemOperand list"
  mi_isCall :: bool
  mi_mayLoad :: bool
  mi_mayStore :: bool
  mi_isPseudo :: bool
  mi_isDebug :: bool
  mi_isCFI :: bool
  mi_isMeta :: bool
  mi_debugLoc :: "(string \<times> u32) option"

record MachineBasicBlock =
  mbb_id :: ptr
  mbb_name :: string
  mbb_instrs :: "MachineInstr list"
  mbb_succs :: "ptr list"
  mbb_preds :: "ptr list"
  mbb_isReturnBlock :: bool
  mbb_fallThrough :: "ptr option"

record MachineFunction =
  mf_function :: ptr
  mf_name :: string
  mf_blocks :: "MachineBasicBlock list"

definition mf_block :: "MachineFunction \<Rightarrow> ptr \<Rightarrow> MachineBasicBlock option" where
  "mf_block MF b = find (\<lambda>B. mbb_id B = b) (mf_blocks MF)"

text \<open>A natural loop of \<open>MachineLoopInfo\<close>: its header and its blocks; the loop information of a
  function gives the innermost loop of a block.\<close>

record MachineLoop =
  ml_header :: ptr
  ml_blocks :: "ptr list"

type_synonym MachineLoopInfo = "ptr \<Rightarrow> MachineLoop option"

definition mf_wf :: "MachineFunction \<Rightarrow> bool" where
  "mf_wf MF \<longleftrightarrow>
     distinct (map mbb_id (mf_blocks MF)) \<and>
     (\<forall>B \<in> set (mf_blocks MF). set (mbb_succs B) \<subseteq> mbb_id ` set (mf_blocks MF))"

lemma find_key:
  "distinct (map f xs) \<Longrightarrow> x \<in> set xs \<Longrightarrow> find (\<lambda>y. f y = f x) xs = Some x"
  by (induction xs) (auto simp: rev_image_eqI)

lemma mf_block_id:
  "distinct (map mbb_id (mf_blocks MF)) \<Longrightarrow> B \<in> set (mf_blocks MF) \<Longrightarrow>
   mf_block MF (mbb_id B) = Some B"
  unfolding mf_block_def by (rule find_key)

lemma mf_block_Some: "mf_block MF b = Some B \<Longrightarrow> B \<in> set (mf_blocks MF) \<and> mbb_id B = b"
  by (auto simp: mf_block_def find_Some_iff)

end
