(* ===== verification/MSP430Target.thy ===== *)
theory MSP430Target
  imports Machine
begin

text \<open>
  \<open>lib/Targets/MSP430/MSP430Target.cpp\<close>: the instruction latencies of the MSP430 family
  (one definition per group of cases of the switch), the instruction check, the recognition
  of the shift loops the back end emits, and the reading of branch targets.
\<close>

subsection \<open>The latency table\<close>

fun lat_formatIII :: "Opcode \<Rightarrow> u32 option" where
  "lat_formatIII RET = Some 4"
| "lat_formatIII RETI = Some 5"
| "lat_formatIII JCC = Some 2"
| "lat_formatIII JMP = Some 2"
| "lat_formatIII _ = None"

text \<open>\<open>SWPB\<close> and \<open>SEXT\<close> exist in the 16-bit form only; the pairs that are no enumerator are
  given no latency.\<close>

fun lat_formatII :: "FormatII \<Rightarrow> Width \<Rightarrow> Mode2 \<Rightarrow> u32 option" where
  "lat_formatII Op W M =
     (if Op \<in> {fSWPB, fSEXT} \<and> W = W8 then None
      else case M of md2_m \<Rightarrow> Some 4 | md2_n \<Rightarrow> Some 3 | md2_p \<Rightarrow> Some 3 | md2_r \<Rightarrow> Some 1)"

fun lat_callPushPop :: "Opcode \<Rightarrow> u32 option" where
  "lat_callPushPop ZEXT16r = Some 1"
| "lat_callPushPop (CALL M) = (if M = call_m then Some 5 else Some 4)"
| "lat_callPushPop POP16r = Some 3"
| "lat_callPushPop PUSH16c = Some 3"
| "lat_callPushPop PUSH16i = Some 3"
| "lat_callPushPop PUSH16r = Some 3"
| "lat_callPushPop PUSH8r = Some 3"
| "lat_callPushPop _ = None"

text \<open>Format I, one definition per addressing mode. \<open>MOV\<close>, \<open>BIT\<close> and \<open>CMP\<close> take a cycle less
  when the destination is in memory. The table has no case for \<open>SUB16mi\<close> and \<open>SUB8mi\<close>; \<open>MOV\<close>
  has no \<open>mp\<close> form.\<close>

definition lat_mc_mi :: "FormatI \<Rightarrow> Mode \<Rightarrow> u32 option" where
  "lat_mc_mi Op M =
     (if Op \<in> {fCMP, fBIT, fMOV} then Some 4
      else if Op = fSUB \<and> M = md_mi then None
      else Some 5)"

definition lat_mm :: "FormatI \<Rightarrow> u32 option" where
  "lat_mm Op = (if Op \<in> {fBIT, fCMP, fMOV} then Some 5 else Some 6)"

definition lat_mn :: "FormatI \<Rightarrow> u32 option" where
  "lat_mn Op = (if Op \<in> {fBIT, fCMP, fMOV} then Some 4 else Some 5)"

definition lat_mp :: "FormatI \<Rightarrow> u32 option" where
  "lat_mp Op = (if Op \<in> {fBIT, fCMP} then Some 4 else if Op = fMOV then None else Some 5)"

definition lat_mr :: "FormatI \<Rightarrow> u32 option" where
  "lat_mr Op = (if Op \<in> {fMOV, fBIT, fCMP} then Some 3 else Some 4)"

definition lat_rc_ri :: "bool \<Rightarrow> u32 option" where
  "lat_rc_ri HasPCOperand = Some (if HasPCOperand then 3 else 2)"

definition lat_rm :: "u32 option" where
  "lat_rm = Some 3"

definition lat_rn :: "u32 option" where
  "lat_rn = Some 2"

definition lat_rp :: "bool \<Rightarrow> u32 option" where
  "lat_rp HasPCOperand = Some (if HasPCOperand then 3 else 2)"

definition lat_rr :: "bool \<Rightarrow> u32 option" where
  "lat_rr HasPCOperand = Some (if HasPCOperand then 2 else 1)"

definition lat_formatI :: "FormatI \<Rightarrow> Mode \<Rightarrow> bool \<Rightarrow> u32 option" where
  "lat_formatI Op M HasPCOperand =
     (case M of
        md_mc \<Rightarrow> lat_mc_mi Op M | md_mi \<Rightarrow> lat_mc_mi Op M | md_mm \<Rightarrow> lat_mm Op
      | md_mn \<Rightarrow> lat_mn Op | md_mp \<Rightarrow> lat_mp Op | md_mr \<Rightarrow> lat_mr Op
      | md_rc \<Rightarrow> lat_rc_ri HasPCOperand | md_ri \<Rightarrow> lat_rc_ri HasPCOperand
      | md_rm \<Rightarrow> lat_rm | md_rn \<Rightarrow> lat_rn
      | md_rp \<Rightarrow> lat_rp HasPCOperand | md_rr \<Rightarrow> lat_rr HasPCOperand)"

fun lat_special :: "Opcode \<Rightarrow> bool \<Rightarrow> u32 option" where
  "lat_special Bi HasPCOperand = lat_rc_ri HasPCOperand"
| "lat_special MOVZX16rm8 HasPCOperand = lat_rm"
| "lat_special Bm HasPCOperand = lat_rm"
| "lat_special MOVZX16rr8 HasPCOperand = lat_rr HasPCOperand"
| "lat_special Br HasPCOperand = lat_rr HasPCOperand"
| "lat_special CFI_INSTRUCTION _ = Some 0"
| "lat_special DBG_VALUE _ = Some 0"
| "lat_special DBG_LABEL _ = Some 0"
| "lat_special DBG_INSTR_REF _ = Some 0"
| "lat_special DBG_PHI _ = Some 0"
| "lat_special DBG_VALUE_LIST _ = Some 0"
| "lat_special INLINEASM _ = Some 1"
| "lat_special _ _ = None"

definition msp430LatencyForOpcode :: "Opcode \<Rightarrow> bool \<Rightarrow> u32 option" where
  "msp430LatencyForOpcode Opc HasPCOperand =
     (case Opc of
        F1 Op W M \<Rightarrow> lat_formatI Op M HasPCOperand
      | F2 Op W M \<Rightarrow> lat_formatII Op W M
      | _ \<Rightarrow>
          (case lat_formatIII Opc of
             Some L \<Rightarrow> Some L
           | None \<Rightarrow>
               (case lat_callPushPop Opc of
                  Some L \<Rightarrow> Some L
                | None \<Rightarrow> lat_special Opc HasPCOperand)))"

definition anyOperandIsPC :: "MachineOperand list \<Rightarrow> bool" where
  "anyOperandIsPC Ops \<longleftrightarrow> list_ex (\<lambda>MO. MO_isReg MO \<and> MO_getReg MO = Some ''PC'') Ops"

text \<open>An instruction without a latency trips the assertion.\<close>

definition getMSP430Latency :: "MachineInstr \<Rightarrow> u32 option" where
  "getMSP430Latency I = msp430LatencyForOpcode (mi_opcode I) (anyOperandIsPC (mi_operands I))"

text \<open>An instruction of the disassembled ELF: its opcode and operands; no latency is no error.\<close>

definition getMSP430Latency_MC :: "Opcode \<times> MachineOperand list \<Rightarrow> u32 option" where
  "getMSP430Latency_MC I = msp430LatencyForOpcode (fst I) (anyOperandIsPC (snd I))"

definition MSP430_getInstructionLatency :: "MachineInstr \<Rightarrow> u32 option" where
  "MSP430_getInstructionLatency I = getMSP430Latency I"

definition MSP430_getInstructionLatency_MC :: "Opcode \<times> MachineOperand list \<Rightarrow> u32 option" where
  "MSP430_getInstructionLatency_MC I = getMSP430Latency_MC I"

subsection \<open>Validation\<close>

datatype CheckResult = Accepted | FoundPseudo | FoundUnknown

text \<open>The opcodes the check lists, in its three stretches of cases.\<close>

definition check_arith :: "FormatI \<Rightarrow> bool" where
  "check_arith Op \<longleftrightarrow> Op \<in> {fADD, fADDC, fAND, fBIC, fBIS}"

definition check_test :: "FormatI \<Rightarrow> bool" where
  "check_test Op \<longleftrightarrow> Op \<in> {fBIT, fCMP, fDADD}"

definition check_sub_xor :: "FormatI \<Rightarrow> bool" where
  "check_sub_xor Op \<longleftrightarrow> Op \<in> {fSUB, fSUBC, fXOR}"

definition check_formatII :: "FormatII \<Rightarrow> Width \<Rightarrow> bool" where
  "check_formatII Op W \<longleftrightarrow> Op \<in> {fRRA, fRRC} \<or> W = W16"

definition check_mov :: "Mode \<Rightarrow> bool" where
  "check_mov M \<longleftrightarrow> M \<noteq> md_mp"

definition checkInstruction :: "Opcode \<Rightarrow> CheckResult" where
  "checkInstruction Opc =
     (case Opc of
        F1 Op W M \<Rightarrow>
          if check_arith Op \<or> check_test Op \<or> check_sub_xor Op \<or> check_mov M
          then Accepted else FoundUnknown
      | F2 Op W M \<Rightarrow> if check_formatII Op W then Accepted else FoundUnknown
      | PseudoInst P \<Rightarrow> FoundPseudo
      | OtherOpcode n \<Rightarrow> FoundUnknown
      | _ \<Rightarrow> Accepted)"

subsection \<open>Shift loops\<close>

definition isRegSelfAddShift :: "MachineInstr \<Rightarrow> bool" where
  "isRegSelfAddShift MI \<longleftrightarrow>
     length (mi_operands MI) \<ge> 3 \<and>
     MO_isReg (mi_operands MI ! 1) \<and> MO_isReg (mi_operands MI ! 2) \<and>
     MO_getReg (mi_operands MI ! 1) = MO_getReg (mi_operands MI ! 2)"

datatype ShiftStep = Adds u32 | Decrements | Neutral | Rejects

text \<open>What one instruction of the block contributes.\<close>

definition shiftStep :: "MachineInstr \<Rightarrow> ShiftStep" where
  "shiftStep MI =
     (let Opc = mi_opcode MI in
      if Opc \<in> {F2 fRRA W16 md2_r, F2 fRRC W16 md2_r} then Adds 16
      else if Opc \<in> {F2 fRRA W8 md2_r, F2 fRRC W8 md2_r} then Adds 8
      else if Opc \<in> {F1 fADD W16 md_rr, F1 fADDC W16 md_rr} then
        (if \<not> isRegSelfAddShift MI then Rejects else Adds 16)
      else if Opc \<in> {F1 fADD W8 md_rr, F1 fADDC W8 md_rr} then
        (if \<not> isRegSelfAddShift MI then Rejects else Adds 8)
      else if Opc \<in> {F1 fSUB W16 md_ri, F1 fSUB W8 md_ri, F1 fSUBC W16 md_ri, F1 fSUBC W8 md_ri}
        then Decrements
      else if Opc \<in> {F1 fBIC W16 md_rc, F1 fBIC W8 md_rc, JCC, JMP, Bi,
                     F1 fCMP W16 md_ri, F1 fCMP W8 md_ri} then Neutral
      else if Opc \<in> {CFI_INSTRUCTION, DBG_VALUE, DBG_LABEL, DBG_INSTR_REF, DBG_PHI,
                     DBG_VALUE_LIST} then Neutral
      else Rejects)"

fun shiftScan :: "MachineInstr list \<Rightarrow> u32 \<Rightarrow> bool \<Rightarrow> (u32 \<times> bool) option" where
  "shiftScan [] ShiftedWidthBits SawCounterDecrement = Some (ShiftedWidthBits, SawCounterDecrement)"
| "shiftScan (MI # MIs) ShiftedWidthBits SawCounterDecrement =
     (case shiftStep MI of
        Adds w \<Rightarrow> shiftScan MIs (ShiftedWidthBits + w) SawCounterDecrement
      | Decrements \<Rightarrow> shiftScan MIs ShiftedWidthBits True
      | Neutral \<Rightarrow> shiftScan MIs ShiftedWidthBits SawCounterDecrement
      | Rejects \<Rightarrow> None)"

text \<open>The loop by its number of blocks and its header block.\<close>

definition getImplicitLoopBound :: "nat \<Rightarrow> MachineBasicBlock \<Rightarrow> u32 option" where
  "getImplicitLoopBound NumBlocks MBB =
     (if NumBlocks \<noteq> 1 then None
      else if mbb_id MBB \<notin> set (mbb_succs MBB) then None
      else case shiftScan (mbb_instrs MBB) 0 False of
             None \<Rightarrow> None
           | Some (ShiftedWidthBits, SawCounterDecrement) \<Rightarrow>
               if ShiftedWidthBits = 0 \<or> \<not> SawCounterDecrement then None
               else Some ShiftedWidthBits)"

subsection \<open>Branch targets in a disassembly\<close>

definition CF :: "string list" where
  "CF = [''jmp'', ''jeq'', ''jz'', ''jne'', ''jnz'', ''jc'', ''jhs'', ''jnc'', ''jlo'', ''jn'',
         ''jge'', ''jl'', ''call'', ''br'']"

definition isControlFlowMnemonic :: "string \<Rightarrow> bool" where
  "isControlFlowMnemonic Mnemonic \<longleftrightarrow> list_ex (\<lambda>M. Mnemonic = M) CF"

definition consume_front :: "string \<Rightarrow> string \<Rightarrow> string option" where
  "consume_front p s = (if take (length p) s = p then Some (drop (length p) s) else None)"

text \<open>\<open>StringRef::trim\<close> and \<open>StringRef::getAsInteger\<close> with radix 0 are LLVM's: parameters.\<close>

definition resolveBranchTarget ::
  "(string \<Rightarrow> string) \<Rightarrow> (string \<Rightarrow> u64 option) \<Rightarrow> string \<Rightarrow> string \<Rightarrow> u64 option" where
  "resolveBranchTarget trim getAsInteger Mnemonic Comment =
     (if \<not> isControlFlowMnemonic Mnemonic then None
      else case consume_front ''abs'' (trim Comment) of
             Some C \<Rightarrow> getAsInteger (trim C)
           | None \<Rightarrow>
               (case consume_front ''#'' (trim Comment) of
                  Some C \<Rightarrow> getAsInteger (trim C)
                | None \<Rightarrow> None))"

subsection \<open>What the table covers\<close>

lemmas latency_defs = msp430LatencyForOpcode_def lat_formatI_def lat_mc_mi_def lat_mm_def
  lat_mn_def lat_mp_def lat_mr_def lat_rc_ri_def lat_rm_def lat_rn_def lat_rp_def lat_rr_def

lemmas check_defs = checkInstruction_def check_arith_def check_test_def check_sub_xor_def
  check_formatII_def check_mov_def

text \<open>C34: The instruction check accepts exactly the opcodes the latency table covers, except
  \<open>SUB16mi\<close> and \<open>SUB8mi\<close>, which it accepts and the table has no latency for.\<close>

theorem check_vs_latency:
  "checkInstruction Opc = Accepted \<longleftrightarrow>
     (\<exists>L. msp430LatencyForOpcode Opc PC = Some L) \<or> (\<exists>W. Opc = F1 fSUB W md_mi)"
proof (cases Opc)
  case (F1 Op W M)
  then show ?thesis
    by (cases Op; cases M) (simp_all add: latency_defs check_defs)
next
  case (F2 Op W M)
  then show ?thesis
    by (cases Op; cases W; cases M) (simp_all add: latency_defs check_defs)
qed (simp_all add: latency_defs check_defs)

definition emits_no_code :: "Opcode \<Rightarrow> bool" where
  "emits_no_code Opc \<longleftrightarrow>
     Opc \<in> {CFI_INSTRUCTION, DBG_VALUE, DBG_LABEL, DBG_INSTR_REF, DBG_PHI, DBG_VALUE_LIST}"

lemma latency_bounds_aux:
  "case msp430LatencyForOpcode Opc False of
     None \<Rightarrow> msp430LatencyForOpcode Opc True = None
   | Some a \<Rightarrow> a \<le> 6 \<and> (a = 0 \<longleftrightarrow> emits_no_code Opc) \<and>
       (msp430LatencyForOpcode Opc True = Some a \<or>
        msp430LatencyForOpcode Opc True = Some (a + 1) \<and> a + 1 \<le> 6 \<and> a + 1 \<noteq> 0 \<and> a \<noteq> 0)"
proof (cases Opc)
  case (F1 Op W M)
  then show ?thesis
    by (cases Op; cases M) (simp_all add: latency_defs emits_no_code_def word_le_nat_alt)
next
  case (F2 Op W M)
  then show ?thesis
    by (cases Op; cases W; cases M) (simp_all add: latency_defs emits_no_code_def word_le_nat_alt)
qed (simp_all add: latency_defs emits_no_code_def word_le_nat_alt)

text \<open>A latency is at most six cycles, is zero only for instructions that emit no code, and a
  program-counter operand adds at most one cycle.\<close>

lemma latency_bounds:
  assumes "msp430LatencyForOpcode Opc PC = Some L"
  shows "L \<le> 6 \<and> (L = 0 \<longleftrightarrow> emits_no_code Opc) \<and>
    (\<exists>a. msp430LatencyForOpcode Opc False = Some a \<and> (L = a \<or> L = a + 1 \<and> PC))"
  using latency_bounds_aux [of Opc] assms
  by (cases PC) (auto split: option.splits)

subsection \<open>Shift loops\<close>

text \<open>What the block may hold, by opcode and operands: a right shift or rotation of a register, the
  addition of a register to itself, which is the left shift, the decrement by an immediate, and
  instructions that only compare, branch, set up the carry or emit no code.\<close>

definition shift_of :: "Width \<Rightarrow> MachineInstr \<Rightarrow> bool" where
  "shift_of W MI \<longleftrightarrow>
     (\<exists>Op \<in> {fRRA, fRRC}. mi_opcode MI = F2 Op W md2_r) \<or>
     (\<exists>Op \<in> {fADD, fADDC}. mi_opcode MI = F1 Op W md_rr) \<and>
       (\<exists>D r i j Rest. mi_operands MI = D # MO_Register r i # MO_Register r j # Rest)"

definition counter_decrement :: "MachineInstr \<Rightarrow> bool" where
  "counter_decrement MI \<longleftrightarrow> (\<exists>Op \<in> {fSUB, fSUBC}. \<exists>W. mi_opcode MI = F1 Op W md_ri)"

definition shift_neutral :: "MachineInstr \<Rightarrow> bool" where
  "shift_neutral MI \<longleftrightarrow> mi_opcode MI \<in> {JCC, JMP, Bi} \<or> emits_no_code (mi_opcode MI) \<or>
     (\<exists>W. mi_opcode MI = F1 fBIC W md_rc \<or> mi_opcode MI = F1 fCMP W md_ri)"

lemma self_add_iff:
  "isRegSelfAddShift MI \<longleftrightarrow> (\<exists>D r i j Rest. mi_operands MI = D # MO_Register r i # MO_Register r j # Rest)"
proof
  assume s: "isRegSelfAddShift MI"
  then obtain D A B Rest where ops: "mi_operands MI = D # A # B # Rest"
    by (auto simp: isRegSelfAddShift_def numeral_3_eq_3 Suc_le_length_iff)
  then show "\<exists>D r i j Rest. mi_operands MI = D # MO_Register r i # MO_Register r j # Rest"
    using s by (cases A; cases B) (auto simp: isRegSelfAddShift_def)
qed (auto simp: isRegSelfAddShift_def)

lemma shiftStep_spec:
  "shiftStep MI = (if shift_of W16 MI then Adds 16 else if shift_of W8 MI then Adds 8
     else if counter_decrement MI then Decrements else if shift_neutral MI then Neutral else Rejects)"
proof (cases "mi_opcode MI")
  case (F1 Op W M)
  then show ?thesis
    by (cases Op; cases W; cases M)
      (simp_all add: shiftStep_def self_add_iff shift_of_def counter_decrement_def shift_neutral_def emits_no_code_def)
next
  case (F2 Op W M)
  then show ?thesis
    by (cases Op; cases W; cases M)
      (simp_all add: shiftStep_def shift_of_def counter_decrement_def shift_neutral_def emits_no_code_def)
qed (simp_all add: shiftStep_def shift_of_def counter_decrement_def shift_neutral_def emits_no_code_def)

lemma shift_kinds_disjoint:
  "\<not> (shift_of W8 MI \<and> shift_of W16 MI)" "\<not> (shift_of W MI \<and> counter_decrement MI)"
  by (auto simp: shift_of_def counter_decrement_def)

lemma shiftScan_eq:
  "shiftScan MIs w d =
     (if list_all (\<lambda>MI. shift_of W16 MI \<or> shift_of W8 MI \<or> counter_decrement MI \<or> shift_neutral MI) MIs
      then Some (w + word_of_nat (16 * length (filter (shift_of W16) MIs) + 8 * length (filter (shift_of W8) MIs)),
        d \<or> list_ex counter_decrement MIs)
      else None)"
proof (induction MIs arbitrary: w d)
  case (Cons MI MIs)
  have d: "\<not> shift_of W8 MI \<or> \<not> shift_of W16 MI" "\<not> shift_of W16 MI \<or> \<not> counter_decrement MI"
    "\<not> shift_of W8 MI \<or> \<not> counter_decrement MI" using shift_kinds_disjoint by blast+
  show ?case
    using d by (cases "shift_of W16 MI"; cases "shift_of W8 MI"; cases "counter_decrement MI")
      (simp_all add: shiftStep_spec Cons.IH algebra_simps)
qed simp


end
