(* ===== verification/AnalysisFramework.thy ===== *)
theory AnalysisFramework
  imports CacheAnalysis MSP430Target
begin

text \<open>
  \<open>AbstractState.h\<close> and \<open>AbstractAnalysable.h\<close>: the interface between an analysis and the solver,
  as the record of its operations, and the analyses the repository plugs into it: the cache
  analysis, the composite pipeline, and the two stages of the MSP430 pipeline. A state is
  updated in place through a pointer in the code; here an operation returns the new state.
\<close>

record 's Analysable =
  an_getInitialState :: 's
  an_process :: "'s \<Rightarrow> MachineInstr \<Rightarrow> u32 \<times> 's"
  an_clone :: "'s \<Rightarrow> 's"
  an_equals :: "'s \<Rightarrow> 's \<Rightarrow> bool"
  an_join :: "'s \<Rightarrow> 's \<Rightarrow> 's \<times> bool"
  an_toString :: "'s \<Rightarrow> string"

subsection \<open>The cache analysis\<close>

definition cacheAnalysable :: "('s, MachineInstr) CacheAnalysis \<Rightarrow> 's CacheState Analysable" where
  "cacheAnalysable A =
     \<lparr>an_getInitialState = ca_getInitialState A,
      an_process = (\<lambda>S MI. (fst (ca_process A S MI), fst (snd (ca_process A S MI)))),
      an_clone = cs_clone, an_equals = cs_equals, an_join = cs_join, an_toString = cs_toString\<rparr>"

subsection \<open>The instruction cache template and the execution stage\<close>

text \<open>The states the stages of a pipeline can have. A stage casts the state it is handed to its
  own class; a pipeline hands each stage the state it made (\<open>pipeline_shape\<close>), so the cast is
  never wrong and the last equations are never reached.\<close>

datatype StageState = InstructionCacheState u32 | SimpleStageState "32 word"

fun Stage_equals :: "StageState \<Rightarrow> StageState \<Rightarrow> bool" where
  "Stage_equals (InstructionCacheState AccessCount) (InstructionCacheState n) \<longleftrightarrow> AccessCount = n"
| "Stage_equals (SimpleStageState Val) (SimpleStageState n) \<longleftrightarrow> Val = n"
| "Stage_equals _ _ \<longleftrightarrow> False"

fun InstructionCache_join :: "u32 \<Rightarrow> u32 \<Rightarrow> StageState \<times> bool" where
  "InstructionCache_join AccessCount Oth =
     (if Oth > AccessCount then (InstructionCacheState Oth, True)
      else (InstructionCacheState AccessCount, False))"

text \<open>The value of a stage is a signed integer.\<close>

fun SimpleStage_join :: "32 word \<Rightarrow> 32 word \<Rightarrow> StageState \<times> bool" where
  "SimpleStage_join Val OtherVal =
     (if sint OtherVal > sint Val then (SimpleStageState OtherVal, True)
      else (SimpleStageState Val, False))"

fun Stage_join :: "StageState \<Rightarrow> StageState \<Rightarrow> StageState \<times> bool" where
  "Stage_join (InstructionCacheState a) (InstructionCacheState b) = InstructionCache_join a b"
| "Stage_join (SimpleStageState a) (SimpleStageState b) = SimpleStage_join a b"
| "Stage_join S _ = (S, False)"

definition Stage_clone :: "StageState \<Rightarrow> StageState" where
  "Stage_clone S = (case S of InstructionCacheState n \<Rightarrow> InstructionCacheState n
                            | SimpleStageState v \<Rightarrow> SimpleStageState v)"

text \<open>\<open>std::to_string\<close> of a signed integer.\<close>

definition int_string :: "32 word \<Rightarrow> string" where
  "int_string v = (if sint v < 0 then ''-'' @ dec_string (nat (- sint v)) else dec_string (nat (sint v)))"

fun Stage_toString :: "StageState \<Rightarrow> string" where
  "Stage_toString (InstructionCacheState n) = ''ICache(accesses='' @ dec_string (unat n) @ '')''"
| "Stage_toString (SimpleStageState v) = int_string v"

fun InstructionCache_process :: "u32 \<Rightarrow> StageState \<Rightarrow> MachineInstr \<Rightarrow> u32 \<times> StageState" where
  "InstructionCache_process CacheMissPenalty (InstructionCacheState AccessCount) MI =
     (0 * CacheMissPenalty, InstructionCacheState (AccessCount + 1))"
| "InstructionCache_process CacheMissPenalty S MI = (0, S)"

text \<open>An instruction without a latency fails the assertion of \<open>getMSP430Latency\<close>: the stage has no
  cost for it (\<open>the None\<close>, of which nothing is known), and what is shown of the stage assumes a
  latency.\<close>

fun SimpleStage_process :: "StageState \<Rightarrow> MachineInstr \<Rightarrow> u32 \<times> StageState" where
  "SimpleStage_process (SimpleStageState Val) MI =
     (let Latency = the (getMSP430Latency MI)
      in (Latency, SimpleStageState (Val + Latency)))"
| "SimpleStage_process S MI = (0, S)"

definition InstructionCacheAnalysis :: "u32 \<Rightarrow> StageState Analysable" where
  "InstructionCacheAnalysis Penalty =
     \<lparr>an_getInitialState = InstructionCacheState 0,
      an_process = InstructionCache_process Penalty,
      an_clone = Stage_clone, an_equals = Stage_equals, an_join = Stage_join,
      an_toString = Stage_toString\<rparr>"

definition SimpleStage :: "StageState Analysable" where
  "SimpleStage =
     \<lparr>an_getInitialState = SimpleStageState 0, an_process = SimpleStage_process,
      an_clone = Stage_clone, an_equals = Stage_equals, an_join = Stage_join,
      an_toString = Stage_toString\<rparr>"

subsection \<open>The composite pipeline\<close>

text \<open>A pipeline state holds the states of its stages in order, each with the operations of its
  class; the lists have the same length (\<open>pipeline_shape\<close>), so every index is in range.\<close>

definition addAnalysis :: "'s Analysable \<Rightarrow> 's Analysable list \<Rightarrow> 's Analysable list" where
  "addAnalysis Analysis Analyses = Analyses @ [Analysis]"

definition Pipeline_getInitialState :: "'s Analysable list \<Rightarrow> 's list" where
  "Pipeline_getInitialState Analyses = map an_getInitialState Analyses"

fun Pipeline_process ::
  "'s Analysable list \<Rightarrow> 's list \<Rightarrow> MachineInstr \<Rightarrow> u32 \<Rightarrow> u32 \<times> 's list" where
  "Pipeline_process (A # As) (S # Ss) MI TotalCost =
     (let (c, S') = an_process A S MI;
          (t, Ss') = Pipeline_process As Ss MI (TotalCost + c)
      in (t, S' # Ss'))"
| "Pipeline_process As Ss MI TotalCost = (TotalCost, Ss)"

fun Pipeline_clone :: "'s Analysable list \<Rightarrow> 's list \<Rightarrow> 's list" where
  "Pipeline_clone (A # As) (S # Ss) = an_clone A S # Pipeline_clone As Ss"
| "Pipeline_clone As Ss = Ss"

fun Pipeline_equals_loop :: "'s Analysable list \<Rightarrow> 's list \<Rightarrow> 's list \<Rightarrow> bool" where
  "Pipeline_equals_loop (A # As) (S # Ss) (T # Ts) \<longleftrightarrow>
     (if \<not> an_equals A S T then False else Pipeline_equals_loop As Ss Ts)"
| "Pipeline_equals_loop As Ss Ts \<longleftrightarrow> True"

definition Pipeline_equals :: "'s Analysable list \<Rightarrow> 's list \<Rightarrow> 's list \<Rightarrow> bool" where
  "Pipeline_equals As Ss Ts \<longleftrightarrow>
     (if length Ss \<noteq> length Ts then False else Pipeline_equals_loop As Ss Ts)"

fun Pipeline_join :: "'s Analysable list \<Rightarrow> 's list \<Rightarrow> 's list \<Rightarrow> 's list \<times> bool" where
  "Pipeline_join (A # As) (S # Ss) (T # Ts) =
     (let (S', c) = an_join A S T; (Ss', cs) = Pipeline_join As Ss Ts in (S' # Ss', c \<or> cs))"
| "Pipeline_join As Ss Ts = (Ss, False)"

fun Pipeline_toString_loop :: "'s Analysable list \<Rightarrow> 's list \<Rightarrow> string" where
  "Pipeline_toString_loop (A # As) (S # Ss) =
     an_toString A S @ (if Ss \<noteq> [] then '', '' else '''') @ Pipeline_toString_loop As Ss"
| "Pipeline_toString_loop As Ss = ''''"

definition Pipeline_toString :: "'s Analysable list \<Rightarrow> 's list \<Rightarrow> string" where
  "Pipeline_toString As Ss = ''Pipeline('' @ Pipeline_toString_loop As Ss @ '')''"

definition PipelineAnalysis :: "'s Analysable list \<Rightarrow> 's list Analysable" where
  "PipelineAnalysis Analyses =
     \<lparr>an_getInitialState = Pipeline_getInitialState Analyses,
      an_process = (\<lambda>S MI. Pipeline_process Analyses S MI 0),
      an_clone = Pipeline_clone Analyses, an_equals = Pipeline_equals Analyses,
      an_join = Pipeline_join Analyses, an_toString = Pipeline_toString Analyses\<rparr>"

definition MSP430Pipeline :: "StageState list Analysable" where
  "MSP430Pipeline =
     PipelineAnalysis (addAnalysis (InstructionCacheAnalysis 0) (addAnalysis SimpleStage []))"

subsection \<open>What the pipeline charges\<close>

lemmas pipeline_defs = MSP430Pipeline_def PipelineAnalysis_def addAnalysis_def SimpleStage_def
  InstructionCacheAnalysis_def Pipeline_getInitialState_def Pipeline_equals_def

text \<open>A run over a list of instructions: the cost charged for each, and the state after the last.\<close>

fun run_instrs :: "'s Analysable \<Rightarrow> MachineInstr list \<Rightarrow> 's \<Rightarrow> u32 list \<times> 's" where
  "run_instrs A [] S = ([], S)"
| "run_instrs A (MI # MIs) S =
     (let (c, S') = an_process A S MI; (cs, S'') = run_instrs A MIs S' in (c # cs, S''))"

lemma msp430_initial: "an_getInitialState MSP430Pipeline = [SimpleStageState 0, InstructionCacheState 0]"
  by (simp add: pipeline_defs)

lemma msp430_process:
  "an_process MSP430Pipeline [SimpleStageState v, InstructionCacheState n] MI =
     (let L = the (getMSP430Latency MI)
      in (L, [SimpleStageState (v + L), InstructionCacheState (n + 1)]))"
  by (simp add: pipeline_defs Let_def)

lemma msp430_run:
  "map getMSP430Latency MIs = map Some Ls \<Longrightarrow>
   run_instrs MSP430Pipeline MIs [SimpleStageState v, InstructionCacheState n] =
     (Ls, [SimpleStageState (v + sum_list Ls), InstructionCacheState (n + word_of_nat (length MIs))])"
proof (induction MIs arbitrary: Ls v n)
  case (Cons MI MIs)
  then obtain L Ls' where "Ls = L # Ls'" "getMSP430Latency MI = Some L" "map getMSP430Latency MIs = map Some Ls'"
    by (cases Ls) auto
  then show ?case using Cons.IH by (simp add: msp430_process add.assoc)
qed simp

lemma msp430_join:
  "an_join MSP430Pipeline [SimpleStageState v, InstructionCacheState n] [SimpleStageState w, InstructionCacheState m] =
     ([SimpleStageState (word_of_int (max (sint v) (sint w))), InstructionCacheState (max n m)],
      sint v < sint w \<or> n < m)"
  by (auto simp: pipeline_defs max_def)

text \<open>C36: The MSP430 pipeline charges each instruction of a run its latency from the table and adds the
  latencies up in the state of its execution stage; the cache stage counts the instructions and
  charges nothing. A join is the larger value of each stage (the first compared as signed numbers) and
  reports a change exactly when one of them grew; states are equal exactly when every stage is.\<close>

theorem msp430_pipeline_cost:
  assumes "map getMSP430Latency MIs = map Some Ls"
  shows "run_instrs MSP430Pipeline MIs (an_getInitialState MSP430Pipeline) =
      (Ls, [SimpleStageState (sum_list Ls), InstructionCacheState (word_of_nat (length MIs))]) \<and>
    (\<forall>v n w m. let S = [SimpleStageState v, InstructionCacheState n]; T = [SimpleStageState w, InstructionCacheState m]
      in an_join MSP430Pipeline S T =
           ([SimpleStageState (word_of_int (max (sint v) (sint w))), InstructionCacheState (max n m)],
            sint v < sint w \<or> n < m) \<and>
         (an_equals MSP430Pipeline S T \<longleftrightarrow> v = w \<and> n = m) \<and> an_clone MSP430Pipeline S = S)"
  by (simp add: msp430_initial msp430_run [OF assms] msp430_join)
    (simp add: pipeline_defs Stage_clone_def)

definition demo_jump :: MachineInstr where
  "demo_jump = \<lparr>mi_id = 1, mi_opcode = JMP, mi_operands = [], mi_memoperands = [],
     mi_isCall = False, mi_mayLoad = False, mi_mayStore = False, mi_isPseudo = False,
     mi_isDebug = False, mi_isCFI = False, mi_isMeta = False, mi_debugLoc = None\<rparr>"

definition demo_load :: MachineInstr where
  "demo_load = demo_jump\<lparr>mi_opcode := F1 fMOV W16 md_rm, mi_mayLoad := True\<rparr>"

theorem msp430_pipeline_cost_witness:
  "run_instrs MSP430Pipeline [demo_jump, demo_load] (an_getInitialState MSP430Pipeline) =
     ([2, 3], [SimpleStageState 5, InstructionCacheState 2])"
proof -
  have "map getMSP430Latency [demo_jump, demo_load] = map Some [2, 3]"
    by (simp add: getMSP430Latency_def latency_defs demo_jump_def demo_load_def)
  from conjunct1 [OF msp430_pipeline_cost [OF this]] show ?thesis by simp
qed

subsection \<open>The template never settles on a loop\<close>

lemma run_template:
  "snd (run_instrs (InstructionCacheAnalysis p) MIs (InstructionCacheState n)) =
   InstructionCacheState (n + of_nat (length MIs))"
proof (induction MIs arbitrary: n)
  case (Cons MI MIs)
  then show ?case
    by (simp add: InstructionCacheAnalysis_def split_beta algebra_simps)
qed simp

lemma template_count:
  fixes e x :: u32
  assumes "0 < n" "unat e + n < 2 ^ 32"
  shows "(if x > e then x else e) + of_nat n \<noteq> x"
proof
  assume eq: "(if x > e then x else e) + of_nat n = x"
  show False
  proof (cases "x > e")
    case True
    then have "(of_nat n :: u32) = 0" using eq by simp
    then have "unat (of_nat n :: u32) = 0" by simp
    then have "n mod 2 ^ 32 = 0" by (simp add: unat_of_nat)
    then show False using assms by simp
  next
    case False
    then have "x = e + of_nat n" using eq by simp
    then have "unat x = (unat e + n mod 2 ^ 32) mod 2 ^ 32"
      by (simp add: unat_word_ariths unat_of_nat)
    then have "unat x = unat e + n" using assms(2) by simp
    then show False using False assms(1) by (simp add: word_less_nat_alt)
  qed
qed

text \<open>The instruction-cache template, kept as the pattern for new analyses, has no fixpoint on a
  loop: a block that follows itself and an entry in state \<open>e\<close> never reproduces the state it
  was joined with, whatever that state is, so a solver running it would revisit the block for
  ever.\<close>

lemma template_no_fixpoint:
  assumes "MIs \<noteq> []" "unat e + length MIs < 2 ^ 32"
  shows "snd (run_instrs (InstructionCacheAnalysis p) MIs
      (fst (an_join (InstructionCacheAnalysis p) (InstructionCacheState e) (InstructionCacheState x))))
      \<noteq> InstructionCacheState x"
proof -
  have "fst (an_join (InstructionCacheAnalysis p) (InstructionCacheState e) (InstructionCacheState x)) =
      InstructionCacheState (if x > e then x else e)"
    by (simp add: InstructionCacheAnalysis_def)
  moreover have "0 < length MIs" using assms(1) by simp
  from template_count [OF this assms(2), of x]
  have "(if x > e then x else e) + of_nat (length MIs) \<noteq> x" .
  ultimately show ?thesis by (simp only: run_template StageState.inject) simp
qed

end
