(* ===== verification/AbstractStateGraph.thy ===== *)
theory AbstractStateGraph
  imports Machine
begin

text \<open>
  \<open>AbstractStateGraph.h/.cpp\<close>: the graph the solver runs on. A node carries an abstract state
  and the block it stands for (if any); the edges are kept twice, as successors with their
  back-edge mark and as predecessors. \<open>std::set<Edge>\<close> compares the target only, so the first
  edge to a target decides its mark. Node ids are naturals: the counter of this class is
  bounded by the blocks of a function or the nodes of the program graph, whose own counter is
  checked against the word size.
\<close>

record 's ASGNode =
  asg_Id :: nat
  asg_State :: 's
  asg_MBB :: "MachineBasicBlock option"
  IsEntry :: bool
  IsExit :: bool
  IsLoopHeader :: bool
  asg_UpperLoopBound :: u32
  Cost :: u32

definition newASGNode :: "nat \<Rightarrow> 's \<Rightarrow> MachineBasicBlock option \<Rightarrow> 's ASGNode" where
  "newASGNode NodeId State MBB =
     \<lparr>asg_Id = NodeId, asg_State = State, asg_MBB = MBB, IsEntry = False, IsExit = False,
      IsLoopHeader = False, asg_UpperLoopBound = 0, Cost = 0\<rparr>"

text \<open>An edge set as a map from the target to the back-edge mark.\<close>

type_synonym EdgeSet = "(nat \<times> bool) list"

record ASGCallSite =
  CallNodeId :: nat
  ReturnNodeId :: nat
  asg_Callee :: ptr

record 's AbstractStateGraph =
  asg_NextNodeId :: nat
  asg_Nodes :: "(nat \<times> 's ASGNode) list"
  AdjacencyList :: "(nat \<times> EdgeSet) list"
  asg_Predecessors :: "(nat \<times> nat list) list"
  FunctionEntries :: "(ptr \<times> nat) list"
  FunctionReturns :: "(ptr \<times> nat list) list"
  asg_CallSites :: "ASGCallSite list"

definition emptyASG :: "'s AbstractStateGraph" where
  "emptyASG = \<lparr>asg_NextNodeId = 0, asg_Nodes = [], AdjacencyList = [], asg_Predecessors = [],
     FunctionEntries = [], FunctionReturns = [], asg_CallSites = []\<rparr>"

definition asg_addNode ::
  "'s \<Rightarrow> MachineBasicBlock option \<Rightarrow> 's AbstractStateGraph \<Rightarrow> nat \<times> 's AbstractStateGraph" where
  "asg_addNode State MBB G =
     (let NodeId = asg_NextNodeId G
      in (NodeId, G\<lparr>asg_NextNodeId := NodeId + 1,
                asg_Nodes := omap_put NodeId (newASGNode NodeId State MBB) (asg_Nodes G)\<rparr>))"

definition asg_addEdge ::
  "nat \<Rightarrow> nat \<Rightarrow> bool \<Rightarrow> 's AbstractStateGraph \<Rightarrow> 's AbstractStateGraph" where
  "asg_addEdge From To IsBackEdge G =
     G\<lparr>AdjacencyList :=
         omap_put From (omap_insert To IsBackEdge (omap_get [] (AdjacencyList G) From))
           (AdjacencyList G),
       asg_Predecessors :=
         omap_put To (oset_add From (omap_get [] (asg_Predecessors G) To)) (asg_Predecessors G)\<rparr>"

definition asg_removeEdge :: "nat \<Rightarrow> nat \<Rightarrow> 's AbstractStateGraph \<Rightarrow> 's AbstractStateGraph" where
  "asg_removeEdge From To G =
     G\<lparr>AdjacencyList :=
         omap_put From (filter (\<lambda>E. fst E \<noteq> To) (omap_get [] (AdjacencyList G) From))
           (AdjacencyList G),
       asg_Predecessors :=
         omap_put To (removeAll From (omap_get [] (asg_Predecessors G) To)) (asg_Predecessors G)\<rparr>"

definition asg_getNode :: "'s AbstractStateGraph \<Rightarrow> nat \<Rightarrow> 's ASGNode option" where
  "asg_getNode G NodeId = map_of (asg_Nodes G) NodeId"

definition asg_getSuccessors :: "'s AbstractStateGraph \<Rightarrow> nat \<Rightarrow> EdgeSet" where
  "asg_getSuccessors G NodeId = omap_get [] (AdjacencyList G) NodeId"

definition asg_getPredecessors :: "'s AbstractStateGraph \<Rightarrow> nat \<Rightarrow> nat list" where
  "asg_getPredecessors G NodeId = omap_get [] (asg_Predecessors G) NodeId"

text \<open>Writing through the pointer \<open>getNode\<close> returns.\<close>

definition asg_update ::
  "nat \<Rightarrow> ('s ASGNode \<Rightarrow> 's ASGNode) \<Rightarrow> 's AbstractStateGraph \<Rightarrow> 's AbstractStateGraph" where
  "asg_update NodeId f G =
     (case asg_getNode G NodeId of
        Some N \<Rightarrow> G\<lparr>asg_Nodes := omap_put NodeId (f N) (asg_Nodes G)\<rparr>
      | None \<Rightarrow> G)"

subsection \<open>The edges are kept twice\<close>

definition asg_edge :: "'s AbstractStateGraph \<Rightarrow> nat \<Rightarrow> nat \<Rightarrow> bool" where
  "asg_edge G a b \<longleftrightarrow> b \<in> fst ` set (asg_getSuccessors G a)"

definition asg_wf :: "'s AbstractStateGraph \<Rightarrow> bool" where
  "asg_wf G \<longleftrightarrow>
     (\<forall>a b. asg_edge G a b \<longleftrightarrow> a \<in> set (asg_getPredecessors G b)) \<and>
     (\<forall>a. oset_ok (asg_getPredecessors G a)) \<and>
     (\<forall>a. omap_ok (asg_getSuccessors G a)) \<and>
     omap_ok (asg_Nodes G) \<and> (\<forall>i \<in> dom (map_of (asg_Nodes G)). i < asg_NextNodeId G)"

lemmas asg_defs = asg_addNode_def asg_addEdge_def asg_removeEdge_def asg_getNode_def
  asg_getSuccessors_def asg_getPredecessors_def asg_update_def asg_edge_def

lemma asg_wf_empty [simp, wf_intros]: "asg_wf emptyASG"
  by (simp add: asg_wf_def asg_defs emptyASG_def omap_get_def)

lemma asg_getNode_addNode [simp]:
  "asg_getNode (snd (asg_addNode s B G)) i =
     (if i = asg_NextNodeId G then Some (newASGNode i s B) else asg_getNode G i)"
  by (simp add: asg_defs Let_def)

lemma asg_addNode_sel [simp]:
  "asg_getSuccessors (snd (asg_addNode s B G)) = asg_getSuccessors G"
  "asg_getPredecessors (snd (asg_addNode s B G)) = asg_getPredecessors G"
  "asg_edge (snd (asg_addNode s B G)) = asg_edge G"
  "asg_NextNodeId (snd (asg_addNode s B G)) = Suc (asg_NextNodeId G)"
  "fst (asg_addNode s B G) = asg_NextNodeId G"
  by (simp_all add: asg_defs Let_def fun_eq_iff)

lemma asg_wf_addNode [wf_intros]: "asg_wf G \<Longrightarrow> asg_wf (snd (asg_addNode s B G))"
  by (auto simp: asg_wf_def asg_defs Let_def less_Suc_eq)

lemma fst_omap_insert [simp]: "fst ` set (omap_insert k v m) = insert k (fst ` set m)"
  by (auto simp: omap_insert_def dom_omap_put map_of_eq_None_iff)

lemma asg_edge_addEdge:
  "asg_edge (asg_addEdge a b m G) c d \<longleftrightarrow> c = a \<and> d = b \<or> asg_edge G c d"
  by (auto simp: asg_defs)

lemma asg_pred_addEdge:
  "set (asg_getPredecessors (asg_addEdge a b m G) d) =
     (if d = b then insert a else id) (set (asg_getPredecessors G d))"
  by (auto simp: asg_defs)

lemma asg_wf_addEdge [wf_intros]: "asg_wf G \<Longrightarrow> asg_wf (asg_addEdge a b m G)"
  unfolding asg_wf_def asg_edge_addEdge asg_pred_addEdge
  by (auto simp: asg_defs)

lemma fst_drop_key: "fst ` {x \<in> S. fst x \<noteq> b} = fst ` S - {b}"
  by auto

lemma asg_wf_removeEdge [wf_intros]: "asg_wf G \<Longrightarrow> asg_wf (asg_removeEdge a b G)"
  by (auto simp: asg_wf_def asg_defs omap_ok_def sorted_wrt_less_filter_map fst_drop_key split: if_splits)

lemma asg_addEdge_nodes [simp]:
  "asg_Nodes (asg_addEdge a b m G) = asg_Nodes G"
  "asg_getNode (asg_addEdge a b m G) = asg_getNode G"
  "asg_NextNodeId (asg_addEdge a b m G) = asg_NextNodeId G"
  by (simp_all add: asg_defs fun_eq_iff)

lemma asg_update_sel [simp]:
  "asg_getSuccessors (asg_update i f G) = asg_getSuccessors G"
  "asg_getPredecessors (asg_update i f G) = asg_getPredecessors G"
  "asg_edge (asg_update i f G) = asg_edge G"
  "asg_NextNodeId (asg_update i f G) = asg_NextNodeId G"
  "asg_getNode (asg_update i f G) j =
     (if j = i then map_option f (asg_getNode G i) else asg_getNode G j)"
  by (auto simp: asg_defs fun_eq_iff split: option.splits)

lemma asg_wf_update [wf_intros]: "asg_wf G \<Longrightarrow> asg_wf (asg_update i f G)"
  by (auto simp: asg_wf_def asg_defs split: option.splits)

end
