(* ===== verification/ProgramGraph.thy ===== *)
theory ProgramGraph
  imports Machine
begin

text \<open>
  \<open>ProgramGraph.h/.cpp\<close>: the graph of the whole program. A node is a basic block (or the
  synthetic entry and exit) with the cycles it costs; edges are kept in both directions. The
  loop bounds of a node are uninitialised until a header is marked, so they are optional here;
  reading a node that is not there (\<open>at\<close>) and a failed \<open>assert\<close> give \<^term>\<open>None\<close>. Node ids are
  naturals with the overflow of the 32-bit counter written out.
\<close>

subsection \<open>MuArchState and Node\<close>

record MuArchState =
  MinCycles :: u32
  MaxCycles :: u32
  DebugInfo :: string

definition newMuArchState :: "u32 \<Rightarrow> u32 \<Rightarrow> MuArchState" where
  "newMuArchState Lo Hi = \<lparr>MinCycles = Lo, MaxCycles = Hi, DebugInfo = ''''\<rparr>"

definition getUpperBoundCycles :: "MuArchState \<Rightarrow> u32" where
  "getUpperBoundCycles S = MaxCycles S"

definition getLowerBoundCycles :: "MuArchState \<Rightarrow> u32" where
  "getLowerBoundCycles S = MinCycles S"

record Node =
  nd_Id :: nat
  nd_Name :: string
  Successors :: "nat list"
  Predecessors :: "nat list"
  BackEdgePredecessors :: "nat list"
  IsLoop :: bool
  LowerLoopBound :: "u32 option"
  UpperLoopBound :: "u32 option"
  nd_State :: MuArchState

definition newNode :: "nat \<Rightarrow> MuArchState \<Rightarrow> Node" where
  "newNode NewId State =
     \<lparr>nd_Id = NewId, nd_Name = '''', Successors = [], Predecessors = [],
      BackEdgePredecessors = [], IsLoop = False, LowerLoopBound = None, UpperLoopBound = None,
      nd_State = State\<rparr>"

text \<open>The copy constructor keeps the id, the edges and the state, and nothing else.\<close>

definition copyNode :: "Node \<Rightarrow> Node" where
  "copyNode N = (newNode (nd_Id N) (nd_State N))
     \<lparr>Successors := Successors N, Predecessors := Predecessors N\<rparr>"

definition nd_less :: "Node \<Rightarrow> Node \<Rightarrow> bool" where
  "nd_less N M \<longleftrightarrow> nd_Id N < nd_Id M"

definition addSuccessor :: "nat \<Rightarrow> Node \<Rightarrow> Node" where
  "addSuccessor s N = N\<lparr>Successors := oset_add s (Successors N)\<rparr>"

definition addPredecessor :: "nat \<Rightarrow> Node \<Rightarrow> Node" where
  "addPredecessor p N = N\<lparr>Predecessors := oset_add p (Predecessors N)\<rparr>"

definition deleteSuccessor :: "nat \<Rightarrow> Node \<Rightarrow> bool \<times> Node" where
  "deleteSuccessor s N =
     (s \<in> set (Successors N), N\<lparr>Successors := removeAll s (Successors N)\<rparr>)"

definition deletePredecessor :: "nat \<Rightarrow> Node \<Rightarrow> bool \<times> Node" where
  "deletePredecessor p N =
     (p \<in> set (Predecessors N), N\<lparr>Predecessors := removeAll p (Predecessors N)\<rparr>)"

definition isPredecessor :: "nat \<Rightarrow> Node \<Rightarrow> bool" where
  "isPredecessor p N \<longleftrightarrow> p \<in> set (Predecessors N)"

definition isSuccessor :: "nat \<Rightarrow> Node \<Rightarrow> bool" where
  "isSuccessor s N \<longleftrightarrow> s \<in> set (Successors N)"

definition nd_isFree :: "Node \<Rightarrow> bool" where
  "nd_isFree N \<longleftrightarrow> Successors N = [] \<and> Predecessors N = []"

text \<open>Printing a bound that was never set reads an indeterminate value.\<close>

definition getNodeDescr :: "Node \<Rightarrow> string option" where
  "getNodeDescr N =
     (let D = ''ID: '' @ dec_string (nd_Id N) @ '', Name: '' @ nd_Name N @ '', Cycle:''
                @ dec_string (unat (getUpperBoundCycles (nd_State N)))
      in do {
        D2 \<leftarrow> (if IsLoop N then do {
                   L \<leftarrow> LowerLoopBound N;
                   U \<leftarrow> UpperLoopBound N;
                   Some (D @ [CHR 0x5C, CHR ''n''] @ ''Loop: ['' @ dec_string (unat L) @ '', ''
                         @ dec_string (unat U) @ '']'')
                 } else Some D);
        Some (if DebugInfo (nd_State N) \<noteq> '''' then D2 @ [CHR 0x5C, CHR ''n''] @ DebugInfo (nd_State N)
              else D2)
      })"

subsection \<open>The graph\<close>

record CallSite =
  CallNode :: nat
  Callee :: ptr
  LandingNode :: nat
  HasLanding :: bool

record ProgramGraph =
  Nodes :: "(nat \<times> Node) list"
  MBBToNodeMap :: "(ptr \<times> nat) list"
  NodeToFunctionMap :: "(nat \<times> ptr) list"
  HasEntryNode :: bool
  EntryNodeId :: nat
  StartFunction :: "ptr option"
  FunctionToEntryNodeMap :: "(ptr \<times> nat) list"
  FunctionToReturnNodesMap :: "(ptr \<times> nat list) list"
  CallSites :: "CallSite list"
  ExternalSymbolCallSites :: "(nat \<times> string) list"
  UnsoundExternalCallees :: "string set"
  BoundedRecursionFunctions :: "string set"
  UnboundedRecursionFunctions :: "string set"
  MutualRecursionFunctions :: "string set"
  NextNodeId :: nat

definition emptyPG :: ProgramGraph where
  "emptyPG = \<lparr>Nodes = [], MBBToNodeMap = [], NodeToFunctionMap = [], HasEntryNode = False,
     EntryNodeId = 0, StartFunction = None, FunctionToEntryNodeMap = [],
     FunctionToReturnNodesMap = [], CallSites = [], ExternalSymbolCallSites = [],
     UnsoundExternalCallees = {}, BoundedRecursionFunctions = {},
     UnboundedRecursionFunctions = {}, MutualRecursionFunctions = {}, NextNodeId = 0\<rparr>"

definition node_at :: "ProgramGraph \<Rightarrow> nat \<Rightarrow> Node option" where
  "node_at G i = map_of (Nodes G) i"

text \<open>\<open>Nodes.at(i)\<close> written to.\<close>

definition modNode :: "nat \<Rightarrow> (Node \<Rightarrow> Node) \<Rightarrow> ProgramGraph \<Rightarrow> ProgramGraph option" where
  "modNode i f G =
     do { N \<leftarrow> node_at G i; Some (G\<lparr>Nodes := omap_put i (f N) (Nodes G)\<rparr>) }"

definition addNode ::
  "MuArchState \<Rightarrow> ptr option \<Rightarrow> ProgramGraph \<Rightarrow> (nat \<times> ProgramGraph) option" where
  "addNode State MBB G =
     (let CurrentId = NextNodeId G;
          Next = Suc (NextNodeId G) mod 2 ^ 32
      in if \<not> Next > 0 then None
         else
           let G' = G\<lparr>NextNodeId := Next,
                      Nodes := omap_insert CurrentId (copyNode (newNode CurrentId State)) (Nodes G)\<rparr>
           in Some (CurrentId,
                case MBB of
                  Some B \<Rightarrow> G'\<lparr>MBBToNodeMap := omap_put B CurrentId (MBBToNodeMap G')\<rparr>
                | None \<Rightarrow> G'))"

text \<open>The overload with a name ignores it.\<close>

definition addNodeNamed ::
  "MuArchState \<Rightarrow> ptr option \<Rightarrow> string \<Rightarrow> ProgramGraph \<Rightarrow> (nat \<times> ProgramGraph) option" where
  "addNodeNamed State MBB NodeName G = addNode State MBB G"

definition addEdge :: "nat \<Rightarrow> nat \<Rightarrow> ProgramGraph \<Rightarrow> ProgramGraph option" where
  "addEdge FromNode ToNode G =
     (if \<not> (node_at G FromNode \<noteq> None \<and> node_at G ToNode \<noteq> None) then None
      else do {
        G1 \<leftarrow> modNode FromNode (addSuccessor ToNode) G;
        modNode ToNode (addPredecessor FromNode) G1
      })"

definition removeNode :: "nat \<Rightarrow> ProgramGraph \<Rightarrow> ProgramGraph option" where
  "removeNode i G =
     do {
       N \<leftarrow> node_at G i;
       if \<not> nd_isFree N then None else Some (G\<lparr>Nodes := omap_del i (Nodes G)\<rparr>)
     }"

definition removeEdge :: "nat \<Rightarrow> nat \<Rightarrow> ProgramGraph \<Rightarrow> ProgramGraph option" where
  "removeEdge FromNode ToNode G =
     do {
       G1 \<leftarrow> modNode FromNode (\<lambda>N. snd (deleteSuccessor ToNode N)) G;
       modNode ToNode (\<lambda>N. snd (deletePredecessor FromNode N)) G1
     }"

definition getPredecessors :: "ProgramGraph \<Rightarrow> nat \<Rightarrow> nat list option" where
  "getPredecessors G i = map_option Predecessors (node_at G i)"

definition getSuccessors :: "ProgramGraph \<Rightarrow> nat \<Rightarrow> nat list option" where
  "getSuccessors G i = map_option Successors (node_at G i)"

definition pg_isFree :: "ProgramGraph \<Rightarrow> nat \<Rightarrow> bool option" where
  "pg_isFree G i = map_option nd_isFree (node_at G i)"

definition hasEdge :: "ProgramGraph \<Rightarrow> nat \<Rightarrow> nat \<Rightarrow> bool option" where
  "hasEdge G a b = map_option (isSuccessor b) (node_at G a)"

definition getNodesNotInMBBMap :: "ProgramGraph \<Rightarrow> nat list" where
  "getNodesNotInMBBMap G =
     (let NodesInMap = map snd (MBBToNodeMap G)
      in filter (\<lambda>i. i \<notin> set NodesInMap) (map fst (Nodes G)))"

subsection \<open>Filling the graph\<close>

fun wireReturns :: "nat list \<Rightarrow> nat \<Rightarrow> ProgramGraph \<Rightarrow> ProgramGraph option" where
  "wireReturns [] ExitNode G = Some G"
| "wireReturns (Ret # Rs) ExitNode G =
     do { G' \<leftarrow> addEdge Ret ExitNode G; wireReturns Rs ExitNode G' }"

definition wireEntryExit ::
  "nat list \<Rightarrow> nat list \<Rightarrow> nat \<Rightarrow> nat \<Rightarrow> ProgramGraph \<Rightarrow> ProgramGraph option" where
  "wireEntryExit BodyNodeIds ReturnNodeIds EntryNode ExitNode G =
     do {
       G1 \<leftarrow> (if BodyNodeIds \<noteq> [] then addEdge EntryNode (hd BodyNodeIds) G else Some G);
       G2 \<leftarrow> wireReturns ReturnNodeIds ExitNode G1;
       if BodyNodeIds = [] then addEdge EntryNode ExitNode G2
       else if ReturnNodeIds = [] then addEdge (last BodyNodeIds) ExitNode G2
       else Some G2
     }"

text \<open>\<open>MBBToNodeMap[&MBB]\<close>; the blocks asked for are those of the function being filled.\<close>

definition nodeOf :: "ProgramGraph \<Rightarrow> ptr \<Rightarrow> nat" where
  "nodeOf G B = omap_get 0 (MBBToNodeMap G) B"

text \<open>The loop over the blocks that makes their nodes.\<close>

fun fillNodes ::
  "ptr \<Rightarrow> (ptr \<rightharpoonup> u32) \<Rightarrow> (ptr \<rightharpoonup> u32) \<Rightarrow> MachineBasicBlock list \<Rightarrow> ProgramGraph
   \<Rightarrow> (nat list \<times> nat list \<times> ProgramGraph) option" where
  "fillNodes F Lat LB [] G = Some ([], [], G)"
| "fillNodes F Lat LB (MBB # Bs) G =
     do {
       (CurrentNode, G1) \<leftarrow>
         (let Latency = (case Lat (mbb_id MBB) of Some l \<Rightarrow> l | None \<Rightarrow> 0)
          in addNode (newMuArchState Latency Latency) (Some (mbb_id MBB)) G);
       let G2 = G1\<lparr>NodeToFunctionMap := omap_put CurrentNode F (NodeToFunctionMap G1)\<rparr>;
       G3 \<leftarrow>
         (case LB (mbb_id MBB) of
            Some b \<Rightarrow> modNode CurrentNode
                (\<lambda>N. N\<lparr>IsLoop := True, UpperLoopBound := Some b, LowerLoopBound := Some 1\<rparr>) G2
          | None \<Rightarrow> Some G2);
       G4 \<leftarrow> modNode CurrentNode (\<lambda>N. N\<lparr>nd_Name := mbb_name MBB\<rparr>) G3;
       (Body, Ret, G5) \<leftarrow> fillNodes F Lat LB Bs G4;
       Some (CurrentNode # Body, (if mbb_isReturnBlock MBB then [CurrentNode] else []) @ Ret, G5)
     }"

text \<open>The loop over the control-flow edges, with the two ways a back edge is recognised.\<close>

definition fillEdge ::
  "MachineLoopInfo option \<Rightarrow> (ptr \<times> ptr) set \<Rightarrow> ptr \<Rightarrow> ptr \<Rightarrow> ProgramGraph \<Rightarrow> ProgramGraph option" where
  "fillEdge MLI Irr B S G =
     do {
       let FromNode = nodeOf G B;
       let ToNode = nodeOf G S;
       G1 \<leftarrow> addEdge FromNode ToNode G;
       G2 \<leftarrow>
         (case MLI of
            Some li \<Rightarrow>
              (case li S of
                 Some L \<Rightarrow>
                   if ml_header L = S \<and> B \<in> set (ml_blocks L)
                   then modNode ToNode
                     (\<lambda>N. N\<lparr>BackEdgePredecessors := oset_add FromNode (BackEdgePredecessors N)\<rparr>) G1
                   else Some G1
               | None \<Rightarrow> Some G1)
          | None \<Rightarrow> Some G1);
       if (B, S) \<in> Irr
       then modNode ToNode
         (\<lambda>N. N\<lparr>BackEdgePredecessors := oset_add FromNode (BackEdgePredecessors N)\<rparr>) G2
       else Some G2
     }"

fun fillEdges ::
  "MachineLoopInfo option \<Rightarrow> (ptr \<times> ptr) set \<Rightarrow> (ptr \<times> ptr) list \<Rightarrow> ProgramGraph
   \<Rightarrow> ProgramGraph option" where
  "fillEdges MLI Irr [] G = Some G"
| "fillEdges MLI Irr ((B, S) # Es) G =
     do { G' \<leftarrow> fillEdge MLI Irr B S G; fillEdges MLI Irr Es G' }"

definition cfgEdges :: "MachineBasicBlock list \<Rightarrow> (ptr \<times> ptr) list" where
  "cfgEdges Bs = concat (map (\<lambda>B. map (\<lambda>S. (mbb_id B, S)) (mbb_succs B)) Bs)"

text \<open>A call site is captured for a call of a function; a call by symbol name is kept apart.\<close>

definition captureCall ::
  "MachineBasicBlock \<Rightarrow> MachineInstr \<Rightarrow> ProgramGraph \<Rightarrow> ProgramGraph option" where
  "captureCall MBB MI G =
     (if \<not> mi_isCall MI then Some G
      else case mi_operands MI of
        [] \<Rightarrow> None
      | MO # _ \<Rightarrow>
          (case MO of
             MO_GlobalAddress (GV_Function F) \<Rightarrow>
               (let Landing = (if length (mbb_succs MBB) = 1 then Some (hd (mbb_succs MBB))
                               else mbb_fallThrough MBB);
                    Land = (case Landing of
                              Some L \<Rightarrow> map_of (MBBToNodeMap G) L
                            | None \<Rightarrow> None)
                in Some (G\<lparr>CallSites := CallSites G @
                     [\<lparr>CallNode = nodeOf G (mbb_id MBB), Callee = F,
                       LandingNode = (case Land of Some n \<Rightarrow> n | None \<Rightarrow> 0),
                       HasLanding = (Land \<noteq> None)\<rparr>]\<rparr>))
           | MO_ExternalSymbol S \<Rightarrow>
               Some (G\<lparr>ExternalSymbolCallSites :=
                        ExternalSymbolCallSites G @ [(nodeOf G (mbb_id MBB), S)]\<rparr>)
           | _ \<Rightarrow> Some G))"

fun captureCalls ::
  "MachineBasicBlock \<Rightarrow> MachineInstr list \<Rightarrow> ProgramGraph \<Rightarrow> ProgramGraph option" where
  "captureCalls MBB [] G = Some G"
| "captureCalls MBB (MI # MIs) G =
     do { G' \<leftarrow> captureCall MBB MI G; captureCalls MBB MIs G' }"

fun fillCalls :: "ptr \<Rightarrow> MachineBasicBlock list \<Rightarrow> ProgramGraph \<Rightarrow> ProgramGraph option" where
  "fillCalls F [] G = Some G"
| "fillCalls F (MBB # Bs) G =
     do {
       let G1 =
         (if mbb_isReturnBlock MBB
          then G\<lparr>FunctionToReturnNodesMap :=
                 omap_put F (omap_get [] (FunctionToReturnNodesMap G) F @ [nodeOf G (mbb_id MBB)])
                   (FunctionToReturnNodesMap G)\<rparr>
          else G);
       G2 \<leftarrow> captureCalls MBB (mbb_instrs MBB) G1;
       fillCalls F Bs G2
     }"

definition fillEntry :: "ptr \<Rightarrow> ProgramGraph \<Rightarrow> (nat \<times> nat \<times> ProgramGraph) option" where
  "fillEntry F G =
     do {
       (EntryNode, G1) \<leftarrow> addNode (newMuArchState 0 0) None G;
       (ExitNode, G2) \<leftarrow> addNode (newMuArchState 0 0) None G1;
       G3 \<leftarrow> modNode EntryNode (\<lambda>N. N\<lparr>nd_Name := ''Entry''\<rparr>) G2;
       G4 \<leftarrow> modNode ExitNode (\<lambda>N. N\<lparr>nd_Name := ''Exit''\<rparr>) G3;
       Some (EntryNode, ExitNode,
             G4\<lparr>EntryNodeId := EntryNode, HasEntryNode := True, StartFunction := Some F\<rparr>)
     }"

definition fillGraphWithFunction ::
  "MachineFunction \<Rightarrow> bool \<Rightarrow> (ptr \<rightharpoonup> u32) \<Rightarrow> (ptr \<rightharpoonup> u32) \<Rightarrow> MachineLoopInfo option
   \<Rightarrow> (ptr \<times> ptr) set \<Rightarrow> ProgramGraph \<Rightarrow> ProgramGraph option" where
  "fillGraphWithFunction MF isEntry MBBLatencyMap LoopBoundMap MLI IrreducibleBackEdges G =
     do {
       (EntryNode, ExitNode, G1) \<leftarrow>
         (if isEntry then fillEntry (mf_function MF) G else Some (0, 0, G));
       (BodyNodeIds, ReturnNodeIds, G2) \<leftarrow>
         fillNodes (mf_function MF) MBBLatencyMap LoopBoundMap (mf_blocks MF) G1;
       G3 \<leftarrow> (if isEntry then wireEntryExit BodyNodeIds ReturnNodeIds EntryNode ExitNode G2
               else Some G2);
       G4 \<leftarrow> fillEdges MLI IrreducibleBackEdges (cfgEdges (mf_blocks MF)) G3;
       let G5 =
         (case mf_blocks MF of
            [] \<Rightarrow> G4
          | B # _ \<Rightarrow> G4\<lparr>FunctionToEntryNodeMap :=
                omap_put (mf_function MF) (nodeOf G4 (mbb_id B)) (FunctionToEntryNodeMap G4)\<rparr>);
       fillCalls (mf_function MF) (mf_blocks MF) G5
     }"

fun fillGraph ::
  "MachineFunction list \<Rightarrow> bool \<Rightarrow> (ptr \<rightharpoonup> u32) \<Rightarrow> (ptr \<rightharpoonup> u32) \<Rightarrow> ProgramGraph
   \<Rightarrow> ProgramGraph option" where
  "fillGraph [] isEntry Lat LB G = Some G"
| "fillGraph (MF # MFs) isEntry Lat LB G =
     do {
       G' \<leftarrow> fillGraphWithFunction MF isEntry Lat LB None {} G;
       fillGraph MFs False Lat LB G'
     }"

end
