(* ===== verification/WorklistSolver.thy ===== *)
theory WorklistSolver
  imports AnalysisFramework AbstractStateGraph ProgramGraph
begin

text \<open>
  \<open>lib/Analysis/WorklistSolver.cpp\<close>: the graphs the solver sets up, from the blocks of a function
  or from the program graph, and the two fixpoint loops. A loop that may run for ever is a
  partial function whose value is \<^term>\<open>None\<close> when it does. The map from blocks to nodes is
  local to the set-up; \<open>MBBToNodeMap[B]\<close> is 0 for a block that is not in it.
\<close>

record 's WorklistSolver =
  ws_Graph :: "'s AbstractStateGraph"
  Worklist :: "nat list"
  InWorklist :: "nat set"

definition addToWorklist :: "nat \<Rightarrow> 's WorklistSolver \<Rightarrow> 's WorklistSolver" where
  "addToWorklist NodeId S =
     (if NodeId \<notin> InWorklist S
      then S\<lparr>Worklist := Worklist S @ [NodeId], InWorklist := insert NodeId (InWorklist S)\<rparr>
      else S)"

definition takeFromWorklist :: "'s WorklistSolver \<Rightarrow> nat \<times> 's WorklistSolver" where
  "takeFromWorklist S =
     (let NodeId = hd (Worklist S)
      in (NodeId, S\<lparr>Worklist := tl (Worklist S), InWorklist := InWorklist S - {NodeId}\<rparr>))"

subsection \<open>The graph of a function\<close>

definition markLoop ::
  "MachineLoopInfo option \<Rightarrow> (ptr \<rightharpoonup> u32) option \<Rightarrow> ptr \<Rightarrow> nat \<Rightarrow> 's AbstractStateGraph
   \<Rightarrow> 's AbstractStateGraph" where
  "markLoop MLI LoopBounds B NodeId G =
     (case (MLI, LoopBounds) of
        (Some li, Some lb) \<Rightarrow>
          (case li B of
             Some L \<Rightarrow>
               if ml_header L = B then
                 asg_update NodeId
                   (\<lambda>N. case lb B of
                      Some b \<Rightarrow> N\<lparr>IsLoopHeader := True, asg_UpperLoopBound := b\<rparr>
                    | None \<Rightarrow> N\<lparr>IsLoopHeader := True\<rparr>) G
               else G
           | None \<Rightarrow> G)
      | _ \<Rightarrow> G)"

fun initNodes ::
  "'s Analysable \<Rightarrow> MachineLoopInfo option \<Rightarrow> (ptr \<rightharpoonup> u32) option \<Rightarrow> MachineBasicBlock list
   \<Rightarrow> (ptr \<times> nat) list \<Rightarrow> 's AbstractStateGraph \<Rightarrow> (ptr \<times> nat) list \<times> 's AbstractStateGraph" where
  "initNodes A MLI LoopBounds [] M G = (M, G)"
| "initNodes A MLI LoopBounds (MBB # Bs) M G =
     (let (NodeId, G1) = asg_addNode (an_getInitialState A) (Some MBB) G
      in initNodes A MLI LoopBounds Bs (omap_put (mbb_id MBB) NodeId M)
           (markLoop MLI LoopBounds (mbb_id MBB) NodeId G1))"

definition isInnermostBack :: "MachineLoopInfo option \<Rightarrow> ptr \<Rightarrow> ptr \<Rightarrow> bool" where
  "isInnermostBack MLI B S =
     (case MLI of
        Some li \<Rightarrow> (case li B of Some L \<Rightarrow> ml_header L = S | None \<Rightarrow> False)
      | None \<Rightarrow> False)"

fun initEdges ::
  "MachineLoopInfo option \<Rightarrow> (ptr \<times> nat) list \<Rightarrow> (ptr \<times> ptr) list \<Rightarrow> 's AbstractStateGraph
   \<Rightarrow> 's AbstractStateGraph" where
  "initEdges MLI M [] G = G"
| "initEdges MLI M ((B, S) # Es) G =
     initEdges MLI M Es (asg_addEdge (omap_get 0 M B) (omap_get 0 M S) (isInnermostBack MLI B S) G)"

text \<open>A call pushes a call site for each successor of its block and each function it names.\<close>

definition callSitesOf ::
  "(ptr \<times> nat) list \<Rightarrow> nat \<Rightarrow> MachineBasicBlock \<Rightarrow> MachineInstr \<Rightarrow> ASGCallSite list" where
  "callSitesOf M NodeId MBB MI =
     (if mi_isCall MI
      then concat (map (\<lambda>Op.
             case Op of
               MO_GlobalAddress (GV_Function F) \<Rightarrow>
                 map (\<lambda>Succ. \<lparr>CallNodeId = NodeId, ReturnNodeId = omap_get 0 M Succ, asg_Callee = F\<rparr>)
                   (mbb_succs MBB)
             | _ \<Rightarrow> []) (mi_operands MI))
      else [])"

fun initExits ::
  "ptr \<Rightarrow> (ptr \<times> nat) list \<Rightarrow> MachineBasicBlock list \<Rightarrow> 's AbstractStateGraph
   \<Rightarrow> 's AbstractStateGraph" where
  "initExits F M [] G = G"
| "initExits F M (MBB # Bs) G =
     (let NodeId = omap_get 0 M (mbb_id MBB);
          G1 = (if mbb_isReturnBlock MBB
                then (asg_update NodeId (\<lambda>N. N\<lparr>IsExit := True\<rparr>) G)
                  \<lparr>FunctionReturns :=
                     omap_put F (omap_get [] (FunctionReturns G) F @ [NodeId]) (FunctionReturns G)\<rparr>
                else G);
          G2 = G1\<lparr>asg_CallSites := asg_CallSites G1 @
                 concat (map (callSitesOf M NodeId MBB) (mbb_instrs MBB))\<rparr>
      in initExits F M Bs G2)"

definition initializeGraph_MF ::
  "'s Analysable \<Rightarrow> MachineFunction \<Rightarrow> MachineLoopInfo option \<Rightarrow> (ptr \<rightharpoonup> u32) option
   \<Rightarrow> 's WorklistSolver \<Rightarrow> 's WorklistSolver" where
  "initializeGraph_MF A MF MLI LoopBounds S =
     (let (M, G1) = initNodes A MLI LoopBounds (mf_blocks MF) [] (ws_Graph S);
          G2 = initEdges MLI M (cfgEdges (mf_blocks MF)) G1;
          S1 = S\<lparr>ws_Graph := G2\<rparr>;
          S2 = (case mf_blocks MF of
                  [] \<Rightarrow> S1
                | MBB # _ \<Rightarrow>
                    let EntryId = omap_get 0 M (mbb_id MBB);
                        S' = addToWorklist EntryId S1;
                        G' = asg_update EntryId (\<lambda>N. N\<lparr>IsEntry := True\<rparr>) (ws_Graph S')
                    in S'\<lparr>ws_Graph :=
                         G'\<lparr>FunctionEntries := omap_put (mf_function MF) EntryId (FunctionEntries G')\<rparr>\<rparr>)
      in S2\<lparr>ws_Graph := initExits (mf_function MF) M (mf_blocks MF) (ws_Graph S2)\<rparr>)"

subsection \<open>The graph of the program\<close>

text \<open>A loop bound that was never set is read all the same; \<open>Indet\<close> is the value read at each node.\<close>

type_synonym IndetBounds = "nat \<Rightarrow> u32"

definition copyPGNode :: "IndetBounds \<Rightarrow> Node \<Rightarrow> 's ASGNode \<Rightarrow> 's ASGNode" where
  "copyPGNode Indet PGNode N =
     (let N1 = N\<lparr>Cost := getUpperBoundCycles (nd_State PGNode)\<rparr>;
          N2 = (if BackEdgePredecessors PGNode \<noteq> []
                then N1\<lparr>IsLoopHeader := True,
                        asg_UpperLoopBound := (case UpperLoopBound PGNode of Some b \<Rightarrow> b | None \<Rightarrow> Indet (nd_Id PGNode))\<rparr>
                else N1);
          N3 = (if nd_Name PGNode = ''Entry'' then N2\<lparr>IsEntry := True\<rparr> else N2)
      in if nd_Name PGNode = ''Exit'' then N3\<lparr>IsExit := True\<rparr> else N3)"

fun copyNodes ::
  "'s Analysable \<Rightarrow> IndetBounds \<Rightarrow> (nat \<times> Node) list \<Rightarrow> (nat \<times> nat) list \<Rightarrow> 's AbstractStateGraph
   \<Rightarrow> (nat \<times> nat) list \<times> 's AbstractStateGraph" where
  "copyNodes A Indet [] M G = (M, G)"
| "copyNodes A Indet ((i, PGNode) # Ns) M G =
     (let (ASGNodeId, G1) = asg_addNode (an_getInitialState A) None G
      in copyNodes A Indet Ns (omap_put (nd_Id PGNode) ASGNodeId M)
           (asg_update ASGNodeId (copyPGNode Indet PGNode) G1))"

fun copySuccs ::
  "ProgramGraph \<Rightarrow> (nat \<times> nat) list \<Rightarrow> Node \<Rightarrow> nat list \<Rightarrow> 's AbstractStateGraph
   \<Rightarrow> 's AbstractStateGraph" where
  "copySuccs PG M PGNode [] G = G"
| "copySuccs PG M PGNode (SuccId # Ss) G =
     copySuccs PG M PGNode Ss
       (case map_of M SuccId of
          Some ToASG \<Rightarrow>
            asg_addEdge (omap_get 0 M (nd_Id PGNode)) ToASG
              (case node_at PG SuccId of
                 Some SuccNode \<Rightarrow> nd_Id PGNode \<in> set (BackEdgePredecessors SuccNode)
               | None \<Rightarrow> False) G
        | None \<Rightarrow> G)"

fun copyEdges ::
  "ProgramGraph \<Rightarrow> (nat \<times> nat) list \<Rightarrow> (nat \<times> Node) list \<Rightarrow> 's AbstractStateGraph
   \<Rightarrow> 's AbstractStateGraph" where
  "copyEdges PG M [] G = G"
| "copyEdges PG M ((i, PGNode) # Ns) G =
     copyEdges PG M Ns (copySuccs PG M PGNode (Successors PGNode) G)"

fun markEnds ::
  "(nat \<times> nat) list \<Rightarrow> (nat \<times> Node) list \<Rightarrow> 's AbstractStateGraph \<Rightarrow> 's AbstractStateGraph" where
  "markEnds M [] G = G"
| "markEnds M ((i, PGNode) # Ns) G =
     markEnds M Ns
       (asg_update (omap_get 0 M (nd_Id PGNode))
          (\<lambda>N. let N1 = (if Predecessors PGNode = [] then N\<lparr>IsEntry := True\<rparr> else N)
               in if Successors PGNode = [] then N1\<lparr>IsExit := True\<rparr> else N1) G)"

text \<open>The call information, kept where the nodes it names survived.\<close>

definition copyEntries :: "(nat \<times> nat) list \<Rightarrow> (ptr \<times> nat) list \<Rightarrow> (ptr \<times> nat) list \<Rightarrow> (ptr \<times> nat) list" where
  "copyEntries M Fs E =
     foldl (\<lambda>E (F, n). case map_of M n of Some a \<Rightarrow> omap_put F a E | None \<Rightarrow> E) E Fs"

definition copyReturns ::
  "(nat \<times> nat) list \<Rightarrow> (ptr \<times> nat list) list \<Rightarrow> (ptr \<times> nat list) list \<Rightarrow> (ptr \<times> nat list) list" where
  "copyReturns M Fs R =
     foldl (\<lambda>R (F, ns). foldl (\<lambda>R n.
         case map_of M n of
           Some a \<Rightarrow> omap_put F (omap_get [] R F @ [a]) R
         | None \<Rightarrow> R) R ns) R Fs"

definition copyCallSites :: "(nat \<times> nat) list \<Rightarrow> CallSite list \<Rightarrow> ASGCallSite list" where
  "copyCallSites M Css =
     concat (map (\<lambda>CS.
       if \<not> HasLanding CS then []
       else case (map_of M (CallNode CS), map_of M (LandingNode CS)) of
         (Some c, Some l) \<Rightarrow> [\<lparr>CallNodeId = c, ReturnNodeId = l, asg_Callee = Callee CS\<rparr>]
       | _ \<Rightarrow> []) Css)"

fun seedEntries :: "(nat \<times> 's ASGNode) list \<Rightarrow> 's WorklistSolver \<Rightarrow> 's WorklistSolver" where
  "seedEntries [] S = S"
| "seedEntries ((i, N) # Ns) S = seedEntries Ns (if IsEntry N then addToWorklist i S else S)"

definition initializeGraph_PG ::
  "'s Analysable \<Rightarrow> IndetBounds \<Rightarrow> ProgramGraph \<Rightarrow> 's WorklistSolver \<Rightarrow> 's WorklistSolver" where
  "initializeGraph_PG A Indet PG S =
     (let (M, G1) = copyNodes A Indet (Nodes PG) [] (ws_Graph S);
          G2 = copyEdges PG M (Nodes PG) G1;
          G3 = markEnds M (Nodes PG) G2;
          G4 = G3\<lparr>FunctionEntries := copyEntries M (FunctionToEntryNodeMap PG) (FunctionEntries G3),
                  FunctionReturns := copyReturns M (FunctionToReturnNodesMap PG) (FunctionReturns G3),
                  asg_CallSites := asg_CallSites G3 @ copyCallSites M (CallSites PG)\<rparr>
      in seedEntries (asg_Nodes G4) (S\<lparr>ws_Graph := G4\<rparr>))"

subsection \<open>The fixpoint\<close>

fun joinPreds ::
  "'s Analysable \<Rightarrow> 's AbstractStateGraph \<Rightarrow> nat list \<Rightarrow> bool \<Rightarrow> 's \<Rightarrow> 's" where
  "joinPreds A G [] FirstPred InState = InState"
| "joinPreds A G (PredId # Ps) FirstPred InState =
     (case asg_getNode G PredId of
        None \<Rightarrow> joinPreds A G Ps FirstPred InState
      | Some PredNode \<Rightarrow>
          if FirstPred then joinPreds A G Ps False (an_clone A (asg_State PredNode))
          else joinPreds A G Ps False (fst (an_join A InState (asg_State PredNode))))"

fun processBlock :: "'s Analysable \<Rightarrow> MachineInstr list \<Rightarrow> u32 \<Rightarrow> 's \<Rightarrow> u32 \<times> 's" where
  "processBlock A [] BlockCost InState = (BlockCost, InState)"
| "processBlock A (MI # MIs) BlockCost InState =
     (let (InstCost, InState') = an_process A InState MI
      in processBlock A MIs (BlockCost + InstCost) InState')"

fun addSuccs :: "EdgeSet \<Rightarrow> 's WorklistSolver \<Rightarrow> 's WorklistSolver" where
  "addSuccs [] S = S"
| "addSuccs (E # Es) S = addSuccs Es (addToWorklist (fst E) S)"

text \<open>The comparison with the state the node has, and what follows from a change.\<close>

definition updateState :: "'s Analysable \<Rightarrow> nat \<Rightarrow> 's \<Rightarrow> 's WorklistSolver \<Rightarrow> 's WorklistSolver" where
  "updateState A NodeId InState S =
     (case asg_getNode (ws_Graph S) NodeId of
        None \<Rightarrow> S
      | Some N \<Rightarrow>
          if \<not> an_equals A (asg_State N) InState then
            let G' = asg_update NodeId (\<lambda>N. N\<lparr>asg_State := InState\<rparr>) (ws_Graph S)
            in addSuccs (asg_getSuccessors G' NodeId) (S\<lparr>ws_Graph := G'\<rparr>)
          else S)"

definition setCost :: "nat \<Rightarrow> u32 \<Rightarrow> 's WorklistSolver \<Rightarrow> 's WorklistSolver" where
  "setCost NodeId BlockCost S =
     S\<lparr>ws_Graph := asg_update NodeId (\<lambda>N. N\<lparr>Cost := BlockCost\<rparr>) (ws_Graph S)\<rparr>"

definition visit_PG :: "'s Analysable \<Rightarrow> 's WorklistSolver \<Rightarrow> 's WorklistSolver" where
  "visit_PG A S0 =
     (let (NodeId, S) = takeFromWorklist S0 in
      case asg_getNode (ws_Graph S) NodeId of
        None \<Rightarrow> S
      | Some N \<Rightarrow>
          let InState = joinPreds A (ws_Graph S) (asg_getPredecessors (ws_Graph S) NodeId) True
                          (an_getInitialState A)
          in (case asg_MBB N of
                Some MBB \<Rightarrow>
                  let (BlockCost, Out) = processBlock A (mbb_instrs MBB) 0 InState
                  in updateState A NodeId Out (setCost NodeId BlockCost S)
              | None \<Rightarrow> updateState A NodeId InState S))"

definition visit_MF :: "'s Analysable \<Rightarrow> 's WorklistSolver \<Rightarrow> 's WorklistSolver" where
  "visit_MF A S0 =
     (let (NodeId, S) = takeFromWorklist S0 in
      case asg_getNode (ws_Graph S) NodeId of
        None \<Rightarrow> S
      | Some N \<Rightarrow>
          let InState = joinPreds A (ws_Graph S) (asg_getPredecessors (ws_Graph S) NodeId) True
                          (an_getInitialState A);
              (BlockCost, Out) =
                (case asg_MBB N of
                   Some MBB \<Rightarrow> processBlock A (mbb_instrs MBB) 0 InState
                 | None \<Rightarrow> (0, InState))
          in updateState A NodeId Out (setCost NodeId BlockCost S))"

partial_function (option) loop_PG :: "'s Analysable \<Rightarrow> 's WorklistSolver \<Rightarrow> 's WorklistSolver option" where
  "loop_PG A S = (if Worklist S = [] then Some S else loop_PG A (visit_PG A S))"

partial_function (option) loop_MF :: "'s Analysable \<Rightarrow> 's WorklistSolver \<Rightarrow> 's WorklistSolver option" where
  "loop_MF A S = (if Worklist S = [] then Some S else loop_MF A (visit_MF A S))"

declare loop_PG.simps [code] loop_MF.simps [code]

fun addAll :: "nat list \<Rightarrow> 's WorklistSolver \<Rightarrow> 's WorklistSolver" where
  "addAll [] S = S"
| "addAll (i # is) S = addAll is (addToWorklist i S)"

definition run_PG ::
  "'s Analysable \<Rightarrow> IndetBounds \<Rightarrow> ProgramGraph \<Rightarrow> 's WorklistSolver \<Rightarrow> 's WorklistSolver option" where
  "run_PG A Indet PG S =
     (let S1 = initializeGraph_PG A Indet PG S in
      if asg_Nodes (ws_Graph S1) = [] then Some S1
      else loop_PG A (addAll (map fst (asg_Nodes (ws_Graph S1))) S1))"

definition run_MF ::
  "'s Analysable \<Rightarrow> MachineFunction \<Rightarrow> MachineLoopInfo option \<Rightarrow> (ptr \<rightharpoonup> u32) option
   \<Rightarrow> 's WorklistSolver \<Rightarrow> 's WorklistSolver option" where
  "run_MF A MF MLI LoopBounds S = loop_MF A (initializeGraph_MF A MF MLI LoopBounds S)"

definition newSolver :: "'s WorklistSolver" where
  "newSolver = \<lparr>ws_Graph = emptyASG, Worklist = [], InWorklist = {}\<rparr>"

end
