(* ===== verification/SolverProps.thy ===== *)
theory SolverProps
  imports WorklistSolver
begin

text \<open>
  What the fixpoint loops guarantee. One step of the loop is characterised once
  (\<open>visit_MF_spec\<close>); on it rest the termination of the loop for an analysis whose states only
  descend from the initial one (locale \<open>descending\<close>) and the soundness of the costs it leaves
  (locale \<open>sound_analysis\<close>).
\<close>

subsection \<open>The worklist\<close>

definition wl_ok :: "'s WorklistSolver \<Rightarrow> bool" where
  "wl_ok S \<longleftrightarrow> distinct (Worklist S) \<and> InWorklist S = set (Worklist S)"

lemma addToWorklist_spec:
  "wl_ok S \<Longrightarrow> wl_ok (addToWorklist i S) \<and> ws_Graph (addToWorklist i S) = ws_Graph S \<and>
   set (Worklist (addToWorklist i S)) = insert i (set (Worklist S))"
  by (auto simp: wl_ok_def addToWorklist_def)

lemma addSuccs_spec:
  "wl_ok S \<Longrightarrow> wl_ok (addSuccs Es S) \<and> ws_Graph (addSuccs Es S) = ws_Graph S \<and>
   set (Worklist (addSuccs Es S)) = fst ` set Es \<union> set (Worklist S)"
  by (induction Es S rule: addSuccs.induct) (auto simp: addToWorklist_spec)

lemma addAll_spec:
  "wl_ok S \<Longrightarrow> wl_ok (addAll is S) \<and> ws_Graph (addAll is S) = ws_Graph S \<and>
   set (Worklist (addAll is S)) = set is \<union> set (Worklist S)"
  by (induction "is" S rule: addAll.induct) (auto simp: addToWorklist_spec)

lemma seedEntries_spec:
  "wl_ok S \<Longrightarrow> wl_ok (seedEntries Ns S) \<and> ws_Graph (seedEntries Ns S) = ws_Graph S \<and>
   set (Worklist (seedEntries Ns S)) = fst ` {p \<in> set Ns. IsEntry (snd p)} \<union> set (Worklist S)"
  by (induction Ns S rule: seedEntries.induct) (auto simp: addToWorklist_spec image_iff)

lemma take_spec:
  assumes "wl_ok S" "Worklist S = n # ns"
  shows "takeFromWorklist S = (n, S\<lparr>Worklist := ns, InWorklist := set ns\<rparr>)"
    "wl_ok (S\<lparr>Worklist := ns, InWorklist := set ns\<rparr>)"
  using assms by (auto simp: takeFromWorklist_def wl_ok_def)

text \<open>A wrapped loop: what its step keeps holds at the end, and it ends when its step descends.\<close>

lemma loop_MF_inv:
  assumes "\<And>S. Inv S \<Longrightarrow> Worklist S \<noteq> [] \<Longrightarrow> Inv (visit_MF A S)"
    and "loop_MF A S = Some S'" "Inv S"
  shows "Inv S' \<and> Worklist S' = []"
proof -
  have "A' = A \<longrightarrow> Inv S \<longrightarrow> Inv S' \<and> Worklist S' = []" if "loop_MF A' S = Some S'" for A'
  proof (rule loop_MF.raw_induct [OF _ that], intro impI)
    fix loop A' S S'
    assume IH: "\<And>A' S S'. loop A' S = Some S' \<Longrightarrow>
        A' = A \<longrightarrow> Inv S \<longrightarrow> Inv S' \<and> Worklist S' = []"
      and eq: "(if Worklist S = [] then Some S else loop A' (visit_MF A' S)) = Some S'"
      and "A' = A" "Inv S"
    show "Inv S' \<and> Worklist S' = []"
    proof (cases "Worklist S = []")
      case True
      then show ?thesis using eq \<open>Inv S\<close> by simp
    next
      case False
      then have "loop A (visit_MF A S) = Some S'" using eq \<open>A' = A\<close> by simp
      from IH [OF this] assms(1) [OF \<open>Inv S\<close> False] show ?thesis by blast
    qed
  qed
  then show ?thesis using assms(2,3) by blast
qed

lemma loop_MF_ends:
  assumes "wf r" "\<And>S. Inv S \<Longrightarrow> Worklist S \<noteq> [] \<Longrightarrow> Inv (visit_MF A S) \<and> (visit_MF A S, S) \<in> r"
    and "Inv S"
  shows "\<exists>S'. loop_MF A S = Some S'"
  using assms(1,3)
proof (induction S rule: wf_induct_rule)
  case (less S)
  show ?case
  proof (cases "Worklist S = []")
    case True
    then show ?thesis by (subst loop_MF.simps) simp
  next
    case False
    then have "\<exists>S'. loop_MF A (visit_MF A S) = Some S'"
      using assms(2) [OF less.prems] less.IH by blast
    then show ?thesis using False by (subst loop_MF.simps) simp
  qed
qed

subsection \<open>One step of the loop\<close>

definition nodeIn :: "'s Analysable \<Rightarrow> 's AbstractStateGraph \<Rightarrow> nat \<Rightarrow> 's" where
  "nodeIn A G n = joinPreds A G (asg_getPredecessors G n) True (an_getInitialState A)"

definition nodeMBB :: "'s AbstractStateGraph \<Rightarrow> nat \<Rightarrow> MachineBasicBlock option" where
  "nodeMBB G n = Option.bind (asg_getNode G n) asg_MBB"

definition nodeInstrs :: "'s AbstractStateGraph \<Rightarrow> nat \<Rightarrow> MachineInstr list" where
  "nodeInstrs G n = (case nodeMBB G n of Some MBB \<Rightarrow> mbb_instrs MBB | None \<Rightarrow> [])"

definition nodeOut :: "'s Analysable \<Rightarrow> 's AbstractStateGraph \<Rightarrow> nat \<Rightarrow> u32 \<times> 's" where
  "nodeOut A G n = processBlock A (nodeInstrs G n) 0 (nodeIn A G n)"

definition nodeState :: "'s AbstractStateGraph \<Rightarrow> nat \<Rightarrow> 's" where
  "nodeState G n = asg_State (the (asg_getNode G n))"

definition nodeCost :: "'s AbstractStateGraph \<Rightarrow> nat \<Rightarrow> u32" where
  "nodeCost G n = Cost (the (asg_getNode G n))"

definition asg_ids :: "'s AbstractStateGraph \<Rightarrow> nat set" where
  "asg_ids G = {i. asg_getNode G i \<noteq> None}"

text \<open>The nodes keep everything but their states and costs.\<close>

definition same_shape :: "'s AbstractStateGraph \<Rightarrow> 's AbstractStateGraph \<Rightarrow> bool" where
  "same_shape G G' \<longleftrightarrow>
     asg_ids G' = asg_ids G \<and> asg_getSuccessors G' = asg_getSuccessors G \<and>
     asg_getPredecessors G' = asg_getPredecessors G \<and> nodeMBB G' = nodeMBB G \<and>
     (asg_wf G \<longrightarrow> asg_wf G')"

lemma same_shape_instrs: "same_shape G G' \<Longrightarrow> nodeInstrs G' = nodeInstrs G"
  by (simp add: same_shape_def nodeInstrs_def fun_eq_iff)

lemma same_shape_trans: "same_shape G H \<Longrightarrow> same_shape H K \<Longrightarrow> same_shape G K"
  by (simp add: same_shape_def)

lemma same_shape_refl [simp]: "same_shape G G"
  by (simp add: same_shape_def)

lemma update_shape:
  "(\<And>N. asg_MBB (f N) = asg_MBB N) \<Longrightarrow> same_shape G (asg_update i f G)"
  by (auto simp: same_shape_def asg_ids_def nodeMBB_def fun_eq_iff asg_wf_update
      split: option.splits bind_splits)

lemma visit_MF_spec:
  assumes "wl_ok S" "Worklist S = n # ns" "n \<in> asg_ids (ws_Graph S)"
    and out: "nodeOut A (ws_Graph S) n = (c, s)"
  defines "changed \<equiv> \<not> an_equals A (nodeState (ws_Graph S) n) s"
  shows "wl_ok (visit_MF A S)" "same_shape (ws_Graph S) (ws_Graph (visit_MF A S))"
    "nodeState (ws_Graph (visit_MF A S)) =
       (if changed then (nodeState (ws_Graph S))(n := s) else nodeState (ws_Graph S))"
    "nodeCost (ws_Graph (visit_MF A S)) = (nodeCost (ws_Graph S))(n := c)"
    "set (Worklist (visit_MF A S)) =
       set ns \<union> (if changed then fst ` set (asg_getSuccessors (ws_Graph S) n) else {})"
    "\<not> changed \<Longrightarrow> Worklist (visit_MF A S) = ns"
proof -
  let ?G = "ws_Graph S"
  let ?S = "S\<lparr>Worklist := ns, InWorklist := set ns\<rparr>"
  note take = take_spec [OF assms(1,2)]
  obtain N where N: "asg_getNode ?G n = Some N" using assms(3) by (auto simp: asg_ids_def)
  define G1 where "G1 = asg_update n (\<lambda>N. N\<lparr>Cost := c\<rparr>) ?G"
  define G2 where "G2 = asg_update n (\<lambda>N. N\<lparr>asg_State := s\<rparr>) G1"
  have pb: "(case asg_MBB N of
       Some MBB \<Rightarrow> processBlock A (mbb_instrs MBB) 0 (nodeIn A ?G n)
     | None \<Rightarrow> (0, nodeIn A ?G n)) = (c, s)"
    using out N by (auto simp: nodeOut_def nodeInstrs_def nodeMBB_def split: option.splits)
  have N1: "asg_getNode G1 n = Some (N\<lparr>Cost := c\<rparr>)" using N by (simp add: G1_def)
  have ch: "changed \<longleftrightarrow> \<not> an_equals A (asg_State N) s"
    using N by (simp add: changed_def nodeState_def)
  have sh1: "same_shape ?G G1" unfolding G1_def by (rule update_shape) simp
  have "same_shape G1 G2" unfolding G2_def by (rule update_shape) simp
  note sh2 = same_shape_trans [OF sh1 this]
  have v: "visit_MF A S =
      (if changed then addSuccs (asg_getSuccessors G2 n) (?S\<lparr>ws_Graph := G2\<rparr>) else ?S\<lparr>ws_Graph := G1\<rparr>)"
    using N N1 pb ch
    by (simp add: visit_MF_def take(1) pb [unfolded nodeIn_def] updateState_def setCost_def
        G1_def [symmetric] G2_def [symmetric] Let_def)
  have ok2: "wl_ok (?S\<lparr>ws_Graph := G2\<rparr>)" "wl_ok (?S\<lparr>ws_Graph := G1\<rparr>)"
    using take(2) by (simp_all add: wl_ok_def)
  have succ: "asg_getSuccessors G2 n = asg_getSuccessors ?G n"
    using sh2 by (simp add: same_shape_def)
  show "wl_ok (visit_MF A S)" unfolding v using addSuccs_spec [OF ok2(1)] ok2(2) by auto
  show "same_shape ?G (ws_Graph (visit_MF A S))"
    unfolding v using addSuccs_spec [OF ok2(1)] sh1 sh2 by auto
  show "set (Worklist (visit_MF A S)) =
       set ns \<union> (if changed then fst ` set (asg_getSuccessors ?G n) else {})"
    unfolding v using addSuccs_spec [OF ok2(1)] succ by auto
  show "Worklist (visit_MF A S) = ns" if "\<not> changed" unfolding v using that by simp
  have at1: "asg_getNode G1 = (\<lambda>i. if i = n then Some (N\<lparr>Cost := c\<rparr>) else asg_getNode ?G i)"
    using N by (auto simp: G1_def fun_eq_iff)
  then have at2: "asg_getNode G2 =
      (\<lambda>i. if i = n then Some (N\<lparr>Cost := c, asg_State := s\<rparr>) else asg_getNode ?G i)"
    by (auto simp: G2_def fun_eq_iff)
  have g: "ws_Graph (visit_MF A S) = (if changed then G2 else G1)"
    unfolding v using addSuccs_spec [OF ok2(1)] by auto
  show "nodeState (ws_Graph (visit_MF A S)) =
       (if changed then (nodeState ?G)(n := s) else nodeState ?G)"
    unfolding g by (auto simp: nodeState_def at1 at2 fun_eq_iff N)
  show "nodeCost (ws_Graph (visit_MF A S)) = (nodeCost ?G)(n := c)"
    unfolding g by (auto simp: nodeCost_def at1 at2 fun_eq_iff N)
qed

text \<open>The joined state depends on the states of the predecessors only.\<close>

lemma joinPreds_cong:
  assumes "asg_ids G' = asg_ids G" "\<forall>p \<in> set Ps \<inter> asg_ids G. nodeState G' p = nodeState G p"
  shows "joinPreds A G' Ps b s = joinPreds A G Ps b s"
  using assms(2)
proof (induction Ps arbitrary: b s)
  case (Cons p Ps)
  show ?case
  proof (cases "asg_getNode G p")
    case None
    then have "asg_getNode G' p = None"
      using assms(1) unfolding asg_ids_def by (metis (mono_tags, lifting) mem_Collect_eq)
    then show ?thesis using None Cons by simp
  next
    case (Some N)
    then obtain N' where N': "asg_getNode G' p = Some N'" using assms(1) by (auto simp: asg_ids_def)
    have "asg_State N' = asg_State N"
      using Cons.prems Some N' by (auto simp: nodeState_def asg_ids_def)
    then show ?thesis using Some N' Cons by simp
  qed
qed simp

lemma nodeIn_cong:
  "same_shape G G' \<Longrightarrow> (\<And>p. p \<in> set (asg_getPredecessors G n) \<Longrightarrow> nodeState G' p = nodeState G p) \<Longrightarrow>
   nodeOut A G' n = nodeOut A G n \<and> nodeIn A G' n = nodeIn A G n"
  using joinPreds_cong [of G' G "asg_getPredecessors G n" A True "an_getInitialState A"]
  by (simp add: nodeOut_def nodeIn_def same_shape_instrs) (simp add: same_shape_def)

text \<open>What the step keeps of the solver's own state.\<close>

definition solver_ok :: "'s WorklistSolver \<Rightarrow> bool" where
  "solver_ok S \<longleftrightarrow>
     wl_ok S \<and> asg_wf (ws_Graph S) \<and> set (Worklist S) \<subseteq> asg_ids (ws_Graph S) \<and>
     (\<forall>a b. asg_edge (ws_Graph S) a b \<longrightarrow> a \<in> asg_ids (ws_Graph S) \<and> b \<in> asg_ids (ws_Graph S))"

lemma asg_edge_pred: "asg_wf G \<Longrightarrow> asg_edge G a b \<longleftrightarrow> a \<in> set (asg_getPredecessors G b)"
  by (simp add: asg_wf_def)

lemma same_shape_edge: "same_shape G G' \<Longrightarrow> asg_edge G' = asg_edge G"
  by (simp add: same_shape_def asg_edge_def fun_eq_iff)

lemma visit_solver_ok:
  assumes "solver_ok S" "Worklist S = n # ns"
  shows "solver_ok (visit_MF A S)" "n \<in> asg_ids (ws_Graph S)"
proof -
  show n: "n \<in> asg_ids (ws_Graph S)" using assms by (auto simp: solver_ok_def)
  obtain c s where out: "nodeOut A (ws_Graph S) n = (c, s)" by fastforce
  have "wl_ok S" using assms by (simp add: solver_ok_def)
  note v = visit_MF_spec [OF this assms(2) n out]
  have "fst ` set (asg_getSuccessors (ws_Graph S) n) \<subseteq> asg_ids (ws_Graph S)"
    using assms(1) by (auto simp: solver_ok_def asg_edge_def)
  then show "solver_ok (visit_MF A S)"
    using assms v(1,2,5) same_shape_edge [OF v(2)]
    by (auto simp: solver_ok_def same_shape_def split: if_splits)
qed

subsection \<open>The contract of an analysis\<close>

locale analysis =
  fixes A :: "'s Analysable" and ok :: "'s \<Rightarrow> bool"
  assumes ok_init: "ok (an_getInitialState A)"
    and ok_process: "ok S \<Longrightarrow> ok (snd (an_process A S MI))"
    and ok_join: "ok S \<Longrightarrow> ok T \<Longrightarrow> ok (fst (an_join A S T))"
    and clone: "ok S \<Longrightarrow> an_clone A S = S"
begin

definition states_ok :: "'s AbstractStateGraph \<Rightarrow> bool" where
  "states_ok G \<longleftrightarrow> (\<forall>n \<in> asg_ids G. ok (nodeState G n))"

lemma ok_block: "ok S \<Longrightarrow> ok (snd (processBlock A MIs c S))"
  by (induction MIs arbitrary: c S) (auto simp: case_prod_beta ok_process)

lemma states_okD: "states_ok G \<Longrightarrow> asg_getNode G n = Some N \<Longrightarrow> ok (asg_State N)"
  by (auto simp: states_ok_def asg_ids_def nodeState_def)

lemma ok_joinPreds: "states_ok G \<Longrightarrow> ok S \<Longrightarrow> ok (joinPreds A G Ps b S)"
  by (induction Ps arbitrary: b S) (auto simp: clone ok_join states_okD split: option.splits)

lemma ok_nodeIn: "states_ok G \<Longrightarrow> ok (nodeIn A G n)"
  by (simp add: nodeIn_def ok_joinPreds ok_init)

lemma ok_nodeOut: "states_ok G \<Longrightarrow> ok (snd (nodeOut A G n))"
  by (simp add: nodeOut_def ok_block ok_nodeIn)

lemma visit_states_ok:
  assumes "solver_ok S" "states_ok (ws_Graph S)" "Worklist S \<noteq> []"
  shows "states_ok (ws_Graph (visit_MF A S))"
proof -
  obtain n ns where WL: "Worklist S = n # ns" using assms(3) by (cases "Worklist S") auto
  obtain c s where out: "nodeOut A (ws_Graph S) n = (c, s)" by fastforce
  have "wl_ok S" using assms by (simp add: solver_ok_def)
  note v = visit_MF_spec [OF this WL visit_solver_ok(2) [OF assms(1) WL] out]
  have "ok s" using ok_nodeOut [OF assms(2), of n] out by simp
  then show ?thesis
    using assms(2) v(2,3) by (simp add: states_ok_def same_shape_def)
qed

end

subsection \<open>Termination\<close>

text \<open>States only descend from the initial one, in an order the transfer and the join respect and
  in which a change costs rank.\<close>

locale descending = analysis +
  fixes le :: "'a \<Rightarrow> 'a \<Rightarrow> bool" and rank :: "'a \<Rightarrow> nat"
  assumes le_refl: "le S S"
    and le_trans: "le S T \<Longrightarrow> le T U \<Longrightarrow> le S U"
    and le_init: "ok S \<Longrightarrow> le S (an_getInitialState A)"
    and process_mono: "ok S \<Longrightarrow> ok T \<Longrightarrow> le S T \<Longrightarrow> le (snd (an_process A S MI)) (snd (an_process A T MI))"
    and join_mono: "ok S \<Longrightarrow> ok T \<Longrightarrow> ok S' \<Longrightarrow> ok T' \<Longrightarrow> le S S' \<Longrightarrow> le T T' \<Longrightarrow>
      le (fst (an_join A S T)) (fst (an_join A S' T'))"
    and rank_less: "ok S \<Longrightarrow> ok T \<Longrightarrow> le T S \<Longrightarrow> \<not> an_equals A S T \<Longrightarrow> rank T < rank S"
begin

lemma block_mono:
  "ok S \<Longrightarrow> ok T \<Longrightarrow> le S T \<Longrightarrow> le (snd (processBlock A MIs c S)) (snd (processBlock A MIs d T))"
  by (induction MIs arbitrary: c d S T) (auto simp: case_prod_beta ok_process process_mono)

definition below :: "'a AbstractStateGraph \<Rightarrow> 'a AbstractStateGraph \<Rightarrow> bool" where
  "below H G \<longleftrightarrow> (\<forall>n \<in> asg_ids G. le (nodeState H n) (nodeState G n))"

lemma joinPreds_mono:
  assumes "same_shape G H" "states_ok G" "states_ok H" "below H G"
  shows "ok S \<Longrightarrow> ok T \<Longrightarrow> le S T \<Longrightarrow> le (joinPreds A H Ps b S) (joinPreds A G Ps b T)"
proof (induction Ps arbitrary: b S T)
  case (Cons p Ps)
  show ?case
  proof (cases "p \<in> asg_ids G")
    case False
    then have "p \<notin> asg_ids G" "p \<notin> asg_ids H"
      using assms(1) by (simp_all add: same_shape_def)
    then have "asg_getNode G p = None" "asg_getNode H p = None"
      by (simp_all add: asg_ids_def)
    then show ?thesis using Cons by simp
  next
    case True
    then have "p \<in> asg_ids H" using assms(1) by (simp add: same_shape_def)
    with True obtain N M where N: "asg_getNode G p = Some N" "asg_getNode H p = Some M"
      unfolding asg_ids_def by blast
    then have "le (asg_State M) (asg_State N)" "ok (asg_State M)" "ok (asg_State N)"
      using assms True states_okD by (auto simp: below_def nodeState_def)
    then show ?thesis using N Cons by (simp add: clone ok_join join_mono)
  qed
qed simp

lemma nodeOut_mono:
  assumes "same_shape G H" "states_ok G" "states_ok H" "below H G"
  shows "le (snd (nodeOut A H n)) (snd (nodeOut A G n))"
proof -
  have "le (nodeIn A H n) (nodeIn A G n)"
    using joinPreds_mono [OF assms ok_init ok_init le_refl] assms(1)
    by (simp add: nodeIn_def same_shape_def)
  then have "le (snd (processBlock A (nodeInstrs G n) 0 (nodeIn A H n)))
      (snd (processBlock A (nodeInstrs G n) 0 (nodeIn A G n)))"
    using ok_nodeIn assms(2,3) by (intro block_mono)
  then show ?thesis using same_shape_instrs [OF assms(1)] by (simp add: nodeOut_def)
qed

text \<open>The invariant: no recomputation can climb above the state a node has.\<close>

definition falling :: "'a WorklistSolver \<Rightarrow> bool" where
  "falling S \<longleftrightarrow> solver_ok S \<and> states_ok (ws_Graph S) \<and>
     (\<forall>n \<in> asg_ids (ws_Graph S). le (snd (nodeOut A (ws_Graph S) n)) (nodeState (ws_Graph S) n))"

definition potential :: "'a WorklistSolver \<Rightarrow> nat" where
  "potential S = (\<Sum>n \<in> asg_ids (ws_Graph S). rank (nodeState (ws_Graph S) n))"

lemma asg_ids_finite: "finite (asg_ids G)"
proof -
  have "asg_ids G = dom (map_of (asg_Nodes G))" by (auto simp: asg_ids_def asg_getNode_def)
  then show ?thesis by (simp add: finite_dom_map_of)
qed

lemma falling_step:
  assumes "falling S" "Worklist S \<noteq> []"
  shows "falling (visit_MF A S) \<and>
    (visit_MF A S, S) \<in> measures [potential, \<lambda>S. length (Worklist S)]"
proof -
  let ?G = "ws_Graph S" and ?H = "ws_Graph (visit_MF A S)"
  obtain n ns where WL: "Worklist S = n # ns" using assms(2) by (cases "Worklist S") auto
  obtain c s where out: "nodeOut A ?G n = (c, s)" by fastforce
  have sok: "solver_ok S" "states_ok ?G" using assms(1) by (auto simp: falling_def)
  have n: "n \<in> asg_ids ?G" by (rule visit_solver_ok(2) [OF sok(1) WL])
  have "wl_ok S" using sok by (simp add: solver_ok_def)
  note v = visit_MF_spec [OF this WL n out]
  have Hok: "states_ok ?H" by (rule visit_states_ok [OF sok assms(2)])
  have dn: "le s (nodeState ?G n)" using assms(1) n out by (auto simp: falling_def)
  have b: "below ?H ?G" using dn le_refl v(3) by (simp add: below_def)
  have ids: "asg_ids ?H = asg_ids ?G" using v(2) by (simp add: same_shape_def)
  have "le (snd (nodeOut A ?H m)) (nodeState ?H m)" if m: "m \<in> asg_ids ?G" for m
  proof -
    have 1: "le (snd (nodeOut A ?H m)) (snd (nodeOut A ?G m))"
      by (rule nodeOut_mono [OF v(2) sok(2) Hok b])
    have 2: "le (snd (nodeOut A ?G m)) (nodeState ?G m)" using assms(1) m by (simp add: falling_def)
    show ?thesis
    proof (cases "nodeState ?H m = nodeState ?G m")
      case True
      then show ?thesis using le_trans [OF 1 2] by simp
    next
      case False
      then have "m = n" "nodeState ?H m = s" using v(3) by (auto split: if_splits)
      then show ?thesis using 1 out by simp
    qed
  qed
  then have fall: "falling (visit_MF A S)"
    using visit_solver_ok(1) [OF sok(1) WL] Hok ids by (simp add: falling_def)
  have "(visit_MF A S, S) \<in> measures [potential, \<lambda>S. length (Worklist S)]"
  proof (cases "an_equals A (nodeState ?G n) s")
    case True
    then have "potential (visit_MF A S) = potential S" using v(3) ids by (simp add: potential_def)
    then show ?thesis using v(6) True WL by simp
  next
    case False
    have "ok s" using ok_nodeOut [OF sok(2), of n] out by simp
    then have r: "rank s < rank (nodeState ?G n)"
      using rank_less sok(2) n dn False by (simp add: states_ok_def)
    have "potential (visit_MF A S) < potential S"
      unfolding potential_def ids using v(3) False r n asg_ids_finite [of ?G]
      by (intro sum_strict_mono_ex1) (auto intro: less_imp_le)
    then show ?thesis by simp
  qed
  with fall show ?thesis by blast
qed

lemma loop_terminates: "falling S \<Longrightarrow> \<exists>S'. loop_MF A S = Some S'"
  by (rule loop_MF_ends [OF wf_measures falling_step])

end

subsection \<open>Soundness\<close>

text \<open>The analysis describes real states, and charges an instruction at least what it costs as long
  as the charge cannot wrap around.\<close>

inductive block_exec ::
  "(MachineInstr \<Rightarrow> 'c \<Rightarrow> nat \<Rightarrow> 'c \<Rightarrow> bool) \<Rightarrow> MachineInstr list \<Rightarrow> 'c \<Rightarrow> nat \<Rightarrow> 'c \<Rightarrow> bool"
  for exec where
  block_end: "block_exec exec [] c 0 c"
| block_step: "exec MI c k d \<Longrightarrow> block_exec exec MIs d m e \<Longrightarrow> block_exec exec (MI # MIs) c (k + m) e"

text \<open>An execution through the graph: the nodes it visits, each with the cycles it took there.\<close>

inductive graph_exec ::
  "(MachineInstr \<Rightarrow> 'c \<Rightarrow> nat \<Rightarrow> 'c \<Rightarrow> bool) \<Rightarrow> 's AbstractStateGraph \<Rightarrow> 'c \<Rightarrow> (nat \<times> nat) list \<Rightarrow> bool"
  for exec G where
  exec_last: "block_exec exec (nodeInstrs G n) c k d \<Longrightarrow> graph_exec exec G c [(n, k)]"
| exec_edge: "block_exec exec (nodeInstrs G n) c k d \<Longrightarrow> asg_edge G n m \<Longrightarrow>
    graph_exec exec G d ((m, l) # p) \<Longrightarrow> graph_exec exec G c ((n, k) # (m, l) # p)"

locale sound_analysis = analysis +
  fixes gam :: "'a \<Rightarrow> 'c \<Rightarrow> bool" and exec :: "MachineInstr \<Rightarrow> 'c \<Rightarrow> nat \<Rightarrow> 'c \<Rightarrow> bool"
    and start :: "'c \<Rightarrow> bool" and worst :: "MachineInstr \<Rightarrow> nat"
  assumes gam_start: "start c \<Longrightarrow> gam (an_getInitialState A) c"
    and sound_process: "ok S \<Longrightarrow> gam S c \<Longrightarrow> exec MI c k d \<Longrightarrow> worst MI < 2 ^ 32 \<Longrightarrow>
      gam (snd (an_process A S MI)) d \<and> k \<le> unat (fst (an_process A S MI))"
    and charge_le: "ok S \<Longrightarrow> unat (fst (an_process A S MI)) \<le> worst MI"
    and join1: "ok S \<Longrightarrow> ok T \<Longrightarrow> gam S c \<Longrightarrow> gam (fst (an_join A S T)) c"
    and join2: "ok S \<Longrightarrow> ok T \<Longrightarrow> gam T c \<Longrightarrow> gam (fst (an_join A S T)) c"
    and gam_equals: "ok S \<Longrightarrow> ok T \<Longrightarrow> an_equals A S T \<Longrightarrow> gam T c \<Longrightarrow> gam S c"
begin

lemma block_sound:
  assumes "block_exec exec MIs c k d" "ok S" "gam S c"
    and "unat C + (\<Sum>MI\<leftarrow>MIs. worst MI) < 2 ^ 32"
  shows "gam (snd (processBlock A MIs C S)) d \<and> unat C + k \<le> unat (fst (processBlock A MIs C S))"
  using assms
proof (induction arbitrary: S C rule: block_exec.induct)
  case (block_end c)
  then show ?case by simp
next
  case (block_step MI c k d MIs m e)
  let ?P = "an_process A S MI"
  have w: "worst MI < 2 ^ 32" using block_step.prems(3) by simp
  note p = sound_process [OF block_step.prems(1,2) block_step.hyps(1) w]
  have ch: "unat (fst ?P) \<le> worst MI" by (rule charge_le [OF block_step.prems(1)])
  have add: "unat (C + fst ?P) = unat C + unat (fst ?P)"
    using ch block_step.prems(3) by (simp add: unat_word_ariths)
  have "unat (C + fst ?P) + (\<Sum>MI\<leftarrow>MIs. worst MI) < 2 ^ 32"
    unfolding add using ch block_step.prems(3) by simp
  from block_step.IH [OF ok_process [OF block_step.prems(1)] conjunct1 [OF p] this] p
  show ?case unfolding add by (simp add: case_prod_beta)
qed

lemma joinPreds_sound:
  assumes "states_ok G"
  shows "ok S \<Longrightarrow> (\<not> b \<and> gam S c) \<or> (\<exists>p \<in> set Ps \<inter> asg_ids G. gam (nodeState G p) c) \<Longrightarrow>
    gam (joinPreds A G Ps b S) c"
proof (induction Ps arbitrary: b S)
  case (Cons p Ps)
  show ?case
  proof (cases "asg_getNode G p")
    case None
    then have "p \<notin> asg_ids G" by (simp add: asg_ids_def)
    then show ?thesis using None Cons by simp
  next
    case (Some N)
    then have p: "p \<in> asg_ids G" "nodeState G p = asg_State N"
      by (simp_all add: asg_ids_def nodeState_def)
    have okN: "ok (asg_State N)" by (rule states_okD [OF assms Some])
    show ?thesis
    proof (cases b)
      case True
      then show ?thesis
        using Some p okN Cons.prems Cons.IH [of "asg_State N" False] by (auto simp: clone)
    next
      case False
      have "gam (fst (an_join A S (asg_State N))) c \<or> (\<exists>q \<in> set Ps \<inter> asg_ids G. gam (nodeState G q) c)"
        using Cons.prems False p okN join1 join2 by auto
      then show ?thesis
        using Some False okN Cons.prems(1) Cons.IH [of "fst (an_join A S (asg_State N))" False]
        by (auto simp: ok_join)
    qed
  qed
qed simp

lemma nodeIn_pred:
  assumes "states_ok G" "asg_wf G" "asg_edge G p n" "p \<in> asg_ids G" "gam (nodeState G p) c"
  shows "gam (nodeIn A G n) c"
  unfolding nodeIn_def
  using joinPreds_sound [OF assms(1) ok_init] assms(2-5) asg_edge_pred by blast

text \<open>The invariant: a node that is not waiting agrees with its predecessors, or none of them has
  left the initial state and it has not been looked at.\<close>

definition settled :: "'a AbstractStateGraph \<Rightarrow> nat \<Rightarrow> bool" where
  "settled G n \<longleftrightarrow>
     nodeCost G n = fst (nodeOut A G n) \<and>
     (nodeState G n = snd (nodeOut A G n) \<or> an_equals A (nodeState G n) (snd (nodeOut A G n)))"

definition unseen :: "nat set \<Rightarrow> 'a AbstractStateGraph \<Rightarrow> nat \<Rightarrow> bool" where
  "unseen R G n \<longleftrightarrow> n \<notin> R \<and>
     (\<forall>p \<in> set (asg_getPredecessors G n) \<inter> asg_ids G. nodeState G p = an_getInitialState A)"

definition tracked :: "nat set \<Rightarrow> 'a WorklistSolver \<Rightarrow> bool" where
  "tracked R S \<longleftrightarrow> solver_ok S \<and> states_ok (ws_Graph S) \<and>
     (\<forall>n \<in> asg_ids (ws_Graph S).
        n \<in> set (Worklist S) \<or> settled (ws_Graph S) n \<or> unseen R (ws_Graph S) n)"

lemma tracked_step:
  assumes "tracked R S" "Worklist S \<noteq> []"
  shows "tracked R (visit_MF A S)"
proof -
  let ?G = "ws_Graph S" and ?H = "ws_Graph (visit_MF A S)"
  obtain n ns where WL: "Worklist S = n # ns" using assms(2) by (cases "Worklist S") auto
  obtain c s where out: "nodeOut A ?G n = (c, s)" by fastforce
  have sok: "solver_ok S" "states_ok ?G" using assms(1) by (auto simp: tracked_def)
  have n: "n \<in> asg_ids ?G" by (rule visit_solver_ok(2) [OF sok(1) WL])
  have "wl_ok S" using sok by (simp add: solver_ok_def)
  note v = visit_MF_spec [OF this WL n out]
  have wf: "asg_wf ?G" using sok by (simp add: solver_ok_def)
  have ids: "asg_ids ?H = asg_ids ?G" using v(2) by (simp add: same_shape_def)
  have "m \<in> set (Worklist (visit_MF A S)) \<or> settled ?H m \<or> unseen R ?H m" if m: "m \<in> asg_ids ?G" for m
  proof (cases "n \<in> set (asg_getPredecessors ?G m) \<and> \<not> an_equals A (nodeState ?G n) s")
    case True
    then have "m \<in> fst ` set (asg_getSuccessors ?G n)"
      using asg_edge_pred [OF wf] by (simp add: asg_edge_def)
    then show ?thesis using v(5) True by simp
  next
    case False
    then have same: "nodeState ?H p = nodeState ?G p" if "p \<in> set (asg_getPredecessors ?G m)" for p
      using that v(3) by auto
    then have om: "nodeOut A ?H m = nodeOut A ?G m" using nodeIn_cong [OF v(2)] by blast
    have "unseen R ?G m \<Longrightarrow> unseen R ?H m"
      using same ids v(2) by (auto simp: unseen_def same_shape_def)
    moreover have "settled ?H m" if "m = n \<or> settled ?G m"
    proof (cases "m = n")
      case True
      then show ?thesis using v(3,4) om out by (simp add: settled_def)
    next
      case False
      then show ?thesis using v(3,4) om that by (simp add: settled_def)
    qed
    moreover have "m \<in> set ns \<Longrightarrow> m \<in> set (Worklist (visit_MF A S))" using v(5) by simp
    ultimately show ?thesis using assms(1) m WL by (auto simp: tracked_def)
  qed
  then show ?thesis
    using visit_solver_ok(1) [OF sok(1) WL] visit_states_ok [OF sok assms(2)] ids
    by (simp add: tracked_def)
qed

lemma tracked_loop:
  "tracked R S \<Longrightarrow> loop_MF A S = Some S' \<Longrightarrow> tracked R S' \<and> Worklist S' = []"
  using loop_MF_inv [of "tracked R" A S S'] tracked_step by blast

text \<open>The costs of a finished run, along any execution whose blocks but the last left the initial
  state.\<close>

lemma path_sound:
  assumes "graph_exec exec G c p" "p = (n, k) # q"
    and "states_ok G" "asg_wf G" "\<forall>a b. asg_edge G a b \<longrightarrow> a \<in> asg_ids G \<and> b \<in> asg_ids G"
    and "\<forall>m \<in> asg_ids G. settled G m \<or> unseen R G m"
    and "settled G n" "n \<in> asg_ids G" "gam (nodeIn A G n) c"
    and "\<forall>m \<in> fst ` set p. (\<Sum>MI\<leftarrow>nodeInstrs G m. worst MI) < 2 ^ 32"
    and "\<forall>m \<in> fst ` set (butlast p). nodeState G m \<noteq> an_getInitialState A"
  shows "\<forall>(m, l) \<in> set p. l \<le> unat (nodeCost G m)"
  using assms
proof (induction arbitrary: n k q rule: graph_exec.induct)
  case (exec_last m c l d)
  then have "m = n" "l = k" by simp_all
  have "unat 0 + k \<le> unat (fst (processBlock A (nodeInstrs G n) 0 (nodeIn A G n)))"
    using block_sound [of "nodeInstrs G n" c k d "nodeIn A G n" 0] exec_last ok_nodeIn by simp
  then show ?case
    using exec_last.prems(6) \<open>m = n\<close> \<open>l = k\<close> by (simp add: settled_def nodeOut_def)
next
  case (exec_edge m c l d m' l' p)
  then have ml: "m = n" "l = k" by simp_all
  have b: "gam (snd (nodeOut A G n)) d" "k \<le> unat (fst (nodeOut A G n))"
    using block_sound [of "nodeInstrs G n" c k d "nodeIn A G n" 0] exec_edge ok_nodeIn
    by (simp_all add: nodeOut_def)
  have "ok (nodeState G n)" using exec_edge.prems(2,7) by (simp add: states_ok_def)
  from gam_equals [OF this ok_nodeOut [OF exec_edge.prems(2)] _ b(1)]
  have st: "gam (nodeState G n) d"
    using exec_edge.prems(6) b(1) by (auto simp: settled_def)
  have ne: "nodeState G n \<noteq> an_getInitialState A" using exec_edge.prems(10) ml by simp
  have m': "m' \<in> asg_ids G" using exec_edge.hyps(2) exec_edge.prems(4) by blast
  have "n \<in> set (asg_getPredecessors G m')"
    using exec_edge.hyps(2) exec_edge.prems(3) ml asg_edge_pred by blast
  then have "settled G m'"
    using exec_edge.prems(5,7) m' ne by (auto simp: unseen_def)
  moreover have "gam (nodeIn A G m') d"
    using nodeIn_pred exec_edge.prems(2,3,7) exec_edge.hyps(2) st ml by blast
  ultimately have "\<forall>(a, l) \<in> set ((m', l') # p). l \<le> unat (nodeCost G a)"
    using exec_edge.prems m' by (intro exec_edge.IH [of m' l' p]) auto
  moreover have "k \<le> unat (nodeCost G n)" using b(2) exec_edge.prems(6) by (simp add: settled_def)
  ultimately show ?case using ml by simp
qed

end

end
