(* ===== verification/ProgramGraphInv.thy ===== *)
theory ProgramGraphInv
  imports ProgramGraph
begin

text \<open>
  The invariant of the program graph and what each operation does to it: the two edge sets of
  the nodes agree, every node is stored under its id, ids are below the counter. The effect of
  filling in a function is given block by block: the control-flow graph is embedded, with the
  latencies and bounds of the maps.
\<close>

definition succs :: "ProgramGraph \<Rightarrow> nat \<Rightarrow> nat set" where
  "succs G i = (case node_at G i of Some N \<Rightarrow> set (Successors N) | None \<Rightarrow> {})"

definition preds :: "ProgramGraph \<Rightarrow> nat \<Rightarrow> nat set" where
  "preds G i = (case node_at G i of Some N \<Rightarrow> set (Predecessors N) | None \<Rightarrow> {})"

definition node_ids :: "ProgramGraph \<Rightarrow> nat set" where
  "node_ids G = {i. node_at G i \<noteq> None}"

definition node_ok :: "nat \<Rightarrow> Node \<Rightarrow> bool" where
  "node_ok i N \<longleftrightarrow> nd_Id N = i \<and> oset_ok (Successors N) \<and> oset_ok (Predecessors N)"

definition pg_wf :: "ProgramGraph \<Rightarrow> bool" where
  "pg_wf G \<longleftrightarrow>
     omap_ok (Nodes G) \<and> NextNodeId G < 2 ^ 32 \<and>
     (\<forall>i N. node_at G i = Some N \<longrightarrow> node_ok i N \<and> i < NextNodeId G) \<and>
     (\<forall>a b. b \<in> succs G a \<longleftrightarrow> a \<in> preds G b)"

text \<open>Everything but the nodes is the same; a node is the same but for its edges.\<close>

definition frame :: "ProgramGraph \<Rightarrow> ProgramGraph \<Rightarrow> bool" where
  "frame G G' \<longleftrightarrow> G'\<lparr>Nodes := []\<rparr> = G\<lparr>Nodes := []\<rparr>"

definition node_core :: "Node \<Rightarrow> Node" where
  "node_core N = N\<lparr>Successors := [], Predecessors := []\<rparr>"

named_theorems pg_simps \<open>nodes and edges after an operation\<close>

lemma frame_refl [simp]: "frame G G"
  by (simp add: frame_def)

lemma frame_trans: "frame G G' \<Longrightarrow> frame G' G'' \<Longrightarrow> frame G G''"
  by (simp add: frame_def)

lemma frameD:
  assumes "frame G G'"
  shows "MBBToNodeMap G' = MBBToNodeMap G" "NodeToFunctionMap G' = NodeToFunctionMap G"
    "HasEntryNode G' = HasEntryNode G" "EntryNodeId G' = EntryNodeId G"
    "StartFunction G' = StartFunction G" "FunctionToEntryNodeMap G' = FunctionToEntryNodeMap G"
    "FunctionToReturnNodesMap G' = FunctionToReturnNodesMap G" "CallSites G' = CallSites G"
    "ExternalSymbolCallSites G' = ExternalSymbolCallSites G" "NextNodeId G' = NextNodeId G"
    "nodeOf G' = nodeOf G"
  using assms by (cases G; cases G'; simp add: frame_def nodeOf_def fun_eq_iff)+

lemma succs_exists: "b \<in> succs G a \<Longrightarrow> a \<in> node_ids G"
  by (auto simp: succs_def node_ids_def split: option.splits)

lemma preds_exists: "a \<in> preds G b \<Longrightarrow> b \<in> node_ids G"
  by (auto simp: preds_def node_ids_def split: option.splits)

lemma pg_wf_succs_exist: "pg_wf G \<Longrightarrow> b \<in> succs G a \<Longrightarrow> a \<in> node_ids G \<and> b \<in> node_ids G"
  using succs_exists preds_exists unfolding pg_wf_def by blast

lemma pg_wf_sym: "pg_wf G \<Longrightarrow> a \<in> preds G b \<longleftrightarrow> b \<in> succs G a"
  by (simp add: pg_wf_def)

lemma pg_wf_ids_less: "pg_wf G \<Longrightarrow> i \<in> node_ids G \<Longrightarrow> i < NextNodeId G"
  by (auto simp: pg_wf_def node_ids_def)

lemma pg_wf_empty [simp]: "pg_wf emptyPG"
  by (simp add: pg_wf_def emptyPG_def node_at_def succs_def preds_def)

subsection \<open>The elementary operations\<close>

lemma modNode_cases:
  assumes "modNode i f G = Some G'"
  obtains N where "node_at G i = Some N" "G' = G\<lparr>Nodes := omap_put i (f N) (Nodes G)\<rparr>"
  using assms by (auto simp: modNode_def bind_eq_Some_conv)

lemma modNode_frame: "modNode i f G = Some G' \<Longrightarrow> frame G G'"
  by (erule modNode_cases) (simp add: frame_def)

lemma node_at_modNode [pg_simps]:
  "modNode i f G = Some G' \<Longrightarrow>
   node_at G' j = (if j = i then map_option f (node_at G i) else node_at G j)"
  by (erule modNode_cases) (simp add: node_at_def)

lemma modNode_exists: "modNode i f G = None \<longleftrightarrow> i \<notin> node_ids G"
  by (simp add: modNode_def node_ids_def Option.bind_eq_None_conv)

lemma modNode_ids [pg_simps]: "modNode i f G = Some G' \<Longrightarrow> node_ids G' = node_ids G"
  by (auto simp: node_ids_def pg_simps)

lemma modNode_omap: "modNode i f G = Some G' \<Longrightarrow> omap_ok (Nodes G) \<Longrightarrow> omap_ok (Nodes G')"
  by (erule modNode_cases) simp

text \<open>Changing anything but the edges of a node keeps the graph well formed.\<close>

definition edge_neutral :: "(Node \<Rightarrow> Node) \<Rightarrow> bool" where
  "edge_neutral f \<longleftrightarrow>
     (\<forall>N. nd_Id (f N) = nd_Id N \<and> Successors (f N) = Successors N \<and>
          Predecessors (f N) = Predecessors N)"

lemma edge_neutral_edges:
  assumes "modNode i f G = Some G'" "edge_neutral f"
  shows "succs G' = succs G" "preds G' = preds G"
  using assms by (auto simp: succs_def preds_def pg_simps edge_neutral_def fun_eq_iff split: option.splits)

lemma edge_neutral_wf:
  assumes "modNode i f G = Some G'" "edge_neutral f" "pg_wf G"
  shows "pg_wf G'"
  using assms frameD(10) [OF modNode_frame [OF assms(1)]] modNode_omap [OF assms(1)]
  by (auto simp: pg_wf_def edge_neutral_edges [OF assms(1,2)] node_at_modNode [OF assms(1)]
      node_ok_def edge_neutral_def split: if_splits)

lemma edge_neutralI [simp]:
  "edge_neutral (\<lambda>N. N\<lparr>IsLoop := a, LowerLoopBound := l, UpperLoopBound := u\<rparr>)"
  "edge_neutral (\<lambda>N. N\<lparr>IsLoop := a, UpperLoopBound := u, LowerLoopBound := l\<rparr>)"
  "edge_neutral (\<lambda>N. N\<lparr>nd_Name := s\<rparr>)"
  "edge_neutral (\<lambda>N. N\<lparr>BackEdgePredecessors := g N\<rparr>)"
  "edge_neutral (\<lambda>N. N\<lparr>nd_State := h N\<rparr>)"
  "edge_neutral (\<lambda>N. N\<lparr>IsLoop := a, UpperLoopBound := u, BackEdgePredecessors := g N\<rparr>)"
  by (simp_all add: edge_neutral_def)

text \<open>Edges.\<close>

lemma addEdge_None: "addEdge a b G = None \<longleftrightarrow> a \<notin> node_ids G \<or> b \<notin> node_ids G"
proof -
  have "modNode a (addSuccessor b) G = Some G1 \<Longrightarrow>
      modNode b (addPredecessor a) G1 = None \<longleftrightarrow> b \<notin> node_ids G" for G1
    by (simp add: modNode_exists modNode_ids)
  then show ?thesis
    by (cases "modNode a (addSuccessor b) G")
      (auto simp: addEdge_def modNode_exists node_ids_def)
qed

lemma addEdge_ok: "a \<in> node_ids G \<Longrightarrow> b \<in> node_ids G \<Longrightarrow> \<exists>G'. addEdge a b G = Some G'"
  using addEdge_None by fastforce

lemma addEdge_ends: "addEdge a b G = Some G' \<Longrightarrow> a \<in> node_ids G \<and> b \<in> node_ids G"
  using addEdge_None [of a b G] by auto

lemma addEdge_cases:
  assumes "addEdge a b G = Some G'"
  obtains G1 where "modNode a (addSuccessor b) G = Some G1" "modNode b (addPredecessor a) G1 = Some G'"
  using assms by (auto simp: addEdge_def bind_eq_Some_conv split: if_splits)

lemma node_at_addEdge [pg_simps]:
  "addEdge a b G = Some G' \<Longrightarrow>
   node_at G' j = map_option
     (\<lambda>N. (if j = b then addPredecessor a else id) ((if j = a then addSuccessor b else id) N))
     (node_at G j)"
  by (erule addEdge_cases) (auto simp: node_at_modNode option.map_comp comp_def option.map_ident)

lemma addEdge_frame: "addEdge a b G = Some G' \<Longrightarrow> frame G G'"
  by (erule addEdge_cases) (blast intro: frame_trans modNode_frame)

lemma addEdge_edges [pg_simps]:
  assumes "addEdge a b G = Some G'"
  shows "succs G' i = (if i = a then insert b (succs G i) else succs G i)"
    and "preds G' i = (if i = b then insert a (preds G i) else preds G i)"
    and "node_ids G' = node_ids G"
    and "map_option node_core (node_at G' i) = map_option node_core (node_at G i)"
proof -
  have ex: "a \<in> node_ids G" "b \<in> node_ids G" using addEdge_ends [OF assms] by simp_all
  show "succs G' i = (if i = a then insert b (succs G i) else succs G i)"
    using ex by (auto simp: succs_def node_at_addEdge [OF assms] node_ids_def addSuccessor_def
        addPredecessor_def split: option.splits)
  show "preds G' i = (if i = b then insert a (preds G i) else preds G i)"
    using ex by (auto simp: preds_def node_at_addEdge [OF assms] node_ids_def addSuccessor_def
        addPredecessor_def split: option.splits)
  show "node_ids G' = node_ids G"
    by (simp add: node_ids_def node_at_addEdge [OF assms])
  show "map_option node_core (node_at G' i) = map_option node_core (node_at G i)"
    by (cases "node_at G i") (auto simp: node_at_addEdge [OF assms] node_core_def addSuccessor_def
        addPredecessor_def)
qed

lemma addEdge_wf [wf_intros]:
  assumes "addEdge a b G = Some G'" "pg_wf G"
  shows "pg_wf G'"
proof -
  have "omap_ok (Nodes G')"
    using assms by (auto elim!: addEdge_cases dest: modNode_omap simp: pg_wf_def)
  moreover have "NextNodeId G' = NextNodeId G"
    using addEdge_frame [OF assms(1)] by (rule frameD)
  moreover have "\<forall>i N. node_at G' i = Some N \<longrightarrow> node_ok i N \<and> i < NextNodeId G"
    using assms(2) by (auto simp: pg_wf_def node_at_addEdge [OF assms(1)] node_ok_def
        addSuccessor_def addPredecessor_def)
  moreover have "\<forall>x y. y \<in> succs G' x \<longleftrightarrow> x \<in> preds G' y"
    using assms(2) by (auto simp: pg_wf_def addEdge_edges [OF assms(1)])
  ultimately show ?thesis
    using assms(2) by (simp add: pg_wf_def)
qed

lemma removeEdge_cases:
  assumes "removeEdge a b G = Some G'"
  obtains G1 where "modNode a (\<lambda>N. snd (deleteSuccessor b N)) G = Some G1"
    "modNode b (\<lambda>N. snd (deletePredecessor a N)) G1 = Some G'"
  using assms by (auto simp: removeEdge_def bind_eq_Some_conv split: if_splits)

lemma removeEdge_ok: "a \<in> node_ids G \<Longrightarrow> b \<in> node_ids G \<Longrightarrow> \<exists>G'. removeEdge a b G = Some G'"
proof -
  assume a: "a \<in> node_ids G" and b: "b \<in> node_ids G"
  obtain G1 where G1: "modNode a (\<lambda>N. snd (deleteSuccessor b N)) G = Some G1"
    using a modNode_exists by fastforce
  then have "b \<in> node_ids G1" using b by (simp add: modNode_ids)
  then obtain G' where "modNode b (\<lambda>N. snd (deletePredecessor a N)) G1 = Some G'"
    using modNode_exists by fastforce
  with G1 show ?thesis by (simp add: removeEdge_def)
qed

lemma node_at_removeEdge [pg_simps]:
  "removeEdge a b G = Some G' \<Longrightarrow>
   node_at G' j = map_option
     (\<lambda>N. (if j = b then (\<lambda>N. snd (deletePredecessor a N)) else id)
        ((if j = a then (\<lambda>N. snd (deleteSuccessor b N)) else id) N))
     (node_at G j)"
  by (erule removeEdge_cases) (auto simp: node_at_modNode option.map_comp comp_def option.map_ident)

lemma removeEdge_frame: "removeEdge a b G = Some G' \<Longrightarrow> frame G G'"
  by (erule removeEdge_cases) (blast intro: frame_trans modNode_frame)

lemma removeEdge_edges [pg_simps]:
  assumes "removeEdge a b G = Some G'"
  shows "succs G' i = (if i = a then succs G i - {b} else succs G i)"
    and "preds G' i = (if i = b then preds G i - {a} else preds G i)"
    and "node_ids G' = node_ids G"
    and "map_option node_core (node_at G' i) = map_option node_core (node_at G i)"
  by (auto simp: succs_def preds_def node_at_removeEdge [OF assms] node_ids_def deleteSuccessor_def
      deletePredecessor_def node_core_def [abs_def] option.map_comp comp_def split: option.splits)

lemma removeEdge_wf [wf_intros]:
  assumes "removeEdge a b G = Some G'" "pg_wf G"
  shows "pg_wf G'"
proof -
  have "omap_ok (Nodes G')"
    using assms by (auto elim!: removeEdge_cases dest: modNode_omap simp: pg_wf_def)
  moreover have "NextNodeId G' = NextNodeId G"
    using removeEdge_frame [OF assms(1)] by (rule frameD)
  moreover have "\<forall>i N. node_at G' i = Some N \<longrightarrow> node_ok i N \<and> i < NextNodeId G"
    using assms(2) by (auto simp: pg_wf_def node_at_removeEdge [OF assms(1)] node_ok_def
        deleteSuccessor_def deletePredecessor_def)
  moreover have "\<forall>x y. y \<in> succs G' x \<longleftrightarrow> x \<in> preds G' y"
    using assms(2) by (auto simp: pg_wf_def removeEdge_edges [OF assms(1)])
  ultimately show ?thesis
    using assms(2) by (simp add: pg_wf_def)
qed

lemma removeNode_spec:
  assumes "pg_wf G" "i \<in> node_ids G" "succs G i = {}" "preds G i = {}"
  obtains G' where "removeNode i G = Some G'" "pg_wf G'" "frame G G'"
    "node_at G' = (node_at G)(i := None)"
proof -
  obtain N where N: "node_at G i = Some N" using assms(2) by (auto simp: node_ids_def)
  with assms(3,4) have free: "nd_isFree N" by (simp add: succs_def preds_def nd_isFree_def)
  let ?G = "G\<lparr>Nodes := omap_del i (Nodes G)\<rparr>"
  have n: "node_at ?G = (node_at G)(i := None)" by (simp add: node_at_def fun_eq_iff)
  have "succs ?G a = (if a = i then {} else succs G a)" "preds ?G a = (if a = i then {} else preds G a)" for a
    by (simp_all add: succs_def preds_def n)
  moreover have "i \<notin> succs G a" "i \<notin> preds G a" for a
    using assms(1,3,4) by (auto simp: pg_wf_def)
  ultimately have "pg_wf ?G"
    using assms(1,3,4) by (auto simp: pg_wf_def n)
  moreover have "removeNode i G = Some ?G" using N free by (simp add: removeNode_def)
  ultimately show ?thesis using that n by (simp add: frame_def)
qed

subsection \<open>A new node\<close>

lemma addNode_spec:
  assumes "pg_wf G" "NextNodeId G + 1 < 2 ^ 32" "addNode St B G = Some (i, G')"
  shows "i = NextNodeId G" "NextNodeId G' = NextNodeId G + 1"
    "node_at G' = (node_at G)(i \<mapsto> newNode i St)"
    "MBBToNodeMap G' = (case B of Some b \<Rightarrow> omap_put b i (MBBToNodeMap G) | None \<Rightarrow> MBBToNodeMap G)"
    "pg_wf G'"
proof -
  have fresh: "map_of (Nodes G) (NextNodeId G) = None"
    using assms(1) unfolding pg_wf_def node_at_def by (metis less_irrefl not_Some_eq)
  have G': "i = NextNodeId G \<and> NextNodeId G' = NextNodeId G + 1 \<and>
      Nodes G' = omap_put i (newNode i St) (Nodes G) \<and>
      MBBToNodeMap G' = (case B of Some b \<Rightarrow> omap_put b i (MBBToNodeMap G) | None \<Rightarrow> MBBToNodeMap G)"
    using assms(2,3) fresh
    by (auto simp: addNode_def Let_def omap_insert_def copyNode_def newNode_def split: if_splits option.splits)
  then show i: "i = NextNodeId G" and n: "NextNodeId G' = NextNodeId G + 1"
    and "MBBToNodeMap G' = (case B of Some b \<Rightarrow> omap_put b i (MBBToNodeMap G) | None \<Rightarrow> MBBToNodeMap G)"
    by simp_all
  show na: "node_at G' = (node_at G)(i \<mapsto> newNode i St)"
    using G' by (simp add: node_at_def fun_eq_iff)
  have "succs G' a = succs G a" "preds G' a = preds G a" for a
    using fresh i by (simp_all add: succs_def preds_def na newNode_def node_at_def)
  then show "pg_wf G'"
    using assms(1,2) G' na by (auto simp: pg_wf_def node_ok_def newNode_def less_Suc_eq)
qed

lemma addNode_ok:
  assumes "NextNodeId G + 1 < 2 ^ 32"
  shows "\<exists>G'. addNode St B G = Some (NextNodeId G, G') \<and>
    G'\<lparr>Nodes := [], NextNodeId := 0, MBBToNodeMap := []\<rparr> = G\<lparr>Nodes := [], NextNodeId := 0, MBBToNodeMap := []\<rparr>"
  using assms by (auto simp: addNode_def Let_def split: option.splits)

subsection \<open>Filling in a function\<close>

text \<open>The node the code makes of a block.\<close>

definition bodyNode :: "(ptr \<rightharpoonup> u32) \<Rightarrow> (ptr \<rightharpoonup> u32) \<Rightarrow> nat \<Rightarrow> MachineBasicBlock \<Rightarrow> Node" where
  "bodyNode Lat LB i B =
     (let lat = (case Lat (mbb_id B) of Some l \<Rightarrow> l | None \<Rightarrow> 0);
          N = (newNode i (newMuArchState lat lat))\<lparr>nd_Name := mbb_name B\<rparr>
      in case LB (mbb_id B) of
           Some b \<Rightarrow> N\<lparr>IsLoop := True, LowerLoopBound := Some 1, UpperLoopBound := Some b\<rparr>
         | None \<Rightarrow> N)"

definition frame_fill :: "ProgramGraph \<Rightarrow> ProgramGraph \<Rightarrow> bool" where
  "frame_fill G G' \<longleftrightarrow>
     G'\<lparr>Nodes := [], NextNodeId := 0, MBBToNodeMap := [], NodeToFunctionMap := []\<rparr> =
     G\<lparr>Nodes := [], NextNodeId := 0, MBBToNodeMap := [], NodeToFunctionMap := []\<rparr>"

lemma frame_fillD:
  assumes "frame_fill G G'"
  shows "HasEntryNode G' = HasEntryNode G" "EntryNodeId G' = EntryNodeId G"
    "StartFunction G' = StartFunction G" "FunctionToEntryNodeMap G' = FunctionToEntryNodeMap G"
    "FunctionToReturnNodesMap G' = FunctionToReturnNodesMap G" "CallSites G' = CallSites G"
    "ExternalSymbolCallSites G' = ExternalSymbolCallSites G"
  using assms by (cases G; cases G'; simp add: frame_fill_def)+

lemma frame_fill_trans: "frame_fill G G' \<Longrightarrow> frame_fill G' G'' \<Longrightarrow> frame_fill G G''"
  by (simp add: frame_fill_def)

lemma edges_eq_node_at:
  assumes "\<And>i. map_option Successors (node_at G' i) = map_option Successors (node_at G i)"
    and "\<And>i. map_option Predecessors (node_at G' i) = map_option Predecessors (node_at G i)"
  shows "succs G' = succs G" "preds G' = preds G"
proof -
  show "succs G' = succs G"
  proof
    fix i show "succs G' i = succs G i"
      using assms(1) [of i] by (auto simp: succs_def split: option.splits)
  qed
  show "preds G' = preds G"
  proof
    fix i show "preds G' i = preds G i"
      using assms(2) [of i] by (auto simp: preds_def split: option.splits)
  qed
qed

text \<open>One block.\<close>

lemma fillNode_step:
  assumes wf: "pg_wf G" and room: "NextNodeId G + 1 < 2 ^ 32"
  obtains G4 where
    "\<And>Bs. fillNodes F Lat LB (B # Bs) G =
       (do { (Body, Ret, G5) \<leftarrow> fillNodes F Lat LB Bs G4;
             Some (NextNodeId G # Body,
               (if mbb_isReturnBlock B then [NextNodeId G] else []) @ Ret, G5) })"
    "pg_wf G4" "frame_fill G G4" "NextNodeId G4 = NextNodeId G + 1"
    "node_at G4 = (node_at G)(NextNodeId G \<mapsto> bodyNode Lat LB (NextNodeId G) B)"
    "MBBToNodeMap G4 = omap_put (mbb_id B) (NextNodeId G) (MBBToNodeMap G)"
    "NodeToFunctionMap G4 = omap_put (NextNodeId G) F (NodeToFunctionMap G)"
proof -
  let ?i = "NextNodeId G"
  define lat where "lat = (case Lat (mbb_id B) of Some l \<Rightarrow> l | None \<Rightarrow> 0)"
  obtain G1 where G1: "addNode (newMuArchState lat lat) (Some (mbb_id B)) G = Some (?i, G1)"
    and fr: "G1\<lparr>Nodes := [], NextNodeId := 0, MBBToNodeMap := []\<rparr> =
      G\<lparr>Nodes := [], NextNodeId := 0, MBBToNodeMap := []\<rparr>"
    using addNode_ok [OF room] by blast
  note a = addNode_spec [OF wf room G1]
  define G2 where "G2 = G1\<lparr>NodeToFunctionMap := omap_put ?i F (NodeToFunctionMap G1)\<rparr>"
  have n2: "node_at G2 = node_at G1" by (simp add: G2_def node_at_def fun_eq_iff)
  have wf2: "pg_wf G2"
  proof -
    have "Nodes G2 = Nodes G1" "NextNodeId G2 = NextNodeId G1" by (simp_all add: G2_def)
    moreover have "succs G2 = succs G1" "preds G2 = preds G1"
      by (simp_all add: succs_def preds_def n2 fun_eq_iff)
    ultimately show ?thesis using a(5) by (simp add: pg_wf_def n2)
  qed
  define H where "H = (case LB (mbb_id B) of
      Some b \<Rightarrow> modNode ?i (\<lambda>N. N\<lparr>IsLoop := True, UpperLoopBound := Some b, LowerLoopBound := Some 1\<rparr>) G2
    | None \<Rightarrow> Some G2)"
  have i2: "?i \<in> node_ids G2" by (simp add: node_ids_def n2 a(3))
  obtain G3 where G3: "H = Some G3"
    using i2 modNode_exists unfolding H_def by (cases "LB (mbb_id B)") fastforce+
  have wf3: "pg_wf G3" and fr3: "frame G2 G3" and ids3: "node_ids G3 = node_ids G2"
    using G3 wf2 unfolding H_def
    by (auto split: option.splits dest: edge_neutral_wf modNode_frame modNode_ids)
  obtain G4 where G4: "modNode ?i (\<lambda>N. N\<lparr>nd_Name := mbb_name B\<rparr>) G3 = Some G4"
    using i2 ids3 modNode_exists by fastforce
  have wf4: "pg_wf G4" using edge_neutral_wf [OF G4 _ wf3] by simp
  note fr4 = frame_trans [OF fr3 modNode_frame [OF G4]]
  have "fillNodes F Lat LB (B # Bs) G =
       (do { (Body, Ret, G5) \<leftarrow> fillNodes F Lat LB Bs G4;
             Some (?i # Body, (if mbb_isReturnBlock B then [?i] else []) @ Ret, G5) })" for Bs
    using G1 G3 G4 unfolding H_def G2_def lat_def
    by (simp add: Let_def split: option.splits)
  moreover have "node_at G4 = (node_at G)(?i \<mapsto> bodyNode Lat LB ?i B)"
  proof -
    have "node_at G3 = (node_at G)(?i \<mapsto> (case LB (mbb_id B) of
        Some b \<Rightarrow> (newNode ?i (newMuArchState lat lat))
          \<lparr>IsLoop := True, UpperLoopBound := Some b, LowerLoopBound := Some 1\<rparr>
      | None \<Rightarrow> newNode ?i (newMuArchState lat lat)))"
    proof (cases "LB (mbb_id B)")
      case None
      then have "G3 = G2" using G3 by (simp add: H_def)
      with None show ?thesis by (simp add: n2 a(3))
    next
      case (Some b)
      then show ?thesis
        using G3 by (simp add: H_def fun_eq_iff node_at_modNode n2 a(3))
    qed
    then show ?thesis
      by (auto simp: fun_eq_iff node_at_modNode [OF G4] bodyNode_def Let_def lat_def newNode_def
          split: option.splits)
  qed
  moreover have "frame_fill G G4"
    using fr4 fr by (cases G; cases G1; cases G4) (simp add: frame_fill_def frame_def G2_def)
  moreover have "NextNodeId G4 = ?i + 1" "MBBToNodeMap G4 = omap_put (mbb_id B) ?i (MBBToNodeMap G)"
    "NodeToFunctionMap G4 = omap_put ?i F (NodeToFunctionMap G)"
    using frameD(1,2,10) [OF fr4] a fr
    by (cases G; cases G1; simp add: G2_def)+
  ultimately show ?thesis using that wf4 by blast
qed

text \<open>All blocks: their nodes are the next ids, in layout order.\<close>

definition filled :: "ptr \<Rightarrow> (ptr \<rightharpoonup> u32) \<Rightarrow> (ptr \<rightharpoonup> u32) \<Rightarrow> MachineBasicBlock list
    \<Rightarrow> ProgramGraph \<Rightarrow> nat list \<Rightarrow> ProgramGraph \<Rightarrow> bool" where
  "filled F Lat LB Bs G Ret G' \<longleftrightarrow>
     (let n = NextNodeId G; m = NextNodeId G + length Bs in
      set Ret = {n + k | k. k < length Bs \<and> mbb_isReturnBlock (Bs ! k)} \<and>
      pg_wf G' \<and> frame_fill G G' \<and> NextNodeId G' = m \<and>
      (\<forall>j. node_at G' j = (if n \<le> j \<and> j < m then Some (bodyNode Lat LB j (Bs ! (j - n)))
                          else node_at G j)) \<and>
      (\<forall>k < length Bs. map_of (MBBToNodeMap G') (mbb_id (Bs ! k)) = Some (n + k)) \<and>
      (\<forall>b. b \<notin> mbb_id ` set Bs \<longrightarrow> map_of (MBBToNodeMap G') b = map_of (MBBToNodeMap G) b) \<and>
      (\<forall>j. map_of (NodeToFunctionMap G') j =
         (if n \<le> j \<and> j < m then Some F else map_of (NodeToFunctionMap G) j)))"

lemma fillNodes_spec:
  assumes "pg_wf G" "distinct (map mbb_id Bs)" "NextNodeId G + length Bs < 2 ^ 32"
  shows "\<exists>Ret G'. fillNodes F Lat LB Bs G =
      Some ([NextNodeId G..<NextNodeId G + length Bs], Ret, G') \<and> filled F Lat LB Bs G Ret G'"
  using assms
proof (induction Bs arbitrary: G)
  case Nil
  then show ?case by (auto simp: frame_fill_def filled_def Let_def)
next
  case (Cons B Bs)
  have room: "NextNodeId G + 1 < 2 ^ 32" using Cons.prems(3) by simp
  let ?n = "NextNodeId G"
  obtain G4 where G4: "\<And>Bs. fillNodes F Lat LB (B # Bs) G =
       (do { (Body, Ret, G5) \<leftarrow> fillNodes F Lat LB Bs G4;
             Some (?n # Body, (if mbb_isReturnBlock B then [?n] else []) @ Ret, G5) })"
    "pg_wf G4" "frame_fill G G4" "NextNodeId G4 = ?n + 1"
    "node_at G4 = (node_at G)(?n \<mapsto> bodyNode Lat LB ?n B)"
    "MBBToNodeMap G4 = omap_put (mbb_id B) ?n (MBBToNodeMap G)"
    "NodeToFunctionMap G4 = omap_put ?n F (NodeToFunctionMap G)"
    using fillNode_step [OF Cons.prems(1) room, of F Lat LB B] by metis
  have "NextNodeId G4 + length Bs < 2 ^ 32" "distinct (map mbb_id Bs)"
    using Cons.prems G4(4) by simp_all
  from Cons.IH [OF G4(2) this(2,1)]
  obtain Ret G' where fill: "fillNodes F Lat LB Bs G4 = Some ([?n + 1..<?n + 1 + length Bs], Ret, G')"
    and IH: "filled F Lat LB Bs G4 Ret G'"
    unfolding G4(4) by blast
  note I = IH [unfolded filled_def Let_def G4(4)]
  let ?R = "(if mbb_isReturnBlock B then [?n] else []) @ Ret"
  have "fillNodes F Lat LB (B # Bs) G = Some ([?n..<?n + length (B # Bs)], ?R, G')"
  proof -
    have "[?n..<?n + length (B # Bs)] = ?n # [?n + 1..<?n + 1 + length Bs]"
      by (simp add: upt_conv_Cons del: upt_Suc)
    then show ?thesis unfolding G4(1) fill by simp
  qed
  moreover have "filled F Lat LB (B # Bs) G ?R G'"
    unfolding filled_def Let_def
  proof (intro conjI allI impI)
    show "set ?R = {?n + k |k. k < length (B # Bs) \<and> mbb_isReturnBlock ((B # Bs) ! k)}"
    proof -
      have "set Ret = {?n + 1 + k |k. k < length Bs \<and> mbb_isReturnBlock (Bs ! k)}" using I by blast
      then show ?thesis by (force simp: less_Suc_eq_0_disj)
    qed
    show "pg_wf G'" "frame_fill G G'" "NextNodeId G' = ?n + length (B # Bs)"
      using I frame_fill_trans [OF G4(3)] by auto
    show "node_at G' j = (if ?n \<le> j \<and> j < ?n + length (B # Bs)
        then Some (bodyNode Lat LB j ((B # Bs) ! (j - ?n))) else node_at G j)" for j
    proof -
      have "node_at G' j = (if ?n + 1 \<le> j \<and> j < ?n + 1 + length Bs
          then Some (bodyNode Lat LB j (Bs ! (j - (?n + 1)))) else node_at G4 j)" using I by blast
      then show ?thesis using G4(5) by (cases "j = ?n") (auto simp: nth_Cons')
    qed
    show "map_of (MBBToNodeMap G') (mbb_id ((B # Bs) ! k)) = Some (?n + k)"
      if "k < length (B # Bs)" for k
    proof (cases k)
      case 0
      have "mbb_id B \<notin> mbb_id ` set Bs" using Cons.prems(2) by simp
      then have "map_of (MBBToNodeMap G') (mbb_id B) = map_of (MBBToNodeMap G4) (mbb_id B)"
        using I by blast
      then show ?thesis using 0 G4(6) by simp
    next
      case (Suc k')
      then have "map_of (MBBToNodeMap G') (mbb_id (Bs ! k')) = Some (?n + 1 + k')"
        using I that by auto
      then show ?thesis using Suc by simp
    qed
    show "map_of (MBBToNodeMap G') b = map_of (MBBToNodeMap G) b"
      if "b \<notin> mbb_id ` set (B # Bs)" for b
    proof -
      have "map_of (MBBToNodeMap G') b = map_of (MBBToNodeMap G4) b" using I that by simp
      then show ?thesis using that G4(6) by simp
    qed
    show "map_of (NodeToFunctionMap G') j = (if ?n \<le> j \<and> j < ?n + length (B # Bs)
        then Some F else map_of (NodeToFunctionMap G) j)" for j
    proof -
      have "map_of (NodeToFunctionMap G') j = (if ?n + 1 \<le> j \<and> j < ?n + 1 + length Bs
          then Some F else map_of (NodeToFunctionMap G4) j)" using I by blast
      then show ?thesis using G4(7) by auto
    qed
  qed
  ultimately show ?case by blast
qed

end
