(* ===== verification/FunctionGraph.thy ===== *)
theory FunctionGraph
  imports ProgramGraphInv
begin

text \<open>
  Filling in a function as a whole: the edges it adds, the back edges it marks, and the
  synthetic entry and exit of the start function.
\<close>

definition backs :: "ProgramGraph \<Rightarrow> nat \<Rightarrow> nat set" where
  "backs G i = (case node_at G i of Some N \<Rightarrow> set (BackEdgePredecessors N) | None \<Rightarrow> {})"

definition node_body :: "Node \<Rightarrow> Node" where
  "node_body N = N\<lparr>Successors := [], Predecessors := [], BackEdgePredecessors := []\<rparr>"

text \<open>\<open>G'\<close> is \<open>G\<close> with more edges and marks.\<close>

definition grown ::
  "ProgramGraph \<Rightarrow> (nat \<times> nat) set \<Rightarrow> (nat \<times> nat) set \<Rightarrow> ProgramGraph \<Rightarrow> bool" where
  "grown G es bs G' \<longleftrightarrow>
     pg_wf G' \<and> frame G G' \<and> node_ids G' = node_ids G \<and>
     (\<forall>i. succs G' i = succs G i \<union> {b. (i, b) \<in> es}) \<and>
     (\<forall>i. backs G' i = backs G i \<union> {a. (a, i) \<in> bs}) \<and>
     (\<forall>i. map_option node_body (node_at G' i) = map_option node_body (node_at G i))"

lemma grown_refl: "pg_wf G \<Longrightarrow> grown G {} {} G"
  by (simp add: grown_def)

lemma grown_trans:
  "grown G es bs G1 \<Longrightarrow> grown G1 es' bs' G2 \<Longrightarrow> grown G (es \<union> es') (bs \<union> bs') G2"
  unfolding grown_def by (auto intro: frame_trans)

lemma grownD:
  assumes "grown G es bs G'"
  shows "pg_wf G'" "frame G G'" "node_ids G' = node_ids G" "nodeOf G' = nodeOf G"
  using assms frameD(11) by (auto simp: grown_def)

lemma core_body:
  assumes "map_option node_core (node_at G' i) = map_option node_core (node_at G i)"
  shows "map_option node_body (node_at G' i) = map_option node_body (node_at G i)"
    and "backs G' i = backs G i"
proof -
  have body: "node_body = (\<lambda>N. N\<lparr>BackEdgePredecessors := []\<rparr>) \<circ> node_core"
    by (simp add: fun_eq_iff node_body_def node_core_def)
  show "map_option node_body (node_at G' i) = map_option node_body (node_at G i)"
    unfolding body option.map_comp [symmetric] assms ..
  have "backs H i = (case map_option node_core (node_at H i) of
      Some N \<Rightarrow> set (BackEdgePredecessors N) | None \<Rightarrow> {})" for H
    by (simp add: backs_def node_core_def split: option.splits)
  then show "backs G' i = backs G i" by (simp only: assms)
qed

lemma addEdge_grown:
  assumes "pg_wf G" "a \<in> node_ids G" "b \<in> node_ids G"
  shows "\<exists>G'. addEdge a b G = Some G' \<and> grown G {(a, b)} {} G'"
proof -
  obtain G' where G': "addEdge a b G = Some G'" using addEdge_ok assms by blast
  note same = core_body [OF addEdge_edges(4) [OF G']]
  have "grown G {(a, b)} {} G'"
    using same addEdge_wf [OF G' assms(1)] addEdge_frame [OF G'] addEdge_edges(1,3) [OF G']
    by (auto simp: grown_def)
  with G' show ?thesis by blast
qed

lemma markBack_grown:
  assumes "pg_wf G" "b \<in> node_ids G"
  shows "\<exists>G'. modNode b (\<lambda>N. N\<lparr>BackEdgePredecessors := oset_add a (BackEdgePredecessors N)\<rparr>) G = Some G' \<and>
    grown G {} {(a, b)} G'"
proof -
  obtain G' where G': "modNode b (\<lambda>N. N\<lparr>BackEdgePredecessors := oset_add a (BackEdgePredecessors N)\<rparr>) G = Some G'"
    using assms(2) modNode_exists by fastforce
  have "backs G' i = backs G i \<union> {x. (x, i) \<in> {(a, b)}}" for i
    using assms(2) by (auto simp: backs_def node_at_modNode [OF G'] node_ids_def split: option.splits)
  moreover have "map_option node_body (node_at G' i) = map_option node_body (node_at G i)" for i
    by (cases "node_at G b") (auto simp: node_at_modNode [OF G'] node_body_def)
  ultimately have "grown G {} {(a, b)} G'"
    using edge_neutral_wf [OF G' _ assms(1)] modNode_frame [OF G'] modNode_ids [OF G']
      edge_neutral_edges(1) [OF G']
    by (auto simp: grown_def)
  with G' show ?thesis by blast
qed

subsection \<open>Entry and exit\<close>

lemma wireReturns_grown:
  assumes "pg_wf G" "set Rs \<subseteq> node_ids G" "x \<in> node_ids G"
  shows "\<exists>G'. wireReturns Rs x G = Some G' \<and> grown G (set Rs \<times> {x}) {} G'"
  using assms
proof (induction Rs arbitrary: G)
  case Nil
  then show ?case by (simp add: grown_refl)
next
  case (Cons r Rs)
  obtain G1 where G1: "addEdge r x G = Some G1" "grown G {(r, x)} {} G1"
    using addEdge_grown Cons.prems by (metis list.set_intros(1) subsetD)
  obtain G2 where G2: "wireReturns Rs x G1 = Some G2" "grown G1 (set Rs \<times> {x}) {} G2"
    using Cons.IH [of G1] Cons.prems grownD [OF G1(2)] by auto
  have "{(r, x)} \<union> set Rs \<times> {x} = set (r # Rs) \<times> {x}" by auto
  then show ?case using G1(1) G2(1) grown_trans [OF G1(2) G2(2)] by simp
qed

text \<open>The edges of the synthetic entry and exit.\<close>

definition entryExitEdges :: "nat list \<Rightarrow> nat list \<Rightarrow> nat \<Rightarrow> nat \<Rightarrow> (nat \<times> nat) set" where
  "entryExitEdges Body Ret En Xt =
     (if Body = [] then {(En, Xt)} else {(En, hd Body)}) \<union> set Ret \<times> {Xt} \<union>
     (if Body \<noteq> [] \<and> Ret = [] then {(last Body, Xt)} else {})"

lemma wireEntryExit_grown:
  assumes "pg_wf G" "set Body \<subseteq> node_ids G" "set Ret \<subseteq> node_ids G" "En \<in> node_ids G" "Xt \<in> node_ids G"
  shows "\<exists>G'. wireEntryExit Body Ret En Xt G = Some G' \<and>
    grown G (entryExitEdges Body Ret En Xt) {} G'"
proof -
  obtain G1 where G1: "(if Body \<noteq> [] then addEdge En (hd Body) G else Some G) = Some G1"
    "grown G (if Body \<noteq> [] then {(En, hd Body)} else {}) {} G1"
  proof (cases "Body = []")
    case True
    then show ?thesis using that grown_refl [OF assms(1)] by simp
  next
    case False
    then have "hd Body \<in> node_ids G" using assms(2) by auto
    with False show ?thesis using that addEdge_grown [OF assms(1,4)] by auto
  qed
  note g1 = grownD [OF G1(2)]
  obtain G2 where G2: "wireReturns Ret Xt G1 = Some G2" "grown G1 (set Ret \<times> {Xt}) {} G2"
    using wireReturns_grown [OF g1(1), of Ret Xt] assms g1(3) by auto
  note g2 = grownD [OF G2(2)]
  define L where "L = (if Body = [] then Some (En, Xt) else if Ret = [] then Some (last Body, Xt) else None)"
  obtain G3 where G3: "(if Body = [] then addEdge En Xt G2 else if Ret = [] then addEdge (last Body) Xt G2
      else Some G2) = Some G3" "grown G2 (set_option L) {} G3"
  proof -
    have "Body \<noteq> [] \<Longrightarrow> last Body \<in> node_ids G2" using assms(2) g1 g2 by auto
    moreover have "En \<in> node_ids G2" "Xt \<in> node_ids G2" using assms g1 g2 by auto
    ultimately show ?thesis
      using addEdge_grown [OF g2(1), of En Xt] addEdge_grown [OF g2(1), of "last Body" Xt]
        grown_refl [OF g2(1)] that unfolding L_def
      by (cases "Body = []"; cases "Ret = []") auto
  qed
  have "grown G (entryExitEdges Body Ret En Xt) {} G3"
    using grown_trans [OF grown_trans [OF G1(2) G2(2)] G3(2)]
    by (auto simp: L_def entryExitEdges_def insert_commute Un_assoc Un_left_commute Un_commute
        split: if_splits)
  then show ?thesis
    using G1(1) G2(1) G3(1) by (auto simp: wireEntryExit_def)
qed

text \<open>Wiring the synthetic entry and exit always succeeds on nodes of the graph and adds exactly
  the edges from the entry to the first block and from every return block to the exit; an
  empty function has its entry wired to the exit, and without a return block the last block
  stands in for one, so the exit always gets a predecessor.\<close>

lemma wireEntryExit_edges:
  assumes "pg_wf G" "set Body \<subseteq> node_ids G" "set Ret \<subseteq> set Body"
    and "En \<in> node_ids G" "Xt \<in> node_ids G"
  shows "\<exists>G'. wireEntryExit Body Ret En Xt G = Some G' \<and> pg_wf G' \<and>
    (\<forall>i. succs G' i = succs G i \<union> {b. (i, b) \<in> entryExitEdges Body Ret En Xt}) \<and>
    preds G' Xt \<noteq> {} \<and> succs G' En \<noteq> {}"
proof -
  obtain G' where G': "wireEntryExit Body Ret En Xt G = Some G'"
    "grown G (entryExitEdges Body Ret En Xt) {} G'"
    using wireEntryExit_grown [of G Body Ret En Xt] assms by auto
  have s: "succs G' i = succs G i \<union> {b. (i, b) \<in> entryExitEdges Body Ret En Xt}" for i
    using G'(2) by (simp add: grown_def)
  obtain p where p: "(p, Xt) \<in> entryExitEdges Body Ret En Xt"
  proof (cases "Ret = []")
    case True
    then show ?thesis using that by (cases "Body = []") (auto simp: entryExitEdges_def)
  next
    case False
    then show ?thesis using that [of "hd Ret"] by (simp add: entryExitEdges_def)
  qed
  then have "p \<in> preds G' Xt" using s [of p] pg_wf_sym [OF grownD(1) [OF G'(2)]] by auto
  moreover have "succs G' En \<noteq> {}" using s [of En] by (auto simp: entryExitEdges_def)
  ultimately show ?thesis using G'(1) s grownD(1) [OF G'(2)] by blast
qed

subsection \<open>Control-flow edges and back edges\<close>

text \<open>An edge closes a loop when the target heads a loop that contains the source, or when the
  loop-bound pass found it to close an irreducible one.\<close>

definition isBackEdge :: "MachineLoopInfo option \<Rightarrow> (ptr \<times> ptr) set \<Rightarrow> ptr \<times> ptr \<Rightarrow> bool" where
  "isBackEdge MLI Irr e \<longleftrightarrow>
     (\<exists>li L. MLI = Some li \<and> li (snd e) = Some L \<and> ml_header L = snd e \<and> fst e \<in> set (ml_blocks L)) \<or>
     e \<in> Irr"

definition nodeEdge :: "ProgramGraph \<Rightarrow> ptr \<times> ptr \<Rightarrow> nat \<times> nat" where
  "nodeEdge G e = (nodeOf G (fst e), nodeOf G (snd e))"

lemma fillEdge_grown:
  assumes "pg_wf G" "nodeOf G B \<in> node_ids G" "nodeOf G S \<in> node_ids G"
  shows "\<exists>G'. fillEdge MLI Irr B S G = Some G' \<and>
    grown G {nodeEdge G (B, S)} (if isBackEdge MLI Irr (B, S) then {nodeEdge G (B, S)} else {}) G'"
proof -
  let ?a = "nodeOf G B" and ?b = "nodeOf G S"
  obtain G1 where G1: "addEdge ?a ?b G = Some G1" "grown G {(?a, ?b)} {} G1"
    using addEdge_grown [OF assms] by blast
  have mark: "\<exists>H'. modNode ?b (\<lambda>N. N\<lparr>BackEdgePredecessors := oset_add ?a (BackEdgePredecessors N)\<rparr>) H = Some H' \<and>
      grown H {} {(?a, ?b)} H'" if "grown G es bs H" for es bs H
    using markBack_grown [of H ?b ?a] grownD [OF that] assms(3) by simp
  define Q where "Q \<longleftrightarrow> (\<exists>li L. MLI = Some li \<and> li S = Some L \<and> ml_header L = S \<and> B \<in> set (ml_blocks L))"
  let ?M = "modNode ?b (\<lambda>N. N\<lparr>BackEdgePredecessors := oset_add ?a (BackEdgePredecessors N)\<rparr>) G1"
  have eq: "(case MLI of Some li \<Rightarrow>
        (case li S of Some L \<Rightarrow>
           if ml_header L = S \<and> B \<in> set (ml_blocks L) then ?M else Some G1
         | None \<Rightarrow> Some G1) | None \<Rightarrow> Some G1) = (if Q then ?M else Some G1)"
    by (auto simp: Q_def split: option.splits)
  obtain G2 where G2: "(if Q then ?M else Some G1) = Some G2"
      "grown G1 {} (if Q then {(?a, ?b)} else {}) G2"
    using mark [OF G1(2)] grown_refl [OF grownD(1) [OF G1(2)]] that by (cases Q) auto
  note g2 = grown_trans [OF G1(2) G2(2)]
  obtain G3 where G3: "(if (B, S) \<in> Irr
        then modNode ?b (\<lambda>N. N\<lparr>BackEdgePredecessors := oset_add ?a (BackEdgePredecessors N)\<rparr>) G2
        else Some G2) = Some G3" "grown G2 {} (if (B, S) \<in> Irr then {(?a, ?b)} else {}) G3"
    using mark [OF g2] grown_refl [OF grownD(1) [OF g2]] that by (cases "(B, S) \<in> Irr") auto
  have "isBackEdge MLI Irr (B, S) \<longleftrightarrow> Q \<or> (B, S) \<in> Irr" by (simp add: isBackEdge_def Q_def)
  then have "grown G {(?a, ?b)} (if isBackEdge MLI Irr (B, S) then {(?a, ?b)} else {}) G3"
    using grown_trans [OF g2 G3(2)] by (auto split: if_splits)
  then show ?thesis
    using G1(1) G2(1) G3(1)
    by (cases "isBackEdge MLI Irr (B, S)") (simp_all add: fillEdge_def nodeEdge_def Let_def eq)
qed

lemma fillEdges_grown:
  assumes "pg_wf G" "\<forall>e \<in> set Es. nodeOf G (fst e) \<in> node_ids G \<and> nodeOf G (snd e) \<in> node_ids G"
  shows "\<exists>G'. fillEdges MLI Irr Es G = Some G' \<and>
    grown G (nodeEdge G ` set Es) (nodeEdge G ` {e \<in> set Es. isBackEdge MLI Irr e}) G'"
  using assms
proof (induction Es arbitrary: G)
  case Nil
  then show ?case by (simp add: grown_refl)
next
  case (Cons e Es)
  obtain B S where e: "e = (B, S)" by force
  obtain G1 where G1: "fillEdge MLI Irr B S G = Some G1"
    "grown G {nodeEdge G e} (if isBackEdge MLI Irr e then {nodeEdge G e} else {}) G1"
    using fillEdge_grown [of G B S MLI Irr] Cons.prems e by auto
  note g1 = grownD [OF G1(2)]
  have ne: "nodeEdge G1 = nodeEdge G" by (simp add: nodeEdge_def g1(4) fun_eq_iff)
  obtain G2 where G2: "fillEdges MLI Irr Es G1 = Some G2"
    "grown G1 (nodeEdge G ` set Es) (nodeEdge G ` {e \<in> set Es. isBackEdge MLI Irr e}) G2"
    using Cons.IH [of G1] g1 Cons.prems(2) ne by auto
  have "(if isBackEdge MLI Irr e then {nodeEdge G e} else {}) \<union>
      nodeEdge G ` {e \<in> set Es. isBackEdge MLI Irr e} =
      nodeEdge G ` {x \<in> set (e # Es). isBackEdge MLI Irr x}" by auto
  then show ?case
    using G1(1) G2(1) e grown_trans [OF G1(2) G2(2)] by simp
qed

subsection \<open>Call sites\<close>

definition frame_calls :: "ProgramGraph \<Rightarrow> ProgramGraph \<Rightarrow> bool" where
  "frame_calls G G' \<longleftrightarrow>
     G'\<lparr>CallSites := [], ExternalSymbolCallSites := [], FunctionToReturnNodesMap := []\<rparr> =
     G\<lparr>CallSites := [], ExternalSymbolCallSites := [], FunctionToReturnNodesMap := []\<rparr>"

lemma frame_calls_trans: "frame_calls G G' \<Longrightarrow> frame_calls G' G'' \<Longrightarrow> frame_calls G G''"
  by (simp add: frame_calls_def)

lemma frame_callsD:
  assumes "frame_calls G G'"
  shows "Nodes G' = Nodes G" "NextNodeId G' = NextNodeId G" "MBBToNodeMap G' = MBBToNodeMap G"
    "NodeToFunctionMap G' = NodeToFunctionMap G" "FunctionToEntryNodeMap G' = FunctionToEntryNodeMap G"
  using assms by (cases G; cases G'; simp add: frame_calls_def)+

lemma frame_calls_graph:
  assumes "frame_calls G G'"
  shows "node_at G' = node_at G" "succs G' = succs G" "backs G' = backs G" "nodeOf G' = nodeOf G"
    "pg_wf G' = pg_wf G" "node_ids G' = node_ids G" "preds G' = preds G"
proof -
  show n: "node_at G' = node_at G" "nodeOf G' = nodeOf G"
    using frame_callsD [OF assms] by (simp_all add: node_at_def nodeOf_def fun_eq_iff)
  then show "succs G' = succs G" "backs G' = backs G" "node_ids G' = node_ids G" "preds G' = preds G"
    by (simp_all add: succs_def preds_def backs_def node_ids_def fun_eq_iff)
  then show "pg_wf G' = pg_wf G"
    using n frame_callsD [OF assms] by (simp add: pg_wf_def)
qed

definition calls_ok :: "MachineFunction \<Rightarrow> bool" where
  "calls_ok MF \<longleftrightarrow>
     (\<forall>B \<in> set (mf_blocks MF). \<forall>MI \<in> set (mbb_instrs B). mi_isCall MI \<longrightarrow> mi_operands MI \<noteq> [])"

lemma captureCalls_frame:
  "\<forall>MI \<in> set MIs. mi_isCall MI \<longrightarrow> mi_operands MI \<noteq> [] \<Longrightarrow>
   \<exists>G'. captureCalls B MIs G = Some G' \<and> frame_calls G G'"
proof (induction MIs arbitrary: G)
  case (Cons MI MIs)
  have "\<exists>G1. captureCall B MI G = Some G1 \<and> frame_calls G G1"
    using Cons.prems
    by (auto simp: captureCall_def frame_calls_def Let_def split: list.splits MachineOperand.splits
        GlobalValue.splits)
  then obtain G1 where G1: "captureCall B MI G = Some G1" "frame_calls G G1" by blast
  obtain G2 where "captureCalls B MIs G1 = Some G2" "frame_calls G1 G2"
    using Cons by auto
  with G1 show ?case using frame_calls_trans by auto
qed (simp add: frame_calls_def)

lemma fillCalls_frame:
  "\<forall>B \<in> set Bs. \<forall>MI \<in> set (mbb_instrs B). mi_isCall MI \<longrightarrow> mi_operands MI \<noteq> [] \<Longrightarrow>
   \<exists>G'. fillCalls F Bs G = Some G' \<and> frame_calls G G'"
proof (induction Bs arbitrary: G)
  case (Cons B Bs)
  define G1 where "G1 = (if mbb_isReturnBlock B
      then G\<lparr>FunctionToReturnNodesMap :=
        omap_put F (omap_get [] (FunctionToReturnNodesMap G) F @ [nodeOf G (mbb_id B)])
          (FunctionToReturnNodesMap G)\<rparr> else G)"
  have G1: "frame_calls G G1" by (simp add: G1_def frame_calls_def)
  obtain G2 where G2: "captureCalls B (mbb_instrs B) G1 = Some G2" "frame_calls G1 G2"
    using captureCalls_frame Cons.prems by (metis list.set_intros(1))
  obtain G3 where "fillCalls F Bs G2 = Some G3" "frame_calls G2 G3"
    using Cons.IH [of G2] Cons.prems by auto
  then have "frame_calls G G3"
    using frame_calls_trans [OF frame_calls_trans [OF G1 G2(2)]] by simp
  with \<open>fillCalls F Bs G2 = Some G3\<close> G2(1) show ?case
    by (simp add: G1_def [symmetric] Let_def)
qed (simp add: frame_calls_def)

subsection \<open>The whole function\<close>

lemma node_at_edges:
  "node_at G' = node_at G \<Longrightarrow> succs G' = succs G"
  "node_at G' = node_at G \<Longrightarrow> preds G' = preds G"
  "node_at G' = node_at G \<Longrightarrow> backs G' = backs G"
  "node_at G' = node_at G \<Longrightarrow> node_ids G' = node_ids G"
  by (simp_all add: succs_def preds_def backs_def node_ids_def fun_eq_iff)

definition frame_entry :: "ProgramGraph \<Rightarrow> ProgramGraph \<Rightarrow> bool" where
  "frame_entry G G' \<longleftrightarrow>
     G'\<lparr>Nodes := [], NextNodeId := 0, EntryNodeId := 0, HasEntryNode := False, StartFunction := None\<rparr> =
     G\<lparr>Nodes := [], NextNodeId := 0, EntryNodeId := 0, HasEntryNode := False, StartFunction := None\<rparr>"

lemma frame_entryD:
  assumes "frame_entry G G'"
  shows "NodeToFunctionMap G' = NodeToFunctionMap G" "FunctionToEntryNodeMap G' = FunctionToEntryNodeMap G"
    "FunctionToReturnNodesMap G' = FunctionToReturnNodesMap G" "CallSites G' = CallSites G"
    "ExternalSymbolCallSites G' = ExternalSymbolCallSites G"
  using assms by (cases G; cases G'; simp add: frame_entry_def)+

lemma fillEntry_spec:
  assumes "pg_wf G" "NextNodeId G + 2 < 2 ^ 32"
  shows "\<exists>G1. fillEntry F G = Some (NextNodeId G, NextNodeId G + 1, G1) \<and> pg_wf G1 \<and>
    NextNodeId G1 = NextNodeId G + 2 \<and> MBBToNodeMap G1 = MBBToNodeMap G \<and>
    node_ids G1 = node_ids G \<union> {NextNodeId G, NextNodeId G + 1} \<and>
    succs G1 = succs G \<and> backs G1 = backs G \<and>
    (\<forall>i \<in> node_ids G. node_at G1 i = node_at G i) \<and>
    node_at G1 = (node_at G)(NextNodeId G \<mapsto> (newNode (NextNodeId G) (newMuArchState 0 0))\<lparr>nd_Name := ''Entry''\<rparr>,
      NextNodeId G + 1 \<mapsto> (newNode (NextNodeId G + 1) (newMuArchState 0 0))\<lparr>nd_Name := ''Exit''\<rparr>) \<and>
    preds G1 = preds G \<and> HasEntryNode G1 \<and> EntryNodeId G1 = NextNodeId G \<and> StartFunction G1 = Some F \<and>
    frame_entry G G1"
proof -
  let ?n = "NextNodeId G" and ?z = "newMuArchState 0 0"
  have r1: "?n + 1 < 2 ^ 32" using assms(2) by simp
  obtain A where A: "addNode ?z None G = Some (?n, A)" and fA:
      "A\<lparr>Nodes := [], NextNodeId := 0, MBBToNodeMap := []\<rparr> = G\<lparr>Nodes := [], NextNodeId := 0, MBBToNodeMap := []\<rparr>"
    using addNode_ok [OF r1] by blast
  note a = addNode_spec [OF assms(1) r1 A]
  have r2: "NextNodeId A + 1 < 2 ^ 32" using assms(2) a(2) by simp
  obtain B where B: "addNode ?z None A = Some (NextNodeId A, B)" and fB:
      "B\<lparr>Nodes := [], NextNodeId := 0, MBBToNodeMap := []\<rparr> = A\<lparr>Nodes := [], NextNodeId := 0, MBBToNodeMap := []\<rparr>"
    using addNode_ok [OF r2] by blast
  note b = addNode_spec [OF a(5) r2 B]
  have idsB: "node_ids B = node_ids G \<union> {?n, ?n + 1}"
    unfolding node_ids_def b(3) a(3) a(2) by auto
  obtain C where C: "modNode ?n (\<lambda>N. N\<lparr>nd_Name := ''Entry''\<rparr>) B = Some C"
    using idsB modNode_exists by fastforce
  have idsC: "node_ids C = node_ids B" by (rule modNode_ids [OF C])
  obtain D where D: "modNode (?n + 1) (\<lambda>N. N\<lparr>nd_Name := ''Exit''\<rparr>) C = Some D"
    using idsB idsC modNode_exists by fastforce
  define G1 where "G1 = D\<lparr>EntryNodeId := ?n, HasEntryNode := True, StartFunction := Some F\<rparr>"
  have nD: "node_at G1 = node_at D" by (simp add: G1_def node_at_def fun_eq_iff)
  have wfD: "pg_wf D"
    by (rule edge_neutral_wf [OF D _ edge_neutral_wf [OF C _ b(5)]]) simp_all
  have wf: "pg_wf G1"
    using wfD unfolding pg_wf_def node_at_edges(1,2) [OF nD] nD by (simp add: G1_def)
  have frame: "frame B D" by (rule frame_trans [OF modNode_frame [OF C] modNode_frame [OF D]])
  have fresh: "?n \<notin> node_ids G" "?n + 1 \<notin> node_ids G"
    using pg_wf_ids_less [OF assms(1)] by fastforce+
  have at: "node_at G1 i = (if i = ?n then Some ((newNode ?n ?z)\<lparr>nd_Name := ''Entry''\<rparr>)
      else if i = ?n + 1 then Some ((newNode (?n + 1) ?z)\<lparr>nd_Name := ''Exit''\<rparr>) else node_at G i)" for i
    unfolding nD node_at_modNode [OF D] node_at_modNode [OF C] b(3) a(3) a(2) by simp
  have "node_at G ?n = None" "node_at G (Suc ?n) = None" using fresh by (simp_all add: node_ids_def)
  then have "succs G1 = succs G" "backs G1 = backs G" "preds G1 = preds G"
    by (auto simp: fun_eq_iff succs_def backs_def preds_def at newNode_def)
  moreover have "node_at G1 = (node_at G)(?n \<mapsto> (newNode ?n ?z)\<lparr>nd_Name := ''Entry''\<rparr>,
      ?n + 1 \<mapsto> (newNode (?n + 1) ?z)\<lparr>nd_Name := ''Exit''\<rparr>)"
    by (simp add: fun_eq_iff at)
  moreover have "frame_entry G G1"
    using frame fA fB a(4) b(4)
    by (cases G; cases A; cases B; cases D) (simp add: frame_entry_def frame_def G1_def)
  moreover have "node_ids G1 = node_ids G \<union> {?n, ?n + 1}"
    by (auto simp: node_ids_def at)
  moreover have "fillEntry F G = Some (?n, ?n + 1, G1)"
    using A B C D a(2) by (simp add: fillEntry_def G1_def)
  moreover have "NextNodeId G1 = ?n + 2" "MBBToNodeMap G1 = MBBToNodeMap G"
    using frameD(1,10) [OF frame] a(2,4) b(2,4) by (simp_all add: G1_def)
  moreover have "HasEntryNode G1" "EntryNodeId G1 = ?n" "StartFunction G1 = Some F" by (simp_all add: G1_def)
  moreover have "\<forall>i \<in> node_ids G. node_at G1 i = node_at G i" using fresh at by auto
  ultimately show ?thesis using wf by (intro exI [of _ G1]) simp
qed

lemma mf_edges_in:
  "mf_wf MF \<Longrightarrow> e \<in> set (cfgEdges (mf_blocks MF)) \<Longrightarrow>
   fst e \<in> mbb_id ` set (mf_blocks MF) \<and> snd e \<in> mbb_id ` set (mf_blocks MF)"
  by (fastforce simp: mf_wf_def cfgEdges_def)

lemma cfgEdges_iff:
  "distinct (map mbb_id Bs) \<Longrightarrow> B \<in> set Bs \<Longrightarrow>
   (mbb_id B, S) \<in> set (cfgEdges Bs) \<longleftrightarrow> S \<in> set (mbb_succs B)"
  by (auto simp: cfgEdges_def inj_on_def distinct_map)

text \<open>What the filled graph looks like.\<close>

definition embedded :: "MachineFunction \<Rightarrow> (ptr \<rightharpoonup> u32) \<Rightarrow> (ptr \<rightharpoonup> u32) \<Rightarrow> MachineLoopInfo option
    \<Rightarrow> (ptr \<times> ptr) set \<Rightarrow> (nat \<times> nat) set \<Rightarrow> ProgramGraph \<Rightarrow> ProgramGraph \<Rightarrow> bool" where
  "embedded MF Lat LB MLI Irr extra G G' \<longleftrightarrow>
     (let v = nodeOf G'; Bs = set (mf_blocks MF); Es = set (cfgEdges (mf_blocks MF)) in
      inj_on v (mbb_id ` Bs) \<and>
      (\<forall>B \<in> Bs. v (mbb_id B) \<in> node_ids G' - node_ids G \<and>
         map_option node_body (node_at G' (v (mbb_id B))) =
           Some (bodyNode Lat LB (v (mbb_id B)) B) \<and>
         succs G' (v (mbb_id B)) = v ` set (mbb_succs B) \<union> {j. (v (mbb_id B), j) \<in> extra} \<and>
         backs G' (v (mbb_id B)) = {v A | A. (A, mbb_id B) \<in> Es \<and> isBackEdge MLI Irr (A, mbb_id B)}) \<and>
      (\<forall>i \<in> node_ids G. succs G' i = succs G i \<and> backs G' i = backs G i \<and>
         map_option node_body (node_at G' i) = map_option node_body (node_at G i)))"

lemma fill_start:
  assumes "pg_wf G" "NextNodeId G + 2 < 2 ^ 32"
  shows "\<exists>En Xt G1. (if e then fillEntry F G else Some (0, 0, G)) = Some (En, Xt, G1) \<and> pg_wf G1 \<and>
    NextNodeId G \<le> NextNodeId G1 \<and> NextNodeId G1 \<le> NextNodeId G + 2 \<and>
    node_ids G1 = node_ids G \<union> (if e then {En, Xt} else {}) \<and>
    (e \<longrightarrow> En \<notin> node_ids G \<and> Xt \<notin> node_ids G) \<and>
    succs G1 = succs G \<and> backs G1 = backs G \<and> (\<forall>i \<in> node_ids G. node_at G1 i = node_at G i)"
proof (cases e)
  case True
  have "NextNodeId G \<notin> node_ids G" "NextNodeId G + 1 \<notin> node_ids G"
    using pg_wf_ids_less [OF assms(1)] by fastforce+
  then show ?thesis using True fillEntry_spec [OF assms, of F] by auto
qed (use assms in auto)

lemma filledD:
  assumes f: "filled F Lat LB Bs G Ret G'" and d: "distinct (map mbb_id Bs)" and wf: "pg_wf G"
  shows "pg_wf G'"
    and "\<And>B. B \<in> set Bs \<Longrightarrow> nodeOf G' (mbb_id B) \<in> node_ids G' - node_ids G \<and>
           node_at G' (nodeOf G' (mbb_id B)) = Some (bodyNode Lat LB (nodeOf G' (mbb_id B)) B)"
    and "inj_on (nodeOf G') (mbb_id ` set Bs)"
    and "succs G' = succs G" "backs G' = backs G"
    and "\<And>i. i \<in> node_ids G \<Longrightarrow> node_at G' i = node_at G i" "node_ids G \<subseteq> node_ids G'"
    and "set Ret \<subseteq> node_ids G'" "{NextNodeId G..<NextNodeId G + length Bs} \<subseteq> node_ids G'"
proof -
  note F = f [unfolded filled_def Let_def]
  let ?n = "NextNodeId G"
  have at: "node_at G' j = (if ?n \<le> j \<and> j < ?n + length Bs
      then Some (bodyNode Lat LB j (Bs ! (j - ?n))) else node_at G j)" for j using F by blast
  have old: "i < ?n" if "i \<in> node_ids G" for i using pg_wf_ids_less [OF wf that] .
  have none: "node_at G j = None" if "?n \<le> j" for j using old [of j] that by (cases "node_at G j") (auto simp: node_ids_def)
  show "pg_wf G'" using F by blast
  have node: "nodeOf G' (mbb_id (Bs ! k)) = ?n + k" if "k < length Bs" for k
    using F that by (simp add: nodeOf_def omap_get_def)
  show "nodeOf G' (mbb_id B) \<in> node_ids G' - node_ids G \<and>
      node_at G' (nodeOf G' (mbb_id B)) = Some (bodyNode Lat LB (nodeOf G' (mbb_id B)) B)"
    if B: "B \<in> set Bs" for B
  proof -
    obtain k where k: "k < length Bs" "B = Bs ! k" using B by (metis in_set_conv_nth)
    then have v: "nodeOf G' (mbb_id B) = ?n + k" by (simp add: node)
    have "node_at G' (?n + k) = Some (bodyNode Lat LB (?n + k) B)" using k by (simp add: at)
    moreover have "?n + k \<notin> node_ids G" using none by (simp add: node_ids_def)
    ultimately show ?thesis by (simp add: v node_ids_def)
  qed
  show "inj_on (nodeOf G') (mbb_id ` set Bs)"
    by (rule inj_onI) (auto simp: in_set_conv_nth node)
  have bn: "Successors (bodyNode Lat LB j B) = []" "BackEdgePredecessors (bodyNode Lat LB j B) = []"
    for j B by (simp_all add: bodyNode_def newNode_def Let_def split: option.splits)
  show "succs G' = succs G" "backs G' = backs G"
    by (auto simp: fun_eq_iff succs_def backs_def at bn none)
  show "node_at G' i = node_at G i" if "i \<in> node_ids G" for i using old [OF that] by (simp add: at)
  show "node_ids G \<subseteq> node_ids G'" by (auto simp: node_ids_def at)
  show range: "{?n..<?n + length Bs} \<subseteq> node_ids G'" by (auto simp: node_ids_def at)
  have "set Ret \<subseteq> {?n..<?n + length Bs}" using F by auto
  then show "set Ret \<subseteq> node_ids G'" using range by blast
qed

lemma inj_edges:
  assumes v: "inj_on v I" and P: "\<forall>x \<in> P. fst x \<in> I \<and> snd x \<in> I" and b: "b \<in> I"
  shows "{j. (j, v b) \<in> (\<lambda>x. (v (fst x), v (snd x))) ` P} = {v a | a. (a, b) \<in> P}"
    and "{j. (v b, j) \<in> (\<lambda>x. (v (fst x), v (snd x))) ` P} = {v a | a. (b, a) \<in> P}"
proof -
  have eq: "v c = v b \<longleftrightarrow> c = b" if "c \<in> I" for c
    using v b that by (auto dest: inj_onD)
  show "{j. (j, v b) \<in> (\<lambda>x. (v (fst x), v (snd x))) ` P} = {v a | a. (a, b) \<in> P}"
  proof (intro set_eqI iffI)
    fix j assume "j \<in> {j. (j, v b) \<in> (\<lambda>x. (v (fst x), v (snd x))) ` P}"
    then obtain x where x: "x \<in> P" "j = v (fst x)" "v b = v (snd x)" by auto
    then have "snd x = b" using eq P by metis
    with x show "j \<in> {v a | a. (a, b) \<in> P}" by (cases x) auto
  qed force
  show "{j. (v b, j) \<in> (\<lambda>x. (v (fst x), v (snd x))) ` P} = {v a | a. (b, a) \<in> P}"
  proof (intro set_eqI iffI)
    fix j assume "j \<in> {j. (v b, j) \<in> (\<lambda>x. (v (fst x), v (snd x))) ` P}"
    then obtain x where x: "x \<in> P" "j = v (snd x)" "v b = v (fst x)" by auto
    then have "fst x = b" using eq P by metis
    with x show "j \<in> {v a | a. (b, a) \<in> P}" by (cases x) auto
  qed force
qed

text \<open>The stages of the fill: the synthetic nodes, the nodes of the blocks, the edges of the entry
  and the exit, the edges between blocks, the entry of the function, its returns and calls.\<close>

definition setEntry :: "MachineFunction \<Rightarrow> ProgramGraph \<Rightarrow> ProgramGraph" where
  "setEntry MF G =
     (case mf_blocks MF of
        [] \<Rightarrow> G
      | B # _ \<Rightarrow> G\<lparr>FunctionToEntryNodeMap :=
            omap_put (mf_function MF) (nodeOf G (mbb_id B)) (FunctionToEntryNodeMap G)\<rparr>)"

lemma setEntry_graph:
  "node_at (setEntry MF G) = node_at G" "nodeOf (setEntry MF G) = nodeOf G"
  "pg_wf (setEntry MF G) = pg_wf G"
proof -
  show n: "node_at (setEntry MF G) = node_at G" "nodeOf (setEntry MF G) = nodeOf G"
    by (auto simp: setEntry_def node_at_def nodeOf_def fun_eq_iff split: list.splits)
  have "Nodes (setEntry MF G) = Nodes G" "NextNodeId (setEntry MF G) = NextNodeId G"
    by (auto simp: setEntry_def split: list.splits)
  then show "pg_wf (setEntry MF G) = pg_wf G"
    unfolding pg_wf_def node_at_edges(1,2) [OF n(1)] n(1) by simp
qed

definition startEdges :: "bool \<Rightarrow> nat list \<Rightarrow> nat list \<Rightarrow> nat \<Rightarrow> nat \<Rightarrow> (nat \<times> nat) set" where
  "startEdges e Body Ret En Xt = (if e then entryExitEdges Body Ret En Xt else {})"

definition blockIds :: "MachineFunction \<Rightarrow> ProgramGraph \<Rightarrow> nat list" where
  "blockIds MF G = [NextNodeId G..<NextNodeId G + length (mf_blocks MF)]"

lemma fill_stages:
  assumes wf: "pg_wf G" and mf: "mf_wf MF" and ok: "calls_ok MF"
    and room: "NextNodeId G + length (mf_blocks MF) + 2 < 2 ^ 32"
  obtains En Xt G1 Ret G2 G3 G4 G6 where
    "(if e then fillEntry (mf_function MF) G else Some (0, 0, G)) = Some (En, Xt, G1)"
    "pg_wf G1" "NextNodeId G1 \<le> NextNodeId G + 2"
    "node_ids G1 = node_ids G \<union> (if e then {En, Xt} else {})"
    "e \<longrightarrow> En \<notin> node_ids G \<and> Xt \<notin> node_ids G"
    "succs G1 = succs G" "backs G1 = backs G" "\<forall>i \<in> node_ids G. node_at G1 i = node_at G i"
    "filled (mf_function MF) Lat LB (mf_blocks MF) G1 Ret G2"
    "grown G2 (startEdges e (blockIds MF G1) Ret En Xt) {} G3"
    "grown G3 (nodeEdge G3 ` set (cfgEdges (mf_blocks MF)))
       (nodeEdge G3 ` {x \<in> set (cfgEdges (mf_blocks MF)). isBackEdge MLI Irr x}) G4"
    "fillCalls (mf_function MF) (mf_blocks MF) (setEntry MF G4) = Some G6"
    "frame_calls (setEntry MF G4) G6"
    "fillGraphWithFunction MF e Lat LB MLI Irr G = Some G6"
proof -
  let ?Bs = "mf_blocks MF" and ?F = "mf_function MF"
  have d: "distinct (map mbb_id ?Bs)" using mf by (simp add: mf_wf_def)
  have "NextNodeId G + 2 < 2 ^ 32" using room by simp
  from fill_start [OF wf this, of e ?F]
  obtain En Xt G1 where s: "(if e then fillEntry ?F G else Some (0, 0, G)) = Some (En, Xt, G1)"
    "pg_wf G1" "NextNodeId G1 \<le> NextNodeId G + 2"
    "node_ids G1 = node_ids G \<union> (if e then {En, Xt} else {})"
    "e \<longrightarrow> En \<notin> node_ids G \<and> Xt \<notin> node_ids G"
    "succs G1 = succs G" "backs G1 = backs G" "\<forall>i \<in> node_ids G. node_at G1 i = node_at G i" by blast
  have "NextNodeId G1 + length ?Bs < 2 ^ 32" using room s(3) by linarith
  from fillNodes_spec [OF s(2) d this, of ?F Lat LB]
  obtain Ret G2 where f: "fillNodes ?F Lat LB ?Bs G1 = Some (blockIds MF G1, Ret, G2)"
    "filled ?F Lat LB ?Bs G1 Ret G2"
    unfolding blockIds_def by blast
  note F = filledD [OF f(2) d s(2)]
  have ends: "e \<Longrightarrow> En \<in> node_ids G2" "e \<Longrightarrow> Xt \<in> node_ids G2" using s(4) F(7) by auto
  obtain G3 where G3: "(if e then wireEntryExit (blockIds MF G1) Ret En Xt G2 else Some G2) = Some G3"
    "grown G2 (startEdges e (blockIds MF G1) Ret En Xt) {} G3"
    using wireEntryExit_grown [OF F(1), of "blockIds MF G1" Ret En Xt] F(8,9) ends grown_refl [OF F(1)] that
    unfolding startEdges_def blockIds_def by (cases e) auto
  note g3 = grownD [OF G3(2)]
  have "nodeOf G3 b \<in> node_ids G3" if "b \<in> mbb_id ` set ?Bs" for b
    using that F(2) g3(3,4) by auto
  then have "\<forall>x \<in> set (cfgEdges ?Bs). nodeOf G3 (fst x) \<in> node_ids G3 \<and> nodeOf G3 (snd x) \<in> node_ids G3"
    using mf_edges_in [OF mf] by blast
  then obtain G4 where G4: "fillEdges MLI Irr (cfgEdges ?Bs) G3 = Some G4"
    "grown G3 (nodeEdge G3 ` set (cfgEdges ?Bs))
       (nodeEdge G3 ` {x \<in> set (cfgEdges ?Bs). isBackEdge MLI Irr x}) G4"
    using fillEdges_grown [OF g3(1), of "cfgEdges ?Bs" MLI Irr] by blast
  obtain G6 where G6: "fillCalls ?F ?Bs (setEntry MF G4) = Some G6" "frame_calls (setEntry MF G4) G6"
    using fillCalls_frame ok by (metis calls_ok_def)
  have "fillGraphWithFunction MF e Lat LB MLI Irr G = Some G6"
    using s(1) f(1) G3(1) G4(1) G6(1)
    by (simp add: fillGraphWithFunction_def setEntry_def [symmetric])
  then show ?thesis by (rule that [OF s f(2) G3(2) G4(2) G6])
qed

text \<open>What the start function gets besides: an entry that leads to its first block, an exit that its
  return blocks lead to -- its last block where none returns -- and an edge from the one to the other
  when there is no block.\<close>

definition boundaryEdges :: "MachineFunction \<Rightarrow> (ptr \<Rightarrow> nat) \<Rightarrow> nat \<Rightarrow> nat \<Rightarrow> (nat \<times> nat) set" where
  "boundaryEdges MF v En Xt =
     (case mf_blocks MF of [] \<Rightarrow> {(En, Xt)} | B # _ \<Rightarrow> {(En, v (mbb_id B))}) \<union>
     {(v (mbb_id B), Xt) | B. B \<in> set (mf_blocks MF) \<and>
        (mbb_isReturnBlock B \<or> B = last (mf_blocks MF) \<and> (\<forall>C \<in> set (mf_blocks MF). \<not> mbb_isReturnBlock C))}"

definition synthetic :: "MachineFunction \<Rightarrow> ProgramGraph \<Rightarrow> ProgramGraph \<Rightarrow> nat \<Rightarrow> nat \<Rightarrow> bool" where
  "synthetic MF G G' En Xt \<longleftrightarrow>
     En \<noteq> Xt \<and> {En, Xt} \<subseteq> node_ids G' - node_ids G - nodeOf G' ` mbb_id ` set (mf_blocks MF) \<and>
     map_option nd_Name (node_at G' En) = Some ''Entry'' \<and> map_option nd_Name (node_at G' Xt) = Some ''Exit'' \<and>
     succs G' En = {j. (En, j) \<in> boundaryEdges MF (nodeOf G') En Xt} \<and> succs G' Xt = {}"

lemma boundaryEdges_blocks:
  assumes f: "filled F Lat LB (mf_blocks MF) G Ret G'"
  shows "entryExitEdges (blockIds MF G) Ret En Xt = boundaryEdges MF (nodeOf G') En Xt"
proof -
  let ?Bs = "mf_blocks MF" and ?n = "NextNodeId G"
  have v: "nodeOf G' (mbb_id (?Bs ! k)) = ?n + k" if "k < length ?Bs" for k
    using f that by (simp add: filled_def Let_def nodeOf_def omap_get_def)
  have r: "set Ret = {?n + k | k. k < length ?Bs \<and> mbb_isReturnBlock (?Bs ! k)}"
    using f by (simp add: filled_def Let_def)
  have R: "set Ret = {nodeOf G' (mbb_id B) | B. B \<in> set ?Bs \<and> mbb_isReturnBlock B}"
  proof (intro set_eqI iffI)
    fix i assume "i \<in> set Ret"
    then obtain k where "i = ?n + k" "k < length ?Bs" "mbb_isReturnBlock (?Bs ! k)" using r by auto
    then have "i = nodeOf G' (mbb_id (?Bs ! k))" "?Bs ! k \<in> set ?Bs" "mbb_isReturnBlock (?Bs ! k)" using v by auto
    then show "i \<in> {nodeOf G' (mbb_id B) | B. B \<in> set ?Bs \<and> mbb_isReturnBlock B}" by blast
  next
    fix i assume "i \<in> {nodeOf G' (mbb_id B) | B. B \<in> set ?Bs \<and> mbb_isReturnBlock B}"
    then show "i \<in> set Ret" using v r by (auto simp: in_set_conv_nth)
  qed
  show ?thesis
  proof (cases ?Bs)
    case Nil
    then show ?thesis using R by (simp add: boundaryEdges_def entryExitEdges_def blockIds_def)
  next
    case (Cons B Bs)
    then have len: "0 < length ?Bs" "?Bs ! 0 = B" by simp_all
    then have b: "blockIds MF G \<noteq> []" "hd (blockIds MF G) = nodeOf G' (mbb_id B)"
      using v [of 0] hd_upt [of ?n "?n + length ?Bs"] by (simp_all add: blockIds_def)
    have "last (blockIds MF G) = ?n + (length ?Bs - 1)" using Cons by (simp add: blockIds_def)
    moreover have "last ?Bs = ?Bs ! (length ?Bs - 1)" using Cons by (simp add: last_conv_nth)
    ultimately have l: "last (blockIds MF G) = nodeOf G' (mbb_id (last ?Bs))"
      using v [of "length ?Bs - 1"] Cons by simp
    have e: "Ret = [] \<longleftrightarrow> (\<forall>C \<in> set ?Bs. \<not> mbb_isReturnBlock C)" using R by (auto simp flip: set_empty)
    have m: "last ?Bs \<in> set ?Bs" using Cons by simp
    have "{(nodeOf G' (mbb_id C), Xt) | C. C \<in> set ?Bs \<and>
          (mbb_isReturnBlock C \<or> C = last ?Bs \<and> (\<forall>D \<in> set ?Bs. \<not> mbb_isReturnBlock D))} =
        set Ret \<times> {Xt} \<union> (if Ret = [] then {(last (blockIds MF G), Xt)} else {})"
      unfolding R e l using m by auto
    moreover have "(case ?Bs of [] \<Rightarrow> {(En, Xt)} | B # _ \<Rightarrow> {(En, nodeOf G' (mbb_id B))}) = {(En, hd (blockIds MF G))}"
      using b(2) by (simp add: Cons)
    ultimately show ?thesis unfolding boundaryEdges_def entryExitEdges_def using b(1) by auto
  qed
qed

lemma fillGraphWithFunction_spec:
  assumes wf: "pg_wf G" and mf: "mf_wf MF" and ok: "calls_ok MF"
    and room: "NextNodeId G + length (mf_blocks MF) + 2 < 2 ^ 32"
  shows "\<exists>G' En Xt. fillGraphWithFunction MF e Lat LB MLI Irr G = Some G' \<and> pg_wf G' \<and>
    embedded MF Lat LB MLI Irr (if e then boundaryEdges MF (nodeOf G') En Xt else {}) G G' \<and>
    (e \<longrightarrow> synthetic MF G G' En Xt)"
proof -
  let ?Bs = "mf_blocks MF" and ?F = "mf_function MF"
  have d: "distinct (map mbb_id ?Bs)" using mf by (simp add: mf_wf_def)
  obtain En Xt G1 Ret G2 G3 G4 G6 where
    s: "(if e then fillEntry ?F G else Some (0, 0, G)) = Some (En, Xt, G1)"
      "pg_wf G1" "NextNodeId G1 \<le> NextNodeId G + 2"
      "node_ids G1 = node_ids G \<union> (if e then {En, Xt} else {})"
      "e \<longrightarrow> En \<notin> node_ids G \<and> Xt \<notin> node_ids G"
      "succs G1 = succs G" "backs G1 = backs G" "\<forall>i \<in> node_ids G. node_at G1 i = node_at G i"
    and f: "filled ?F Lat LB ?Bs G1 Ret G2"
    and G3: "grown G2 (startEdges e (blockIds MF G1) Ret En Xt) {} G3"
    and G4: "grown G3 (nodeEdge G3 ` set (cfgEdges ?Bs))
       (nodeEdge G3 ` {x \<in> set (cfgEdges ?Bs). isBackEdge MLI Irr x}) G4"
    and G6: "fillCalls ?F ?Bs (setEntry MF G4) = Some G6" "frame_calls (setEntry MF G4) G6"
    and run: "fillGraphWithFunction MF e Lat LB MLI Irr G = Some G6"
    by (rule fill_stages [OF assms])
  note F = filledD [OF f d s(2)]
  define Body where "Body = blockIds MF G1"
  define extra where "extra = startEdges e Body Ret En Xt"
  note G3 = G3 [folded Body_def, folded extra_def]
  note g3 = grownD [OF G3] and g4 = grownD [OF G4]
  note c6 = frame_calls_graph [OF G6(2)]
  have at6: "node_at G6 = node_at G4" "nodeOf G6 = nodeOf G2"
    using c6 setEntry_graph g3(4) g4(4) by simp_all
  note e6 = node_at_edges [OF at6(1)]
  let ?v = "nodeOf G2"
  have suc: "succs G6 i = succs G i \<union> {j. (i, j) \<in> extra} \<union>
      {j. (i, j) \<in> nodeEdge G2 ` set (cfgEdges ?Bs)}" for i
    using G3 G4 g3(4) by (auto simp: grown_def e6 F(4) s(6) nodeEdge_def)
  have bac: "backs G6 i = backs G i \<union>
      {j. (j, i) \<in> nodeEdge G2 ` {x \<in> set (cfgEdges ?Bs). isBackEdge MLI Irr x}}" for i
    using G3 G4 g3(4) by (auto simp: grown_def e6 F(5) s(7) nodeEdge_def)
  have bod: "map_option node_body (node_at G6 i) = map_option node_body (node_at G2 i)" for i
    using G3 G4 by (simp add: grown_def at6)
  have fresh: "?v b \<notin> node_ids G \<and> ?v b \<notin> node_ids G1" if b: "b \<in> mbb_id ` set ?Bs" for b
  proof -
    obtain B where "B \<in> set ?Bs" "b = mbb_id B" using b by blast
    then have "?v b \<notin> node_ids G1" using F(2) by blast
    then show ?thesis using s(4) by blast
  qed
  have oldno: "(i, j) \<notin> extra" if "i \<in> node_ids G" for i j
  proof -
    have "i \<in> node_ids G1" using that s(4) by auto
    then have "i < NextNodeId G1" using pg_wf_ids_less [OF s(2)] by blast
    then have "i \<notin> set Body" by (simp add: Body_def blockIds_def)
    moreover have "set Ret \<subseteq> set Body"
      using f by (auto simp: filled_def Let_def Body_def blockIds_def)
    moreover have "e \<Longrightarrow> i \<noteq> En" using s(5) that by auto
    ultimately show ?thesis
      using last_in_set [of Body] by (auto simp: extra_def startEdges_def entryExitEdges_def split: if_splits)
  qed
  have emb: "embedded MF Lat LB MLI Irr extra G G6"
    unfolding embedded_def Let_def at6(2)
  proof (intro conjI ballI)
    show "inj_on ?v (mbb_id ` set ?Bs)" by (rule F)
  next
    fix B assume B: "B \<in> set ?Bs"
    then have b: "mbb_id B \<in> mbb_id ` set ?Bs" by simp
    show "?v (mbb_id B) \<in> node_ids G6 - node_ids G"
      using F(2) [OF B] fresh [OF b] g3(3) g4(3) by (simp add: e6(4))
    show "map_option node_body (node_at G6 (?v (mbb_id B))) = Some (bodyNode Lat LB (?v (mbb_id B)) B)"
      unfolding bod using F(2) [OF B]
      by (simp add: node_body_def bodyNode_def newNode_def Let_def split: option.splits)
    have old: "succs G (?v (mbb_id B)) = {}" "backs G (?v (mbb_id B)) = {}"
      using fresh [OF b] by (simp_all add: succs_def backs_def node_ids_def)
    have ends: "\<forall>x \<in> set (cfgEdges ?Bs). fst x \<in> mbb_id ` set ?Bs \<and> snd x \<in> mbb_id ` set ?Bs"
      using mf_edges_in [OF mf] by blast
    then have bends: "\<forall>x \<in> {x \<in> set (cfgEdges ?Bs). isBackEdge MLI Irr x}.
        fst x \<in> mbb_id ` set ?Bs \<and> snd x \<in> mbb_id ` set ?Bs" by blast
    have ne: "nodeEdge G2 = (\<lambda>x. (?v (fst x), ?v (snd x)))" by (simp add: nodeEdge_def fun_eq_iff)
    show "succs G6 (?v (mbb_id B)) = ?v ` set (mbb_succs B) \<union> {j. (?v (mbb_id B), j) \<in> extra}"
      unfolding suc old ne inj_edges(2) [OF F(3) ends b] cfgEdges_iff [OF d B] by auto
    show "backs G6 (?v (mbb_id B)) =
        {?v A |A. (A, mbb_id B) \<in> set (cfgEdges ?Bs) \<and> isBackEdge MLI Irr (A, mbb_id B)}"
      unfolding bac old ne inj_edges(1) [OF F(3) bends b] by auto
  next
    fix i assume i: "i \<in> node_ids G"
    have no: "(i, j) \<notin> nodeEdge G2 ` set (cfgEdges ?Bs)" "(j, i) \<notin> nodeEdge G2 ` set (cfgEdges ?Bs)" for j
      using i fresh mf_edges_in [OF mf] by (fastforce simp: nodeEdge_def)+
    show "succs G6 i = succs G i" unfolding suc using no oldno [OF i] by auto
    show "backs G6 i = backs G i" unfolding bac using no by auto
    have "i \<in> node_ids G1" using i s(4) by auto
    then have "node_at G2 i = node_at G i" using F(6) s(8) i by auto
    then show "map_option node_body (node_at G6 i) = map_option node_body (node_at G i)"
      by (simp add: bod)
  qed
  have x: "extra = (if e then boundaryEdges MF (nodeOf G6) En Xt else {})"
    by (simp add: extra_def Body_def startEdges_def boundaryEdges_blocks [OF f] at6(2))
  have "synthetic MF G G6 En Xt" if e: e
  proof -
    have "NextNodeId G + 2 < 2 ^ 32" using room by simp
    then obtain H where H: "fillEntry ?F G = Some (NextNodeId G, NextNodeId G + 1, H)"
      "node_at H = (node_at G)(NextNodeId G \<mapsto> (newNode (NextNodeId G) (newMuArchState 0 0))\<lparr>nd_Name := ''Entry''\<rparr>,
        NextNodeId G + 1 \<mapsto> (newNode (NextNodeId G + 1) (newMuArchState 0 0))\<lparr>nd_Name := ''Exit''\<rparr>)"
      using fillEntry_spec [OF wf, of ?F] by blast
    then have en: "En = NextNodeId G" "Xt = NextNodeId G + 1" "H = G1" using s(1) e by auto
    have new: "En \<in> node_ids G1" "Xt \<in> node_ids G1" "En \<notin> node_ids G" "Xt \<notin> node_ids G" using s(4,5) e by auto
    then have out: "En \<notin> ?v ` mbb_id ` set ?Bs" "Xt \<notin> ?v ` mbb_id ` set ?Bs" using fresh by auto
    have name: "map_option nd_Name (node_at G6 i) = map_option nd_Name (node_at G1 i)" if "i \<in> node_ids G1" for i
    proof -
      have "nd_Name N = nd_Name (node_body N)" for N by (simp add: node_body_def)
      then have "map_option nd_Name M = map_option nd_Name (map_option node_body M)" for M
        by (cases M) auto
      then show ?thesis using bod F(6) that by metis
    qed
    have nobl: "(i, j) \<notin> nodeEdge G2 ` set (cfgEdges ?Bs)" if "i \<notin> ?v ` mbb_id ` set ?Bs" for i j
      using that mf_edges_in [OF mf] by (fastforce simp: nodeEdge_def)
    have old: "succs G i = {}" if "i \<notin> node_ids G" for i using that by (simp add: succs_def node_ids_def)
    have "succs G6 En = {j. (En, j) \<in> boundaryEdges MF (nodeOf G6) En Xt}"
      unfolding suc old [OF new(3)] using nobl [OF out(1)] x e by simp
    moreover have "succs G6 Xt = {}"
    proof -
      have "(Xt, j) \<notin> extra" for j
        using out(2) en(1,2) x e by (fastforce simp: boundaryEdges_def at6(2) split: list.splits)
      then show ?thesis unfolding suc old [OF new(4)] using nobl [OF out(2)] by simp
    qed
    moreover have "{En, Xt} \<subseteq> node_ids G6" using new(1,2) F(7) g3(3) g4(3) by (auto simp: e6(4))
    ultimately show ?thesis
      using new out name H(2) en by (simp add: synthetic_def at6(2))
  qed
  moreover have "pg_wf G6" using c6(5) g4(1) by (simp add: setEntry_graph)
  ultimately show ?thesis using run emb unfolding x by blast
qed

text \<open>C10: Filling a function into the program graph succeeds when the counter has room, keeps the
  graph well formed and embeds the function's control flow: every block gets a node of its own
  with its latency and loop bound, the successors of that node are the nodes of the block's
  successors, the marked back edges are exactly the loop-closing edges, and what was in the
  graph before keeps its edges, marks and costs. The start function gets two nodes more, named
  Entry and Exit: the first leads to its first block, its return blocks lead to the second, too (the last
  block where none returns); of a function without blocks the entry leads to the exit. Of any other
  function there are no edges but those of its blocks. Calls are of the kinds the code accepts.\<close>

theorem function_embedded:
  assumes "pg_wf G" "mf_wf MF" "calls_ok MF"
    and "NextNodeId G + length (mf_blocks MF) + 2 < 2 ^ 32"
  shows "\<exists>G' En Xt. fillGraphWithFunction MF e Lat LB MLI Irr G = Some G' \<and> pg_wf G' \<and>
    embedded MF Lat LB MLI Irr (if e then boundaryEdges MF (nodeOf G') En Xt else {}) G G' \<and>
    (e \<longrightarrow> synthetic MF G G' En Xt)"
  using assms by (rule fillGraphWithFunction_spec)

text \<open>Two blocks that branch to each other, the second a return block.\<close>

definition demo_block :: "ptr \<Rightarrow> ptr list \<Rightarrow> bool \<Rightarrow> MachineBasicBlock" where
  "demo_block b ss ret = \<lparr>mbb_id = b, mbb_name = '''', mbb_instrs = [], mbb_succs = ss,
     mbb_preds = [], mbb_isReturnBlock = ret, mbb_fallThrough = None\<rparr>"

definition demo_fun :: MachineFunction where
  "demo_fun = \<lparr>mf_function = 1, mf_name = ''f'',
     mf_blocks = [demo_block 10 [20] False, demo_block 20 [10] True]\<rparr>"

theorem function_embedded_witness:
  "\<exists>G' En Xt. fillGraphWithFunction demo_fun True (\<lambda>_. Some 3) (\<lambda>_. None) None {} emptyPG = Some G' \<and>
     pg_wf G' \<and> succs G' En = {nodeOf G' 10} \<and> succs G' (nodeOf G' 20) = {nodeOf G' 10, Xt}"
proof -
  have "mf_wf demo_fun" "calls_ok demo_fun"
    by (simp_all add: mf_wf_def calls_ok_def demo_fun_def demo_block_def)
  moreover have "NextNodeId emptyPG + length (mf_blocks demo_fun) + 2 < 2 ^ 32"
    by (simp add: emptyPG_def demo_fun_def)
  moreover have "pg_wf emptyPG" by simp
  ultimately obtain G' En Xt where G': "fillGraphWithFunction demo_fun True (\<lambda>_. Some 3) (\<lambda>_. None) None {} emptyPG = Some G'"
    "pg_wf G'" "embedded demo_fun (\<lambda>_. Some 3) (\<lambda>_. None) None {} (boundaryEdges demo_fun (nodeOf G') En Xt) emptyPG G'"
    "synthetic demo_fun emptyPG G' En Xt"
    using function_embedded [where e = True] by (metis (full_types))
  have b: "mf_blocks demo_fun = [demo_block 10 [20] False, demo_block 20 [10] True]"
    "mbb_id (demo_block i ss r) = i" "mbb_isReturnBlock (demo_block i ss r) = r" "mbb_succs (demo_block i ss r) = ss" for i ss r
    by (simp_all add: demo_fun_def demo_block_def)
  have "inj_on (nodeOf G') {10, 20}" using G'(3) by (simp add: embedded_def Let_def b)
  then have ne: "nodeOf G' 20 \<noteq> nodeOf G' 10" by (auto dest: inj_onD)
  have "B \<in> set (mf_blocks demo_fun) \<and> (mbb_isReturnBlock B \<or> B = last (mf_blocks demo_fun) \<and>
      (\<forall>C \<in> set (mf_blocks demo_fun). \<not> mbb_isReturnBlock C)) \<longleftrightarrow> B = demo_block 20 [10] True" for B
    by (auto simp: b)
  then have E: "boundaryEdges demo_fun (nodeOf G') En Xt = {(En, nodeOf G' 10), (nodeOf G' 20, Xt)}"
    unfolding boundaryEdges_def by (auto simp: b)
  have out: "En \<noteq> nodeOf G' 20" using G'(4) by (auto simp: synthetic_def b)
  have "succs G' En = {nodeOf G' 10}" using G'(4) out by (auto simp: synthetic_def E)
  moreover have "succs G' (nodeOf G' 20) = {nodeOf G' 10, Xt}"
    using G'(3) ne out by (auto simp: embedded_def Let_def b E)
  ultimately show ?thesis using G'(1,2) by blast
qed

end
