(* ===== verification/FunctionSolver.thy ===== *)
theory FunctionSolver
  imports SolverProps FunctionGraph
begin

text \<open>
  The solver on one function. The set-up gives the blocks the nodes \<open>0, 1, \<dots>\<close> in layout order,
  with the initial state everywhere and the control-flow edges of the function; with the
  lemmas of an analysis this makes the whole run of \<open>run(MachineFunction&)\<close> terminate and its
  costs sound.
\<close>

subsection \<open>The set-up\<close>

lemma update_noState:
  assumes "\<And>N. asg_State (f N) = asg_State N"
  shows "nodeState (asg_update i f G) = nodeState G"
proof (cases "asg_getNode G i")
  case None
  then show ?thesis by (simp add: asg_update_def)
next
  case (Some N)
  then show ?thesis using assms by (simp add: nodeState_def fun_eq_iff)
qed

lemma markLoop_shape: "same_shape G (markLoop MLI LB b i G)"
  by (auto simp: markLoop_def intro!: update_shape split: option.splits prod.splits)

lemma markLoop_keeps:
  "asg_NextNodeId (markLoop MLI LB b i G) = asg_NextNodeId G"
  "nodeState (markLoop MLI LB b i G) = nodeState G"
  by (auto simp: markLoop_def split: option.splits intro!: update_noState)

text \<open>What a set-up step gives the nodes from \<open>k\<close> on: the initial state, and the block they stand
  for.\<close>

definition fresh_nodes ::
  "'s Analysable \<Rightarrow> MachineBasicBlock list \<Rightarrow> nat \<Rightarrow> 's AbstractStateGraph \<Rightarrow> bool" where
  "fresh_nodes A Bs k G \<longleftrightarrow>
     (\<forall>i < length Bs. k + i \<in> asg_ids G \<and> nodeState G (k + i) = an_getInitialState A \<and>
        nodeMBB G (k + i) = Some (Bs ! i))"

lemma initNodes_spec:
  assumes "asg_wf G" "distinct (map mbb_id Bs)" "initNodes A MLI LB Bs M G = (M', G')"
  shows "asg_wf G' \<and> asg_NextNodeId G' = asg_NextNodeId G + length Bs \<and>
    asg_getSuccessors G' = asg_getSuccessors G \<and> asg_getPredecessors G' = asg_getPredecessors G \<and>
    asg_ids G' = asg_ids G \<union> {asg_NextNodeId G ..< asg_NextNodeId G + length Bs} \<and>
    fresh_nodes A Bs (asg_NextNodeId G) G' \<and>
    (\<forall>n \<in> asg_ids G. nodeState G' n = nodeState G n \<and> nodeMBB G' n = nodeMBB G n) \<and>
    (\<forall>i < length Bs. map_of M' (mbb_id (Bs ! i)) = Some (asg_NextNodeId G + i)) \<and>
    (\<forall>b. b \<notin> mbb_id ` set Bs \<longrightarrow> map_of M' b = map_of M b)"
  using assms
proof (induction Bs arbitrary: M G)
  case Nil
  then show ?case by (simp add: fresh_nodes_def)
next
  case (Cons B Bs)
  let ?k = "asg_NextNodeId G"
  define G1 where "G1 = snd (asg_addNode (an_getInitialState A) (Some B) G)"
  define G2 where "G2 = markLoop MLI LB (mbb_id B) ?k G1"
  have run: "initNodes A MLI LB Bs (omap_put (mbb_id B) ?k M) G2 = (M', G')"
    using Cons.prems(3) asg_addNode_sel(5) [of "an_getInitialState A" "Some B" G]
    by (simp add: G2_def G1_def case_prod_beta)
  have wf1: "asg_wf G1" unfolding G1_def by (rule asg_wf_addNode [OF Cons.prems(1)])
  have sh: "same_shape G1 G2" unfolding G2_def by (rule markLoop_shape)
  have wf2: "asg_wf G2" using sh wf1 by (simp add: same_shape_def)
  have next2: "asg_NextNodeId G2 = Suc ?k" by (simp add: G2_def markLoop_keeps G1_def)
  have kG: "?k \<notin> asg_ids G"
    using Cons.prems(1) by (auto simp: asg_wf_def asg_ids_def asg_getNode_def dom_def)
  have ids2: "asg_ids G2 = insert ?k (asg_ids G)"
    using sh by (auto simp: same_shape_def G1_def asg_ids_def)
  have "nodeState G2 = nodeState G1" by (simp add: G2_def markLoop_keeps)
  then have st2: "nodeState G2 n = (if n = ?k then an_getInitialState A else nodeState G n)" for n
    by (simp add: G1_def nodeState_def newASGNode_def)
  have in2: "nodeMBB G2 n = (if n = ?k then Some B else nodeMBB G n)" for n
    using sh by (simp add: same_shape_def) (simp add: G1_def nodeMBB_def newASGNode_def)
  have ed2: "asg_getSuccessors G2 = asg_getSuccessors G" "asg_getPredecessors G2 = asg_getPredecessors G"
    using sh by (simp_all add: same_shape_def G1_def)
  have d: "distinct (map mbb_id Bs)" "mbb_id B \<notin> mbb_id ` set Bs" using Cons.prems(2) by auto
  note IH = Cons.IH [OF wf2 d(1) run]
  have keep: "nodeState G' n = nodeState G n \<and> nodeMBB G' n = nodeMBB G n" if "n \<in> asg_ids G" for n
    using IH that kG by (auto simp: ids2 st2 in2)
  have k': "?k \<in> asg_ids G'" "nodeState G' ?k = an_getInitialState A" "nodeMBB G' ?k = Some B"
    using IH by (auto simp: ids2 st2 in2)
  have "fresh_nodes A (B # Bs) ?k G'"
    unfolding fresh_nodes_def
  proof (intro allI impI)
    fix i assume "i < length (B # Bs)"
    then show "?k + i \<in> asg_ids G' \<and> nodeState G' (?k + i) = an_getInitialState A \<and>
        nodeMBB G' (?k + i) = Some ((B # Bs) ! i)"
      using IH k' by (cases i) (simp_all add: fresh_nodes_def next2)
  qed
  moreover have "map_of M' (mbb_id ((B # Bs) ! i)) = Some (?k + i)" if "i < length (B # Bs)" for i
    using IH that d(2) by (cases i) (simp_all add: next2)
  moreover have "map_of M' b = map_of M b" if "b \<notin> mbb_id ` set (B # Bs)" for b
    using IH that by simp
  moreover have "asg_ids G' = asg_ids G \<union> {?k ..< ?k + length (B # Bs)}"
    using IH by (auto simp: ids2 next2)
  ultimately show ?case using IH keep by (simp add: next2 ed2)
qed

lemma initEdges_spec:
  assumes "asg_wf G"
  shows "asg_wf (initEdges MLI M Es G) \<and> asg_ids (initEdges MLI M Es G) = asg_ids G \<and>
    nodeState (initEdges MLI M Es G) = nodeState G \<and> nodeMBB (initEdges MLI M Es G) = nodeMBB G \<and>
    (\<forall>a b. asg_edge (initEdges MLI M Es G) a b \<longleftrightarrow>
       asg_edge G a b \<or> (\<exists>x \<in> set Es. a = omap_get 0 M (fst x) \<and> b = omap_get 0 M (snd x)))"
  using assms
proof (induction MLI M Es G rule: initEdges.induct)
  case (2 MLI M B S Es G)
  note IH = "2.IH" [OF asg_wf_addEdge [OF "2.prems"]]
  have "asg_ids (asg_addEdge a b m G) = asg_ids G" "nodeState (asg_addEdge a b m G) = nodeState G"
    "nodeMBB (asg_addEdge a b m G) = nodeMBB G" for a b m
    by (simp_all add: asg_ids_def nodeState_def nodeMBB_def fun_eq_iff)
  with IH show ?case by (auto simp: asg_edge_addEdge)
qed simp

text \<open>Marking exits and collecting call sites leaves the shape and the states.\<close>

lemma graph_info_shape [simp]:
  "same_shape G (G'\<lparr>FunctionReturns := r\<rparr>) = same_shape G G'"
  "same_shape G (G'\<lparr>FunctionEntries := e\<rparr>) = same_shape G G'"
  "same_shape G (G'\<lparr>asg_CallSites := cs\<rparr>) = same_shape G G'"
  "nodeState (G'\<lparr>FunctionReturns := r\<rparr>) = nodeState G'"
  "nodeState (G'\<lparr>FunctionEntries := e\<rparr>) = nodeState G'"
  "nodeState (G'\<lparr>asg_CallSites := cs\<rparr>) = nodeState G'"
  by (simp_all add: same_shape_def asg_ids_def nodeMBB_def nodeState_def asg_getNode_def
      asg_getSuccessors_def asg_getPredecessors_def asg_wf_def asg_edge_def fun_eq_iff)

lemma initExits_shape:
  "same_shape G (initExits F M Bs G) \<and> nodeState (initExits F M Bs G) = nodeState G"
proof (induction Bs arbitrary: G)
  case (Cons B Bs)
  let ?n = "omap_get 0 M (mbb_id B)"
  let ?U = "asg_update ?n (\<lambda>N. N\<lparr>IsExit := True\<rparr>) G"
  have U: "same_shape G ?U" "nodeState ?U = nodeState G"
    by (auto intro: update_shape update_noState)
  define H where "H = (if mbb_isReturnBlock B
    then ?U\<lparr>FunctionReturns := omap_put F (omap_get [] (FunctionReturns G) F @ [?n]) (FunctionReturns G)\<rparr>
    else G)"
  define K where "K = H\<lparr>asg_CallSites := asg_CallSites H @ concat (map (callSitesOf M ?n B) (mbb_instrs B))\<rparr>"
  have "same_shape G K" "nodeState K = nodeState G" using U by (simp_all add: K_def H_def)
  moreover have "initExits F M (B # Bs) G = initExits F M Bs K" by (simp add: K_def H_def Let_def)
  ultimately show ?case using Cons.IH [of K] same_shape_trans by metis
qed simp

lemma cfgEdges_nodes:
  assumes "mf_wf MF" "\<forall>i < length (mf_blocks MF). map_of M (mbb_id (mf_blocks MF ! i)) = Some i"
  shows "(\<exists>x \<in> set (cfgEdges (mf_blocks MF)). a = omap_get 0 M (fst x) \<and> b = omap_get 0 M (snd x)) \<longleftrightarrow>
    a < length (mf_blocks MF) \<and> b < length (mf_blocks MF) \<and>
    mbb_id (mf_blocks MF ! b) \<in> set (mbb_succs (mf_blocks MF ! a))"
proof
  assume "\<exists>x \<in> set (cfgEdges (mf_blocks MF)). a = omap_get 0 M (fst x) \<and> b = omap_get 0 M (snd x)"
  then obtain B S where B: "B \<in> set (mf_blocks MF)" "S \<in> set (mbb_succs B)"
    "a = omap_get 0 M (mbb_id B)" "b = omap_get 0 M S"
    by (auto simp: cfgEdges_def)
  obtain i where i: "i < length (mf_blocks MF)" "mf_blocks MF ! i = B"
    using B(1) by (auto simp: in_set_conv_nth)
  have "S \<in> mbb_id ` set (mf_blocks MF)" using assms(1) B(1,2) by (auto simp: mf_wf_def)
  then obtain j where j: "j < length (mf_blocks MF)" "mbb_id (mf_blocks MF ! j) = S"
    by (auto simp: in_set_conv_nth)
  have "a = i" "b = j" using assms(2) B(3,4) i j by (auto simp: omap_get_def)
  then show "a < length (mf_blocks MF) \<and> b < length (mf_blocks MF) \<and>
    mbb_id (mf_blocks MF ! b) \<in> set (mbb_succs (mf_blocks MF ! a))" using i j B(2) by simp
next
  assume r: "a < length (mf_blocks MF) \<and> b < length (mf_blocks MF) \<and>
    mbb_id (mf_blocks MF ! b) \<in> set (mbb_succs (mf_blocks MF ! a))"
  then have "(mbb_id (mf_blocks MF ! a), mbb_id (mf_blocks MF ! b)) \<in> set (cfgEdges (mf_blocks MF))"
    by (auto simp: cfgEdges_def)
  moreover have "a = omap_get 0 M (mbb_id (mf_blocks MF ! a))" "b = omap_get 0 M (mbb_id (mf_blocks MF ! b))"
    using r assms(2) by (simp_all add: omap_get_def)
  ultimately show "\<exists>x \<in> set (cfgEdges (mf_blocks MF)). a = omap_get 0 M (fst x) \<and> b = omap_get 0 M (snd x)"
    by force
qed

text \<open>The graph of a function: a node per block in layout order, an edge per control-flow edge.\<close>

definition mf_edge :: "MachineFunction \<Rightarrow> nat \<Rightarrow> nat \<Rightarrow> bool" where
  "mf_edge MF a b \<longleftrightarrow> a < length (mf_blocks MF) \<and> b < length (mf_blocks MF) \<and>
     mbb_id (mf_blocks MF ! b) \<in> set (mbb_succs (mf_blocks MF ! a))"

definition mirrors :: "MachineFunction \<Rightarrow> 's AbstractStateGraph \<Rightarrow> bool" where
  "mirrors MF G \<longleftrightarrow>
     asg_wf G \<and> asg_ids G = {..< length (mf_blocks MF)} \<and>
     (\<forall>i < length (mf_blocks MF). nodeMBB G i = Some (mf_blocks MF ! i)) \<and>
     asg_edge G = mf_edge MF"

lemma mirrors_instrs:
  "mirrors MF G \<Longrightarrow> i < length (mf_blocks MF) \<Longrightarrow> nodeInstrs G i = mbb_instrs (mf_blocks MF ! i)"
  by (simp add: mirrors_def nodeInstrs_def)

lemma mirrors_shape: "mirrors MF G \<Longrightarrow> same_shape G G' \<Longrightarrow> mirrors MF G'"
  using same_shape_edge [of G G'] by (simp add: mirrors_def same_shape_def)

lemma initializeGraph_MF_spec:
  fixes A :: "'a Analysable" and MLI :: "MachineLoopInfo option" and LB :: "(ptr \<rightharpoonup> u32) option"
  assumes "mf_wf MF"
  defines "S \<equiv> initializeGraph_MF A MF MLI LB newSolver"
  shows "mirrors MF (ws_Graph S)"
    "\<forall>i < length (mf_blocks MF). nodeState (ws_Graph S) i = an_getInitialState A"
    "wl_ok S" "Worklist S = (if mf_blocks MF = [] then [] else [0])"
proof -
  let ?Bs = "mf_blocks MF"
  obtain M G1 where n: "initNodes A MLI LB ?Bs [] emptyASG = (M, G1)" by fastforce
  have d: "distinct (map mbb_id ?Bs)" using assms(1) by (simp add: mf_wf_def)
  have e: "asg_ids (emptyASG :: 'a AbstractStateGraph) = {}" "asg_NextNodeId (emptyASG :: 'a AbstractStateGraph) = 0"
    by (auto simp: asg_ids_def emptyASG_def asg_getNode_def)
  note s = initNodes_spec [OF asg_wf_empty d n, unfolded e, simplified]
  define G2 where "G2 = initEdges MLI M (cfgEdges ?Bs) G1"
  note ed = initEdges_spec [of G1 MLI M "cfgEdges ?Bs", folded G2_def]
  have e2: "asg_edge G2 a b = mf_edge MF a b" for a b
  proof -
    have "\<not> asg_edge G1 a b"
      using s by (simp add: asg_edge_def) (simp add: asg_getSuccessors_def emptyASG_def omap_get_def)
    then show ?thesis using ed s cfgEdges_nodes [OF assms(1), of M a b] by (simp add: mf_edge_def)
  qed
  have m2: "mirrors MF G2" "\<forall>i < length ?Bs. nodeState G2 i = an_getInitialState A"
    using ed s e2 by (auto simp: mirrors_def fresh_nodes_def fun_eq_iff)
  define S1 where "S1 = newSolver\<lparr>ws_Graph := G2\<rparr>"
  have "mirrors MF (ws_Graph S) \<and>
      (\<forall>i < length (mf_blocks MF). nodeState (ws_Graph S) i = an_getInitialState A) \<and>
      wl_ok S \<and> Worklist S = (if mf_blocks MF = [] then [] else [0])"
  proof (cases ?Bs)
    case Nil
    then have "S = S1"
      using n by (simp add: S_def initializeGraph_MF_def newSolver_def S1_def G2_def cfgEdges_def)
    then show ?thesis using m2 Nil by (simp add: S1_def newSolver_def wl_ok_def)
  next
    case (Cons B Bs)
    have "map_of M (mbb_id B) = Some 0" using s Cons by force
    then have z: "omap_get 0 M (mbb_id B) = 0" by (simp add: omap_get_def)
    let ?U = "asg_update 0 (\<lambda>N. N\<lparr>IsEntry := True\<rparr>) G2"
    let ?V = "?U\<lparr>FunctionEntries := omap_put (mf_function MF) 0 (FunctionEntries ?U)\<rparr>"
    have U: "same_shape G2 ?V" "nodeState ?V = nodeState G2"
      by (auto intro: update_shape update_noState)
    have W: "same_shape ?V (initExits (mf_function MF) M ?Bs ?V)"
      "nodeState (initExits (mf_function MF) M ?Bs ?V) = nodeState ?V"
      using initExits_shape by blast+
    have g: "ws_Graph S = initExits (mf_function MF) M ?Bs ?V" "Worklist S = [0]" "InWorklist S = {0}"
      using n Cons z by (simp_all add: S_def initializeGraph_MF_def newSolver_def G2_def Let_def
          addToWorklist_def)
    show ?thesis
      using mirrors_shape [OF mirrors_shape [OF m2(1) U(1)] W(1)] m2(2) U(2) W(2) g Cons
      by (simp add: wl_ok_def)
  qed
  then show "mirrors MF (ws_Graph S)"
    "\<forall>i < length (mf_blocks MF). nodeState (ws_Graph S) i = an_getInitialState A"
    "wl_ok S" "Worklist S = (if mf_blocks MF = [] then [] else [0])" by blast+
qed

subsection \<open>The whole run\<close>

text \<open>An execution of the function: the blocks it visits, by position, with the cycles of each.\<close>

inductive mf_exec ::
  "(MachineInstr \<Rightarrow> 'c \<Rightarrow> nat \<Rightarrow> 'c \<Rightarrow> bool) \<Rightarrow> MachineFunction \<Rightarrow> 'c \<Rightarrow> (nat \<times> nat) list \<Rightarrow> bool"
  for exec MF where
  mf_last: "n < length (mf_blocks MF) \<Longrightarrow> block_exec exec (mbb_instrs (mf_blocks MF ! n)) c k d \<Longrightarrow>
    mf_exec exec MF c [(n, k)]"
| mf_step: "block_exec exec (mbb_instrs (mf_blocks MF ! n)) c k d \<Longrightarrow> mf_edge MF n m \<Longrightarrow>
    mf_exec exec MF d ((m, l) # p) \<Longrightarrow> mf_exec exec MF c ((n, k) # (m, l) # p)"

lemma mf_exec_graph: "mf_exec exec MF c p \<Longrightarrow> mirrors MF G \<Longrightarrow> graph_exec exec G c p"
  by (induction rule: mf_exec.induct)
    (auto simp: mirrors_def mf_edge_def nodeInstrs_def intro!: graph_exec.intros)

lemma mf_exec_in: "mf_exec exec MF c p \<Longrightarrow> p \<noteq> [] \<and> fst ` set p \<subseteq> {..< length (mf_blocks MF)}"
  by (induction rule: mf_exec.induct) (auto simp: mf_edge_def)

lemma initial_solver_ok:
  assumes "mf_wf MF"
  shows "solver_ok (initializeGraph_MF A MF MLI LB newSolver)"
  using initializeGraph_MF_spec [OF assms, of A MLI LB]
  by (auto simp: solver_ok_def mirrors_def mf_edge_def)

text \<open>Whatever the analysis, a run that ends leaves the nodes, blocks and edges of the function.\<close>

lemma run_MF_mirrors:
  assumes "mf_wf MF" "run_MF A MF MLI LB newSolver = Some S"
  shows "mirrors MF (ws_Graph S)"
proof -
  let ?S = "initializeGraph_MF A MF MLI LB newSolver"
  define Inv where "Inv T \<longleftrightarrow> solver_ok T \<and> mirrors MF (ws_Graph T)" for T :: "'a WorklistSolver"
  have "Inv ?S"
    using initial_solver_ok [OF assms(1), of A MLI LB] initializeGraph_MF_spec [OF assms(1), of A MLI LB]
    by (simp add: Inv_def)
  moreover have "Inv (visit_MF A T)" if T0: "Inv T" "Worklist T \<noteq> []" for T
  proof -
    obtain n ns where WL: "Worklist T = n # ns" using T0(2) by (cases "Worklist T") auto
    obtain c s where out: "nodeOut A (ws_Graph T) n = (c, s)" by fastforce
    have T: "solver_ok T" "wl_ok T" "mirrors MF (ws_Graph T)" using T0 by (simp_all add: Inv_def solver_ok_def)
    show ?thesis
      using visit_solver_ok [OF T(1) WL] visit_MF_spec(2) [OF T(2) WL visit_solver_ok(2) [OF T(1) WL] out]
        mirrors_shape [OF T(3)]
      by (simp add: Inv_def)
  qed
  ultimately show ?thesis
    using loop_MF_inv [of Inv A ?S S] assms(2) by (auto simp: run_MF_def Inv_def)
qed

context analysis
begin

lemma initial_states_ok: "mf_wf MF \<Longrightarrow> states_ok (ws_Graph (initializeGraph_MF A MF MLI LB newSolver))"
  using initializeGraph_MF_spec [of MF A MLI LB] ok_init by (simp add: states_ok_def mirrors_def)

end

context descending
begin

lemma run_MF_returns:
  assumes "mf_wf MF"
  shows "\<exists>S. run_MF A MF MLI LB newSolver = Some S"
proof -
  let ?S = "initializeGraph_MF A MF MLI LB newSolver"
  note i = initializeGraph_MF_spec [OF assms, of A MLI LB]
  have ok: "states_ok (ws_Graph ?S)" by (rule initial_states_ok [OF assms])
  have "falling ?S"
    using initial_solver_ok [OF assms] ok i(1,2) le_init ok_nodeOut
    by (simp add: falling_def mirrors_def)
  then show ?thesis unfolding run_MF_def by (rule loop_terminates)
qed

end

text \<open>The blocks of an execution whose charges cannot wrap around, and which leave, except the last,
  something else than the initial state.\<close>

definition no_wrap :: "(MachineInstr \<Rightarrow> nat) \<Rightarrow> MachineFunction \<Rightarrow> bool" where
  "no_wrap worst MF \<longleftrightarrow>
     (\<forall>B \<in> set (mf_blocks MF). (\<Sum>MI\<leftarrow>mbb_instrs B. worst MI) < 2 ^ 32)"

definition moves_on :: "'s Analysable \<Rightarrow> 's AbstractStateGraph \<Rightarrow> (nat \<times> nat) list \<Rightarrow> bool" where
  "moves_on A G p \<longleftrightarrow> (\<forall>m \<in> fst ` set (butlast p). nodeState G m \<noteq> an_getInitialState A)"

context sound_analysis
begin

lemma run_MF_costs:
  assumes "mf_wf MF" "\<forall>a. \<not> mf_edge MF a 0" "no_wrap worst MF"
    and "run_MF A MF MLI LB newSolver = Some S"
    and "mf_exec exec MF c p" "fst (hd p) = 0" "start c" "moves_on A (ws_Graph S) p"
  shows "\<forall>(m, l) \<in> set p. l \<le> unat (nodeCost (ws_Graph S) m)"
proof -
  let ?S = "initializeGraph_MF A MF MLI LB newSolver"
  note i = initializeGraph_MF_spec [OF assms(1), of A MLI LB]
  have p: "p \<noteq> []" "fst ` set p \<subseteq> {..< length (mf_blocks MF)}" using mf_exec_in [OF assms(5)] by auto
  then obtain k q where pq: "p = (0, k) # q" using assms(6) by (cases p) auto
  then have ne: "0 < length (mf_blocks MF)" using p(2) by auto
  define Inv where "Inv T \<longleftrightarrow> tracked {0} T \<and> mirrors MF (ws_Graph T)" for T
  have "tracked {0} ?S"
    using initial_solver_ok [OF assms(1)] initial_states_ok [OF assms(1)] i ne
    by (auto simp: tracked_def unseen_def mirrors_def)
  then have I: "Inv ?S" using i(1) by (simp add: Inv_def)
  have step: "Inv (visit_MF A T)" if T: "Inv T" "Worklist T \<noteq> []" for T
  proof -
    obtain n ns where WL: "Worklist T = n # ns" using T(2) by (cases "Worklist T") auto
    have sok: "solver_ok T" using T(1) by (simp add: Inv_def tracked_def)
    obtain c s where out: "nodeOut A (ws_Graph T) n = (c, s)" by fastforce
    have "wl_ok T" using sok by (simp add: solver_ok_def)
    note v = visit_MF_spec [OF this WL visit_solver_ok(2) [OF sok WL] out]
    have "mirrors MF (ws_Graph (visit_MF A T))"
      using mirrors_shape [OF _ v(2)] T(1) by (simp add: Inv_def)
    then show ?thesis using tracked_step T by (simp add: Inv_def)
  qed
  have fin: "Inv S" "Worklist S = []"
    using loop_MF_inv [of Inv, OF step] assms(4) I unfolding run_MF_def by blast+
  let ?G = "ws_Graph S"
  have m: "mirrors MF ?G" "states_ok ?G" "solver_ok S" using fin by (simp_all add: Inv_def tracked_def)
  have nopred: "asg_getPredecessors ?G 0 = []"
  proof -
    have e: "asg_edge ?G = mf_edge MF" and wf: "asg_wf ?G" using m(1) by (simp_all add: mirrors_def)
    have "a \<notin> set (asg_getPredecessors ?G 0)" for a
      using asg_edge_pred [OF wf, of a 0] assms(2) e by simp
    then have "set (asg_getPredecessors ?G 0) = {}" by (intro equals0I) simp
    then show ?thesis by simp
  qed
  have st: "\<forall>n \<in> asg_ids ?G. settled ?G n \<or> unseen {0} ?G n"
    using fin by (simp add: Inv_def tracked_def)
  have z: "0 \<in> asg_ids ?G" using m(1) ne by (simp add: mirrors_def)
  have gam: "gam (nodeIn A ?G 0) c" using gam_start [OF assms(7)] nopred by (simp add: nodeIn_def)
  have wrap: "\<forall>n \<in> fst ` set p. (\<Sum>MI\<leftarrow>nodeInstrs ?G n. worst MI) < 2 ^ 32"
    using assms(3) p(2) m(1) by (auto simp: no_wrap_def mirrors_instrs)
  show ?thesis
    using mf_exec_graph [OF assms(5) m(1)] pq m(2,1) m(3) st z gam wrap assms(8)
    by (intro path_sound [where n = 0 and k = k and q = q])
      (auto simp: mirrors_def solver_ok_def unseen_def moves_on_def)
qed

end

end
