(* ===== verification/CacheSafety.thy ===== *)
theory CacheSafety
  imports CacheAnalysis
begin

text \<open>
  What the cache analysis guarantees with each policy, and where it does not: the must
  direction bounds the fetch cost of an LRU cache, and of any cache at all with the policy for
  undocumented hardware; the may direction names guaranteed misses of an LRU cache only. The
  FIFO policy is exact on straight-line code from a cold cache and unsound after a join.
\<close>

lemma AgeBased_ways_valid: "isValid Geo \<Longrightarrow> AgeBased_ways (Ways Geo) = Ways Geo"
  by (auto simp: isValid_def AgeBased_ways_def)

text \<open>An address belongs to one line and one set: on a valid geometry the line of an
  address starts at the last multiple of the line size not above it, its set index is in
  range, and two addresses are given the same line exactly when they agree on that multiple.\<close>

lemma address_decomposition:
  assumes "isValid Geo"
  shows "unat (lineId Geo a) = unat a div unat (LineBytes Geo) * unat (LineBytes Geo) \<and>
    unat (setIndex Geo (lineId Geo a)) =
      unat a div unat (LineBytes Geo) mod unat (NumSets Geo) \<and>
    unat (setIndex Geo (lineId Geo a)) < unat (NumSets Geo) \<and>
    (lineId Geo a = lineId Geo b \<longleftrightarrow>
      unat a div unat (LineBytes Geo) = unat b div unat (LineBytes Geo))"
proof -
  obtain k where "unat (LineBytes Geo) = 2 ^ k" using assms by (rule isValid_pow2)
  then show ?thesis
    using assms setIndex_less [OF assms, of "lineId Geo a"]
    by (simp add: lineId_div setIndex_mod lineId_eq_iff)
qed

text \<open>Runs of a cache whose step is a function, to evaluate examples.\<close>

fun exec_run :: "CacheGeometry \<Rightarrow> nat \<Rightarrow> ('c \<Rightarrow> u64 \<Rightarrow> bool) \<Rightarrow> ('c \<Rightarrow> u64 \<Rightarrow> 'c)
    \<Rightarrow> (nat \<Rightarrow> 'c) \<Rightarrow> u64 list \<Rightarrow> nat \<times> bool list \<times> (nat \<Rightarrow> 'c)" where
  "exec_run Geo pen res t f [] = (0, [], f)"
| "exec_run Geo pen res t f (L # Ls) =
     (let i = unat (setIndex Geo L);
          (n, ms, g) = exec_run Geo pen res t (f(i := t (f i) L)) Ls
      in ((if res (f i) L then 0 else pen) + n, (\<not> res (f i) L) # ms, g))"

lemma exec_cache_run:
  "exec_run Geo pen res t f Ls = (n, ms, g) \<Longrightarrow>
   cache_run Geo pen valid res (\<lambda>c l c'. c' = t c l) f (map Access Ls) n g"
proof (induction Ls arbitrary: f n ms)
  case Nil
  then show ?case by (auto intro: run_done)
next
  case (Cons L Ls)
  let ?i = "unat (setIndex Geo L)"
  obtain n' ms' where r: "exec_run Geo pen res t (f(?i := t (f ?i) L)) Ls = (n', ms', g)"
    and n: "n = (if res (f ?i) L then 0 else pen) + n'"
    using Cons.prems by (auto simp: Let_def split: prod.splits)
  show ?case
    unfolding n list.map by (rule run_access [OF refl refl Cons.IH [OF r]])
qed

lemma exec_run_misses:
  "exec_run Geo pen res t f Ls = (n, ms, g) \<Longrightarrow>
   run_misses Geo res (\<lambda>c l c'. c' = t c l) f Ls ms g"
  by (induction Geo pen res t f Ls arbitrary: n ms g rule: exec_run.induct)
    (auto simp: Let_def split: prod.splits intro!: run_misses.intros)

text \<open>C9: The must analysis with the LRU policy is sound on every valid geometry: for every instruction,
  every abstract state that describes a real LRU cache and every run of the instruction's memory
  effects on it, the cycles charged are at least the cycles of the misses of the run, and the
  state left behind describes the cache the run leaves. The charges an instruction can cause at most
  fit 32 bits, so that the sum cannot wrap around.\<close>

theorem lru_must_sound:
  assumes "isValid Geo" "ca_Kind A = Must"
    and "cs_wf (age_inv (Ways Geo)) (LRUPolicy (Ways Geo)) Must Geo C"
    and "cache_gam lru_must_gam C f" "\<forall>i. valid_set (unat (Ways Geo)) (f i)"
    and "cache_run Geo (unat (MissPenalty A)) (valid_set (unat (Ways Geo))) (\<lambda>c l. l \<in> set c)
           (\<lambda>c l c'. c' = lru_touch (unat (Ways Geo)) c l) f (Mapper A MI) n g"
    and "max_cost (MissPenalty A) (Mapper A MI) < 2 ^ 32"
  shows "n \<le> unat (fst (ca_process A C MI)) \<and>
    cache_gam lru_must_gam (fst (snd (ca_process A C MI))) g \<and>
    (\<forall>i. valid_set (unat (Ways Geo)) (g i))"
  using lru_must.process_must [where W = "Ways Geo" and Cost = 0 and A = A and C = C and MI = MI]
    assms unfolding AgeBased_ways_valid [OF assms(1)] ca_process_def by fastforce

text \<open>A two-way cache of one set, cold; an instruction fetching the same line twice, with a
  penalty of three cycles.\<close>

definition demo_geo :: CacheGeometry where
  "demo_geo = \<lparr>NumSets = 1, Ways = 2, LineBytes = 8\<rparr>"

definition demo :: "'s ReplacementPolicy \<Rightarrow> AnalysisKind \<Rightarrow> ('s, CacheEvent list) CacheAnalysis" where
  "demo P K = \<lparr>ca_Geo = demo_geo, MissPenalty = 3, ca_Policy = P, Mapper = (\<lambda>es. es),
     ca_Kind = K, Sink = True\<rparr>"

lemma demo_valid [simp]: "isValid demo_geo"
  by (simp add: demo_geo_def isValid_def isPow2_def)

lemma demo_simps [simp]:
  "Ways demo_geo = 2" "NumSets demo_geo = 1" "setIndex demo_geo L = 0"
  by (simp_all add: demo_geo_def setIndex_def)

theorem lru_must_sound_witness:
  "3 \<le> unat (fst (ca_process (demo (LRUPolicy 2) Must) (newCacheState demo_geo (LRUPolicy 2) Must)
      [Access 8, Access 8]))"
proof -
  have "exec_run demo_geo 3 (\<lambda>c l. l \<in> set c) (lru_touch 2) (\<lambda>_. []) [8, 8] =
      (3, [True, False], (\<lambda>_. [])(0 := [8]))"
    by (simp add: lru_touch_def)
  from exec_cache_run [OF this, of "valid_set 2"]
  show ?thesis
    using lru_must_sound [of demo_geo "demo (LRUPolicy 2) Must"
        "newCacheState demo_geo (LRUPolicy 2) Must" "\<lambda>_. []" "[Access 8, Access 8]" 3]
      lru_must.wf_new [of 2 demo_geo] lru_must.gam_initial [of 2 "\<lambda>_. []" demo_geo]
    by (simp add: demo_def AgeBased_ways_def)
qed

text \<open>The must analysis with the policy for undocumented hardware is sound for every
  replacement the hardware may do: each set is any transition that keeps the accessed line and
  never brings in another, and still the cycles charged for an instruction are at least the
  cycles of its misses.\<close>

lemma unknown_must_sound:
  assumes "isValid Geo" "ca_Kind A = Must"
    and "cs_wf (\<lambda>_. True) UnknownPolicy Must Geo C" "cache_gam unknown_gam C f"
    and "cache_run Geo (unat (MissPenalty A)) (\<lambda>_. True) (\<lambda>R l. l \<in> R) adversary f (Mapper A MI) n g"
    and "max_cost (MissPenalty A) (Mapper A MI) < 2 ^ 32"
  shows "n \<le> unat (fst (ca_process A C MI)) \<and>
    cache_gam unknown_gam (fst (snd (ca_process A C MI))) g"
  using unknown_must.process_must [where Cost = 0 and A = A and C = C and MI = MI]
    assms unfolding ca_process_def by fastforce

text \<open>C18: The may analysis with the LRU policy reports only guaranteed misses: on a sequence of
  fetches from a cache its state describes, an access is reported only if the real LRU cache
  misses it, and no cycles are charged.\<close>

theorem lru_may_sound:
  assumes "isValid Geo" "ca_Kind A = May" "Sink A"
    and "cs_wf (age_inv (Ways Geo)) (LRUPolicy (Ways Geo)) May Geo C"
    and "cache_gam lru_may_gam C f" "\<forall>i. valid_set (unat (Ways Geo)) (f i)"
    and "Mapper A MI = map Access Ls"
    and "run_misses Geo (\<lambda>c l. l \<in> set c) (\<lambda>c l c'. c' = lru_touch (unat (Ways Geo)) c l) f Ls ms g"
  shows "fst (ca_process A C MI) = 0 \<and>
    (\<exists>bs. length bs = length Ls \<and> list_all2 (\<longrightarrow>) bs ms \<and>
       snd (snd (ca_process A C MI)) = map (\<lambda>p. (MI, snd p)) (filter fst (zip bs Ls)))"
  using lru_may.process_may [where W = "Ways Geo" and Cost = 0 and A = A and C = C and MI = MI]
    assms unfolding AgeBased_ways_valid [OF assms(1)] ca_process_def by force

theorem lru_may_sound_witness:
  "fst (ca_process (demo (LRUPolicy 2) May) (newCacheState demo_geo (LRUPolicy 2) May)
      [Access 8, Access 8]) = 0"
proof -
  have "exec_run demo_geo 3 (\<lambda>c l. l \<in> set c) (lru_touch 2) (\<lambda>_. []) [8, 8] =
      (3, [True, False], (\<lambda>_. [])(0 := [8]))"
    by (simp add: lru_touch_def)
  from exec_run_misses [OF this]
  show ?thesis
    using lru_may_sound [of demo_geo "demo (LRUPolicy 2) May"
        "newCacheState demo_geo (LRUPolicy 2) May" "\<lambda>_. []" "[Access 8, Access 8]" "[8, 8]"]
      lru_may.wf_new [of 2 demo_geo] lru_may.gam_cold [of 2]
    by (simp add: demo_def AgeBased_ways_def cache_gam_def newCacheState_def)
qed

subsection \<open>Straight-line code, and FIFO after a join\<close>

definition age_exact :: "AgeSetState \<Rightarrow> u64 list \<Rightarrow> bool" where
  "age_exact S c \<longleftrightarrow>
     (\<forall>l. map_of S l = (if l \<in> set c then Some (word_of_nat (pos c l)) else None))"

lemma pos_word:
  "valid_set (unat (W :: u32)) c \<Longrightarrow> l \<in> set c \<Longrightarrow> unat (word_of_nat (pos c l) :: u32) = pos c l"
proof -
  assume "valid_set (unat W) c" "l \<in> set c"
  then have "pos c l < unat W"
    using pos_less [of l c] unfolding valid_set_def by linarith
  also have "unat W < 4294967296" by (rule unat_lt32)
  finally show ?thesis by (simp add: unat_of_nat take_bit_nat_eq_self)
qed

lemma age_exactI:
  assumes "lru_must_gam S c" "lru_may_gam S c" "valid_set (unat (W :: u32)) c"
  shows "age_exact S c"
proof -
  have "map_of S l = Some (word_of_nat (pos c l))" if l: "l \<in> set c" for l
  proof -
    obtain a where a: "map_of S l = Some a" "unat a \<le> pos c l"
      using l assms(2) by (auto simp: lru_may_gam_def)
    then have "unat a = pos c l" using assms(1) by (fastforce simp: lru_must_gam_def)
    then have "a = word_of_nat (pos c l)" by (simp add: word_unat_eq_iff pos_word [OF assms(3) l])
    with a show ?thesis by simp
  qed
  then show ?thesis
    using assms(1) unfolding age_exact_def lru_must_gam_def by (metis not_Some_eq)
qed

lemma LRU_exact:
  "0 < W \<Longrightarrow> age_exact (foldl (LRU_update W) [] Ls) (foldl (lru_touch (unat W)) [] Ls)"
proof -
  assume W: "0 < W"
  then have w: "0 < unat W" by (simp add: word_less_nat_alt)
  let ?S = "foldl (LRU_update W) []" and ?c = "foldl (lru_touch (unat W)) []"
  have "age_inv W (?S Ls) \<and> valid_set (unat W) (?c Ls) \<and> lru_must_gam (?S Ls) (?c Ls) \<and>
      lru_may_gam (?S Ls) (?c Ls)"
    using W w
    by (induction Ls rule: rev_induct)
      (auto simp: LRU_update_inv valid_lru lru_must_update lru_may_update)
  then show ?thesis by (blast intro: age_exactI)
qed

lemma FIFO_exact_step:
  assumes inv: "age_inv W S" and v: "valid_set (unat W) c" and W: "0 < unat W"
    and e: "age_exact S c"
  shows "age_exact (FIFO_update W S l) (fifo_touch (unat W) c l)"
  unfolding age_exact_def
proof
  fix q
  have S: "map_of S k = (if k \<in> set c then Some (word_of_nat (pos c k)) else None)" for k
    using e by (simp add: age_exact_def)
  let ?p = "word_of_nat (pos c q) :: u32"
  have "unat (?p + 1) = pos c q + 1" if "q \<in> set c"
  proof -
    have "unat ?p < unat W"
      using v pos_less [OF that] unfolding pos_word [OF v that] valid_set_def by linarith
    then show ?thesis using v that by (simp add: unat_inc word_less_nat_alt pos_word)
  qed
  then show "map_of (FIFO_update W S l) q = (if q \<in> set (fifo_touch (unat W) c l)
      then Some (word_of_nat (pos (fifo_touch (unat W) c l) q)) else None)"
    using W S by (auto simp: FIFO_update_lookup [OF inv] fifo_touch_set fifo_touch_pos
        word_less_nat_alt add.commute split: if_splits)
qed

lemma FIFO_exact:
  "0 < W \<Longrightarrow> age_exact (foldl (FIFO_update W) [] Ls) (foldl (fifo_touch (unat W)) [] Ls)"
proof -
  assume W: "0 < W"
  then have w: "0 < unat W" by (simp add: word_less_nat_alt)
  let ?S = "foldl (FIFO_update W) []" and ?c = "foldl (fifo_touch (unat W)) []"
  have "age_inv W (?S Ls) \<and> valid_set (unat W) (?c Ls) \<and> age_exact (?S Ls) (?c Ls)"
  proof (induction Ls rule: rev_induct)
    case Nil
    show ?case by (simp add: age_exact_def)
  next
    case (snoc x xs)
    then show ?case using W w by (auto simp: FIFO_update_inv valid_fifo FIFO_exact_step)
  qed
  then show ?thesis by blast
qed

text \<open>C37: On straight-line code from a cold cache the FIFO and LRU states are exact: after any
  sequence of accesses a line is in the abstract set exactly when the real cache holds it, and
  its age is its position there.\<close>

theorem age_states_exact:
  assumes "0 < W"
  shows "map_of (foldl (FIFO_update W) [] Ls) l =
      (let c = foldl (fifo_touch (unat W)) [] Ls
       in if l \<in> set c then Some (word_of_nat (pos c l)) else None) \<and>
    map_of (foldl (LRU_update W) [] Ls) l =
      (let c = foldl (lru_touch (unat W)) [] Ls
       in if l \<in> set c then Some (word_of_nat (pos c l)) else None)"
  using FIFO_exact [OF assms, of Ls] LRU_exact [OF assms, of Ls]
  by (simp add: age_exact_def Let_def)

theorem age_states_exact_witness:
  "map_of (foldl (FIFO_update 2) [] [1, 2, 1, 3]) 2 = Some 1 \<and>
   map_of (foldl (LRU_update 2) [] [1, 2, 1, 3]) 2 = None"
  using age_states_exact [of 2 "[1, 2, 1, 3]" 2] by (simp add: fifo_touch_def lru_touch_def)

text \<open>The FIFO must analysis is unsound after a join, for every number of ways from two on: a path
  fills the set with \<open>x\<close> and other lines, \<open>x\<close> first, and joins a cold one; then \<open>x\<close> is accessed, a hit
  that moves nothing, and a new line \<open>y\<close>. The state calls \<open>x\<close> a guaranteed hit, and the cache of the
  path has evicted it.\<close>

lemma fifo_fill: "distinct (rev Ls @ c) \<Longrightarrow> length (Ls @ c) \<le> k \<Longrightarrow> foldl (fifo_touch k) c Ls = rev Ls @ c"
  by (induction Ls arbitrary: c) (auto simp: fifo_touch_def)

lemma fifo_must_unsound:
  assumes "1 < W" "distinct (y # x # Ls)" "length (x # Ls) = unat W"
  defines "P \<equiv> FIFOPolicy W"
  defines "S \<equiv> fst (rp_join P (foldl (rp_update P) (rp_makeEmpty P) (x # Ls)) (rp_makeEmpty P) Must)"
    and "c \<equiv> foldl (fifo_touch (unat W)) [] (x # Ls)"
  shows "rp_contains P (foldl (rp_update P) S [x, y]) x" "x \<notin> set (foldl (fifo_touch (unat W)) c [x, y])"
proof -
  have W: "AgeBased_ways W = W" using assms(1) by (auto simp: AgeBased_ways_def)
  have "AgeBased_equals T [] \<Longrightarrow> T = []" for T by (cases T) (auto simp: AgeBased_equals_def age_sorted_def dest: arg_cong [where f = length])
  then have "S = []"
    by (auto simp: S_def P_def policy_sel AgeBased_join_def AgeBased_merge_def Let_def map_filter_simps
        List.map_filter_def age_sorted_def split: if_splits)
  then show "rp_contains P (foldl (rp_update P) S [x, y]) x"
    using assms(1,2) by (simp add: P_def policy_sel W FIFO_update_def insertMiss_def AgeBased_contains_def
        map_filter_simps linorder_not_le age_sorted_def)
  have c: "c = rev Ls @ [x]" using assms(2,3) unfolding c_def by (subst fifo_fill) auto
  then have "fifo_touch (unat W) c x = c" by (simp add: fifo_touch_def)
  moreover have "take (unat W) (y # c) = y # rev Ls" by (simp add: c flip: assms(3))
  then have "fifo_touch (unat W) c y = y # rev Ls"
    using assms(2) by (auto simp: fifo_touch_def c)
  ultimately show "x \<notin> set (foldl (fifo_touch (unat W)) c [x, y])" using assms(2) by auto
qed

text \<open>The may analysis with LRU ages does not cover other policies: after accesses to 1, 2, 1
  and 3 it reports line 2 as a guaranteed miss, while a two-way FIFO cache, and so a cache of
  unknown policy, still holds it.\<close>

lemma lru_may_not_policy_independent:
  "let P = LRUPolicy 2
   in \<not> rp_contains P (foldl (rp_update P) (rp_makeEmpty P) [1, 2, 1, 3]) 2 \<and>
      2 \<in> set (foldl (fifo_touch 2) [] [1, 2, 1, 3])"
  by (simp add: Let_def policy_sel AgeBased_ways_def LRU_update_def insertMiss_def
      AgeBased_contains_def fifo_touch_def)

text \<open>A barrier makes the may direction unsound: on every valid geometry and from every state, the
  analysis calls the first fetch after a barrier a guaranteed miss, whatever the line, while the accesses
  the barrier stands for may have left it there: the fetch is a hit in every cache that holds it.\<close>

lemma barrier_state: "cs_wf ok P K Geo C \<Longrightarrow> barrier C = newCacheState Geo P K"
  by (auto elim!: cs_wfE simp: barrier_def newCacheState_def map_replicate_const)

lemma may_barrier_unsound:
  assumes "isValid Geo" "ca_Kind A = May" "Sink A" "cs_wf (age_inv (Ways Geo)) (LRUPolicy (Ways Geo)) May Geo C"
    and "Mapper A MI = [Barrier w, Access L]"
    and "\<forall>i. valid_set (unat (Ways Geo)) (f i)" "L \<in> set (f (unat (setIndex Geo L)))"
  shows "snd (snd (ca_process A C MI)) = [(MI, L)] \<and>
    (\<exists>g. cache_run Geo pen (valid_set (unat (Ways Geo))) (\<lambda>c l. l \<in> set c)
       (\<lambda>c l c'. c' = lru_touch (unat (Ways Geo)) c l) f (Mapper A MI) 0 g)"
proof
  have "setIndex Geo L < NumSets Geo" using setIndex_less [OF assms(1)] by (simp add: word_less_nat_alt)
  then have "unat (setIndex Geo L) < unat (NumSets Geo)" by (simp add: word_less_nat_alt)
  then show "snd (snd (ca_process A C MI)) = [(MI, L)]"
    using assms(2,3) by (simp add: ca_process_def assms(5) barrier_state [OF assms(4)] newCacheState_def access_def
        policy_sel AgeBased_contains_def)
  let ?i = "unat (setIndex Geo L)"
  have "cache_run Geo pen (valid_set (unat (Ways Geo))) (\<lambda>c l. l \<in> set c)
       (\<lambda>c l c'. c' = lru_touch (unat (Ways Geo)) c l) f [Access L]
       ((if L \<in> set (f ?i) then 0 else pen) + 0) (f(?i := lru_touch (unat (Ways Geo)) (f ?i) L))"
    by (rule run_access) (rule refl run_done)+
  then have "cache_run Geo pen (valid_set (unat (Ways Geo))) (\<lambda>c l. l \<in> set c)
       (\<lambda>c l c'. c' = lru_touch (unat (Ways Geo)) c l) f [Barrier w, Access L] (0 + 0)
       (f(?i := lru_touch (unat (Ways Geo)) (f ?i) L))"
    using assms(6,7) by (intro run_barrier) auto
  then show "\<exists>g. cache_run Geo pen (valid_set (unat (Ways Geo))) (\<lambda>c l. l \<in> set c)
       (\<lambda>c l c'. c' = lru_touch (unat (Ways Geo)) c l) f (Mapper A MI) 0 g"
    using assms(5) by auto
qed

end
