(* ===== verification/CacheFixpoint.thy ===== *)
theory CacheFixpoint
  imports FunctionSolver CacheSafety
begin

text \<open>
  The must cache analysis run by the solver. A policy whose set states are ordered by what they
  guarantee (locale \<open>must_order\<close>) gives an analysis that descends and is sound, so the run on a
  function ends with costs that bound every execution; LRU and the policy for undocumented
  hardware are such policies.
\<close>

subsection \<open>Ordered must domains\<close>

locale must_order = must_domain +
  fixes sle :: "'a \<Rightarrow> 'a \<Rightarrow> bool" and srank :: "'a \<Rightarrow> nat"
  assumes sle_refl: "sle S S"
    and sle_trans: "sle S T \<Longrightarrow> sle T U \<Longrightarrow> sle S U"
    and sle_empty: "ok S \<Longrightarrow> sle S (rp_makeEmpty pol)"
    and update_mono: "ok S \<Longrightarrow> ok T \<Longrightarrow> sle S T \<Longrightarrow> sle (rp_update pol S l) (rp_update pol T l)"
    and join_mono: "ok S \<Longrightarrow> ok T \<Longrightarrow> ok S' \<Longrightarrow> ok T' \<Longrightarrow> sle S S' \<Longrightarrow> sle T T' \<Longrightarrow>
      sle (fst (rp_join pol S T kind)) (fst (rp_join pol S' T' kind))"
    and srank_le: "sle T S \<Longrightarrow> srank T \<le> srank S"
    and srank_less: "ok S \<Longrightarrow> ok T \<Longrightarrow> sle T S \<Longrightarrow> \<not> rp_equals pol S T \<Longrightarrow> srank T < srank S"

text \<open>The geometry the run uses: the pass gives up on one that is not valid.\<close>

definition valid_geo :: "CacheGeometry \<Rightarrow> CacheGeometry" where
  "valid_geo Geo = (if isValid Geo then Geo else defaultGeometry)"

lemma valid_geo [simp]: "isValid (valid_geo Geo)" "isValid Geo \<Longrightarrow> valid_geo Geo = Geo"
  by (simp_all add: valid_geo_def defaultGeometry_def isValid_def isPow2_def)

text \<open>The analysis the pass builds.\<close>

definition mustAnalysis ::
  "'s ReplacementPolicy \<Rightarrow> CacheGeometry \<Rightarrow> u32 \<Rightarrow> (MachineInstr \<Rightarrow> CacheEvent list)
   \<Rightarrow> ('s, MachineInstr) CacheAnalysis" where
  "mustAnalysis P Geo pen mapper =
     \<lparr>ca_Geo = Geo, MissPenalty = pen, ca_Policy = P, Mapper = mapper, ca_Kind = Must, Sink = False\<rparr>"

definition cache_le :: "('s \<Rightarrow> 's \<Rightarrow> bool) \<Rightarrow> 's CacheState \<Rightarrow> 's CacheState \<Rightarrow> bool" where
  "cache_le le C D \<longleftrightarrow> length (Sets C) = length (Sets D) \<and> (\<forall>i < length (Sets D). le (Sets C ! i) (Sets D ! i))"

definition cache_rank :: "('s \<Rightarrow> nat) \<Rightarrow> 's CacheState \<Rightarrow> nat" where
  "cache_rank r C = (\<Sum>i < length (Sets C). r (Sets C ! i))"

text \<open>What a real cache does for the events of an instruction.\<close>

definition cache_exec ::
  "('s, MachineInstr) CacheAnalysis \<Rightarrow> ('c \<Rightarrow> bool) \<Rightarrow> ('c \<Rightarrow> u64 \<Rightarrow> bool) \<Rightarrow> ('c \<Rightarrow> u64 \<Rightarrow> 'c \<Rightarrow> bool)
   \<Rightarrow> MachineInstr \<Rightarrow> (nat \<Rightarrow> 'c) \<Rightarrow> nat \<Rightarrow> (nat \<Rightarrow> 'c) \<Rightarrow> bool" where
  "cache_exec An valid resident touch MI f k g \<longleftrightarrow>
     cache_run (ca_Geo An) (unat (MissPenalty An)) valid resident touch f (Mapper An MI) k g"

definition worst_charge :: "('s, MachineInstr) CacheAnalysis \<Rightarrow> MachineInstr \<Rightarrow> nat" where
  "worst_charge An MI = max_cost (MissPenalty An) (Mapper An MI)"

lemma process_charge:
  "ca_Kind A = Must \<Longrightarrow>
   unat (fst (process_events A MI Es c0 C)) \<le> unat c0 + max_cost (MissPenalty A) Es"
proof (induction Es arbitrary: c0 C)
  case (Cons E Es)
  have plus: "unat (c0 + w) \<le> unat c0 + unat w" for w :: u32 by (simp add: unat_word_ariths)
  show ?case
  proof (cases E)
    case (Access L)
    let ?C = "snd (access C L)"
    show ?thesis
      using Cons.IH [OF Cons.prems, of "c0 + MissPenalty A" ?C] Cons.IH [OF Cons.prems, of c0 ?C]
        plus [of "MissPenalty A"] Cons.prems Access
      by (auto simp: case_prod_beta Let_def)
  next
    case (Barrier w)
    then show ?thesis using Cons.IH [OF Cons.prems, of "c0 + w" "barrier C"] plus [of w] Cons.prems by simp
  qed
qed simp

context must_order
begin

lemma access_mono:
  assumes "cs_wf ok pol kind Geo C" "cs_wf ok pol kind Geo D" "isValid Geo" "cache_le sle C D"
  shows "cache_le sle (snd (access C L)) (snd (access D L))"
  using assms
  by (elim cs_wfE)
    (auto simp: cache_le_def access_def Let_def nth_list_update setIndex_less update_mono)

lemma barrier_mono: "cache_le sle C D \<Longrightarrow> cs_Policy C = cs_Policy D \<Longrightarrow> cache_le sle (barrier C) (barrier D)"
  by (simp add: cache_le_def barrier_def sle_refl)

lemma process_state_mono:
  assumes "cs_wf ok pol kind Geo C" "cs_wf ok pol kind Geo D" "isValid Geo" "cache_le sle C D"
    "ca_Kind An = Must"
  shows "cache_le sle (fst (snd (process_events An MI Es c C))) (fst (snd (process_events An MI Es d D)))"
  using assms
proof (induction Es arbitrary: c d C D)
  case (Cons E Es)
  show ?case
  proof (cases E)
    case (Access L)
    have "cache_le sle (snd (access C L)) (snd (access D L))"
      using access_mono Cons.prems by blast
    then show ?thesis
      using Cons.IH [OF wf_access [OF Cons.prems(1)] wf_access [OF Cons.prems(2)]] Cons.prems(3,5) Access
      by (simp add: case_prod_beta Let_def)
  next
    case (Barrier W)
    have "cs_Policy C = cs_Policy D" using Cons.prems(1,2) by (simp add: cs_wf_def)
    then have "cache_le sle (barrier C) (barrier D)" using barrier_mono Cons.prems(4) by blast
    then show ?thesis
      using Cons.IH [OF wf_barrier [OF Cons.prems(1)] wf_barrier [OF Cons.prems(2)]] Cons.prems(3,5) Barrier
      by simp
  qed
qed simp

lemma join_le:
  assumes "cs_wf ok pol kind Geo C" "cs_wf ok pol kind Geo D" "cs_wf ok pol kind Geo C'" "cs_wf ok pol kind Geo D'"
    "cache_le sle C C'" "cache_le sle D D'"
  shows "cache_le sle (fst (cs_join C D)) (fst (cs_join C' D'))"
  using assms
  by (elim cs_wfE)
    (auto simp: cache_le_def cs_join_def case_prod_beta join_sets_nth join_mono)

lemma empty_above: "cs_wf ok pol kind Geo C \<Longrightarrow> cache_le sle C (newCacheState Geo pol kind)"
  by (erule cs_wfE) (auto simp: cache_le_def newCacheState_def sle_empty)

lemma rank_drops:
  assumes "cs_wf ok pol kind Geo C" "cs_wf ok pol kind Geo D" "cache_le sle D C" "\<not> cs_equals C D"
  shows "cache_rank srank D < cache_rank srank C"
proof -
  have len: "length (Sets D) = length (Sets C)" using assms(3) by (simp add: cache_le_def)
  then obtain i where i: "i < length (Sets C)" "\<not> rp_equals pol (Sets C ! i) (Sets D ! i)"
    using assms(1,4) by (auto simp: cs_equals_def cs_wf_def list_all2_conv_all_nth)
  have ok: "ok (Sets C ! i)" "ok (Sets D ! i)" using assms(1,2) i(1) len by (auto simp: cs_wf_def)
  have "srank (Sets D ! i) < srank (Sets C ! i)"
    using assms(3) i len by (intro srank_less [OF ok]) (simp_all add: cache_le_def)
  then show ?thesis
    unfolding cache_rank_def len using assms(3) i(1) srank_le
    by (intro sum_strict_mono_ex1) (auto simp: cache_le_def)
qed

lemma equals_gam:
  assumes "cs_wf ok pol kind Geo C" "cs_wf ok pol kind Geo D" "cs_equals C D" "cache_gam gam D f"
  shows "cache_gam gam C f"
  using assms gam_equals
  by (fastforce simp: cs_equals_def cache_gam_def cs_wf_def list_all2_conv_all_nth split: if_splits)

end

sublocale must_order \<subseteq> run: descending
  "cacheAnalysable (mustAnalysis pol (valid_geo Geo) pen mapper)" "cs_wf ok pol kind (valid_geo Geo)"
  "cache_le sle" "cache_rank srank"
  for Geo pen mapper
proof unfold_locales
  let ?G = "valid_geo Geo" and ?An = "mustAnalysis pol (valid_geo Geo) pen mapper"
  let ?A = "cacheAnalysable ?An"
  note defs = cacheAnalysable_def mustAnalysis_def ca_getInitialState_def ca_process_def kind_must [symmetric]
  show "cs_wf ok pol kind ?G (an_getInitialState ?A)" by (simp add: defs wf_new)
  show "cs_wf ok pol kind ?G (snd (an_process ?A S MI))" if "cs_wf ok pol kind ?G S" for S MI
    using wf_process [OF that] by (simp add: defs)
  show "cs_wf ok pol kind ?G (fst (an_join ?A S T))"
    if "cs_wf ok pol kind ?G S" "cs_wf ok pol kind ?G T" for S T
    using wf_join [OF that] by (simp add: defs)
  show "an_clone ?A S = S" if "cs_wf ok pol kind ?G S" for S
    using clone_same [OF that] by (simp add: defs)
  show "cache_le sle S S" for S by (simp add: cache_le_def sle_refl)
  show "cache_le sle S U" if "cache_le sle S T" "cache_le sle T U" for S T U
    using that sle_trans by (auto simp: cache_le_def)
  show "cache_le sle S (an_getInitialState ?A)" if "cs_wf ok pol kind ?G S" for S
    using empty_above [OF that] by (simp add: defs)
  show "cache_le sle (snd (an_process ?A S MI)) (snd (an_process ?A T MI))"
    if "cs_wf ok pol kind ?G S" "cs_wf ok pol kind ?G T" "cache_le sle S T" for S T MI
    using process_state_mono [OF that(1,2) _ that(3), of ?An] by (simp add: defs)
  show "cache_le sle (fst (an_join ?A S T)) (fst (an_join ?A S' T'))"
    if "cs_wf ok pol kind ?G S" "cs_wf ok pol kind ?G T" "cs_wf ok pol kind ?G S'" "cs_wf ok pol kind ?G T'"
      "cache_le sle S S'" "cache_le sle T T'" for S T S' T'
    using join_le [OF that] by (simp add: defs)
  show "cache_rank srank T < cache_rank srank S"
    if "cs_wf ok pol kind ?G S" "cs_wf ok pol kind ?G T" "cache_le sle T S" "\<not> an_equals ?A S T" for S T
    using rank_drops [OF that(1-3)] that(4) by (simp add: defs)
qed

sublocale must_order \<subseteq> run: sound_analysis
  "cacheAnalysable (mustAnalysis pol (valid_geo Geo) pen mapper)" "cs_wf ok pol kind (valid_geo Geo)"
  "\<lambda>C f. cache_gam gam C f \<and> (\<forall>i. valid (f i))"
  "cache_exec (mustAnalysis pol (valid_geo Geo) pen mapper) valid resident touch"
  "\<lambda>f. \<forall>i. valid (f i)" "worst_charge (mustAnalysis pol (valid_geo Geo) pen mapper)"
  for Geo pen mapper
proof unfold_locales
  let ?G = "valid_geo Geo" and ?An = "mustAnalysis pol (valid_geo Geo) pen mapper"
  let ?A = "cacheAnalysable ?An" and ?gam = "\<lambda>C f. cache_gam gam C f \<and> (\<forall>i. valid (f i))"
  note defs = cacheAnalysable_def mustAnalysis_def ca_getInitialState_def ca_process_def kind_must [symmetric]
  show "?gam (an_getInitialState ?A) f" if "\<forall>i. valid (f i)" for f
    using that gam_initial by (simp add: defs)
  show "?gam (snd (an_process ?A S MI)) g \<and> k \<le> unat (fst (an_process ?A S MI))"
    if "cs_wf ok pol kind ?G S" "?gam S f" "cache_exec ?An valid resident touch MI f k g"
      "worst_charge ?An MI < 2 ^ 32" for S f MI k g
    using process_must [of "ca_Geo ?An" ?An f "Mapper ?An MI" k g S 0 MI] that
    by (simp add: defs cache_exec_def worst_charge_def)
  show "unat (fst (an_process ?A S MI)) \<le> worst_charge ?An MI" for S MI
    using process_charge [of ?An MI "Mapper ?An MI" 0 S] by (simp add: defs worst_charge_def)
  show "?gam (fst (an_join ?A S T)) f" if "cs_wf ok pol kind ?G S" "cs_wf ok pol kind ?G T" "?gam S f" for S T f
    using cache_gam_join [OF that(1,2)] that(3) by (simp add: defs)
  show "?gam (fst (an_join ?A S T)) f" if "cs_wf ok pol kind ?G S" "cs_wf ok pol kind ?G T" "?gam T f" for S T f
    using cache_gam_join [OF that(1,2)] that(3) by (simp add: defs)
  show "?gam S f" if "cs_wf ok pol kind ?G S" "cs_wf ok pol kind ?G T" "an_equals ?A S T" "?gam T f" for S T f
    using equals_gam [OF that(1,2)] that(3,4) by (simp add: defs)
qed

subsection \<open>The order of LRU ages\<close>

definition lru_age :: "u32 \<Rightarrow> AgeSetState \<Rightarrow> u64 \<Rightarrow> nat" where
  "lru_age W S l = (case map_of S l of Some a \<Rightarrow> unat a | None \<Rightarrow> unat W)"

definition lru_le :: "u32 \<Rightarrow> AgeSetState \<Rightarrow> AgeSetState \<Rightarrow> bool" where
  "lru_le W S T \<longleftrightarrow> (\<forall>l. lru_age W S l \<le> lru_age W T l)"

definition lru_rank :: "u32 \<Rightarrow> AgeSetState \<Rightarrow> nat" where
  "lru_rank W S = (\<Sum>l \<in> UNIV. lru_age W S l)"

lemma lru_age_le: "age_inv W S \<Longrightarrow> lru_age W S l \<le> unat W"
  using age_inv_less [of W S l]
  by (auto simp: lru_age_def word_less_nat_alt less_imp_le split: option.splits)

lemma lru_age_some: "age_inv W S \<Longrightarrow> map_of S l = Some a \<Longrightarrow> lru_age W S l = unat a \<and> unat a < unat W"
  using age_inv_less [of W S l] by (simp add: lru_age_def word_less_nat_alt)

lemma lru_age_update:
  assumes "age_inv W S"
  shows "lru_age W (LRU_update W S l) k =
    (if k = l then 0
     else lru_age W S k + (if lru_age W S k < lru_age W S l then 1 else 0))"
proof (cases "map_of S k")
  case None
  then show ?thesis
    using lru_age_le [OF assms, of l] by (simp add: lru_age_def LRU_update_lookup [OF assms])
next
  case (Some b)
  note b = lru_age_some [OF assms Some]
  have inc: "unat (b + 1) = unat b + 1"
    using b unat_lt32 [of W] by (simp add: unat_word_ariths)
  show ?thesis
  proof (cases "map_of S l")
    case None
    then show ?thesis
      using Some b inc
      by (auto simp: lru_age_def LRU_update_lookup [OF assms] word_less_nat_alt)
  next
    case (Some a)
    then show ?thesis
      using \<open>map_of S k = Some b\<close> b inc
      by (auto simp: lru_age_def LRU_update_lookup [OF assms] word_less_nat_alt)
  qed
qed

lemma lru_age_join:
  assumes "age_inv W S" "age_inv W T"
  shows "lru_age W (fst (AgeBased_join S T Must)) l = max (lru_age W S l) (lru_age W T l)"
proof -
  have d: "distinct (map fst S)" using assms(1) by (simp add: age_inv_def)
  have m: "unat (max a b) = max (unat a) (unat b)" for a b :: u32
    by (simp add: max_def word_le_nat_alt)
  show ?thesis
    using lru_age_le [OF assms(1), of l] lru_age_le [OF assms(2), of l] m
    unfolding lru_age_def AgeBased_join_lookup [OF assms] age_merge_Must_lookup [OF d]
    by (auto simp: max_def split: option.splits)
qed

lemma lru_le_update:
  assumes "age_inv W S" "age_inv W T" "lru_le W S T"
  shows "lru_le W (LRU_update W S l) (LRU_update W T l)"
  unfolding lru_le_def lru_age_update [OF assms(1)] lru_age_update [OF assms(2)]
proof
  fix k
  have "lru_age W S k \<le> lru_age W T k" "lru_age W S l \<le> lru_age W T l"
    using assms(3) by (simp_all add: lru_le_def)
  then show "(if k = l then 0 else lru_age W S k + (if lru_age W S k < lru_age W S l then 1 else 0))
      \<le> (if k = l then 0 else lru_age W T k + (if lru_age W T k < lru_age W T l then 1 else 0))"
    by auto
qed

lemma lru_ages_map:
  assumes "age_inv W S" "age_inv W T" "\<And>l. lru_age W S l = lru_age W T l"
  shows "map_of S = map_of T"
proof
  fix l
  show "map_of S l = map_of T l"
    using assms(3) [of l] lru_age_some [OF assms(1), of l] lru_age_some [OF assms(2), of l]
    by (cases "map_of S l"; cases "map_of T l") (auto simp: lru_age_def word_unat_eq_iff)
qed

lemma lru_rank_less:
  assumes "age_inv W S" "age_inv W T" "lru_le W T S" "\<not> AgeBased_equals S T"
  shows "lru_rank W T < lru_rank W S"
proof -
  have "\<exists>l. lru_age W T l \<noteq> lru_age W S l"
    using assms(4) lru_ages_map [OF assms(1,2)] age_inv_mset_map_of [OF assms(1,2)]
    by (auto simp: AgeBased_equals_mset)
  then have "\<exists>l. lru_age W T l < lru_age W S l"
    using assms(3) unfolding lru_le_def by (metis le_neq_implies_less)
  then show ?thesis
    unfolding lru_rank_def using assms(3)
    by (intro sum_strict_mono_ex1) (auto simp: lru_le_def)
qed

interpretation lru_fix: must_order "LRUPolicy W" Must "age_inv (AgeBased_ways W)"
    "valid_set (unat (AgeBased_ways W))" "\<lambda>c l. l \<in> set c" "lru_step_rel W" lru_must_gam
    "lru_le (AgeBased_ways W)" "lru_rank (AgeBased_ways W)"
  for W
proof unfold_locales
  let ?V = "AgeBased_ways W" and ?P = "LRUPolicy W"
  show "lru_le ?V S S" for S by (simp add: lru_le_def)
  show "lru_le ?V S U" if "lru_le ?V S T" "lru_le ?V T U" for S T U
    using that unfolding lru_le_def by (meson le_trans)
  show "lru_le ?V S (rp_makeEmpty ?P)" if "age_inv ?V S" for S
    using lru_age_le [OF that] by (simp add: policy_sel lru_le_def lru_age_def)
  show "lru_le ?V (rp_update ?P S l) (rp_update ?P T l)"
    if "age_inv ?V S" "age_inv ?V T" "lru_le ?V S T" for S T l
    using lru_le_update [OF that] by (simp add: policy_sel)
  show "lru_le ?V (fst (rp_join ?P S T Must)) (fst (rp_join ?P S' T' Must))"
    if "age_inv ?V S" "age_inv ?V T" "age_inv ?V S'" "age_inv ?V T'" "lru_le ?V S S'" "lru_le ?V T T'"
    for S T S' T'
    using that by (auto simp: policy_sel lru_le_def lru_age_join intro: max.coboundedI1 max.coboundedI2)
  show "lru_rank ?V T \<le> lru_rank ?V S" if "lru_le ?V T S" for S T
    using that by (auto simp: lru_rank_def lru_le_def intro: sum_mono)
  show "lru_rank ?V T < lru_rank ?V S"
    if "age_inv ?V S" "age_inv ?V T" "lru_le ?V T S" "\<not> rp_equals ?P S T" for S T
    using lru_rank_less [OF that(1-3)] that(4) by (simp add: policy_sel)
qed

definition unknown_le :: "UnknownSetState \<Rightarrow> UnknownSetState \<Rightarrow> bool" where
  "unknown_le S T \<longleftrightarrow> T = None \<or> S = T"

definition unknown_rank :: "UnknownSetState \<Rightarrow> nat" where
  "unknown_rank S = (if S = None then 1 else 0)"

interpretation unknown_fix: must_order UnknownPolicy Must "\<lambda>S. True"
    "\<lambda>R. True" "\<lambda>R l. l \<in> R" adversary unknown_gam unknown_le unknown_rank
  by unfold_locales
    (auto simp: policy_sel unknown_le_def unknown_rank_def Unknown_update_def Unknown_join_def Let_def
      split: option.splits if_splits)

subsection \<open>The runs\<close>

text \<open>For examples: a function of two blocks in a row, instructions that fetch line 8, and a
  return that is a barrier.\<close>

definition demo_block1 :: "ptr \<Rightarrow> MachineInstr list \<Rightarrow> ptr list \<Rightarrow> MachineBasicBlock" where
  "demo_block1 b is ss = (demo_block b ss (ss = []))\<lparr>mbb_instrs := is\<rparr>"

definition line_fun :: "MachineInstr list \<Rightarrow> MachineInstr list \<Rightarrow> MachineFunction" where
  "line_fun is js = \<lparr>mf_function = 1, mf_name = ''f'',
     mf_blocks = [demo_block1 10 is [20], demo_block1 20 js []]\<rparr>"

definition demo_mapper :: "MachineInstr \<Rightarrow> CacheEvent list" where
  "demo_mapper MI = (if mi_opcode MI = RET then [Barrier 1] else [Access 8])"

lemma line_fun_wf: "mf_wf (line_fun is js)"
  by (simp add: mf_wf_def line_fun_def demo_block1_def demo_block_def)

lemma line_fun_entry: "\<not> mf_edge (line_fun is js) a 0"
  by (auto simp: mf_edge_def line_fun_def demo_block1_def demo_block_def nth_Cons' less_Suc_eq)

definition demo_ret :: MachineInstr where
  "demo_ret = demo_jump\<lparr>mi_opcode := RET\<rparr>"

lemma cache_pays: "cache_exec (mustAnalysis P demo_geo 3 demo_mapper) (\<lambda>R. True) (\<lambda>R l. l \<in> R) adversary
   demo_jump (\<lambda>_. {}) 3 ((\<lambda>_. {})(0 := {8}))"
proof -
  have "cache_run demo_geo 3 (\<lambda>R. True) (\<lambda>R l. l \<in> R) adversary (\<lambda>_. {}) [Access 8]
      ((if (8::u64) \<in> {} then 0 else 3) + 0) ((\<lambda>_. {})(0 := {8}))"
    by (rule run_access) (auto simp: adversary_def intro: run_done)
  then show ?thesis by (simp add: cache_exec_def mustAnalysis_def demo_mapper_def demo_jump_def)
qed

lemma barrier_free: "cache_exec (mustAnalysis P demo_geo 3 demo_mapper) (\<lambda>R. True) (\<lambda>R l. l \<in> R) adversary
   demo_ret (\<lambda>_. {}) 0 (\<lambda>_. {})"
proof -
  have "cache_run demo_geo 3 (\<lambda>R. True) (\<lambda>R l. l \<in> R) adversary (\<lambda>_. {}) [Barrier 1] (0 + 0) (\<lambda>_. {})"
    by (rule run_barrier) (auto intro: run_done)
  then show ?thesis by (simp add: cache_exec_def mustAnalysis_def demo_mapper_def demo_ret_def)
qed

lemma two_blocks:
  assumes "cache_exec An v r t MI f k g" "cache_exec An v r t MI' g l h"
  shows "mf_exec (cache_exec An v r t) (line_fun [MI] [MI']) f [(0, k), (1, l)]"
proof -
  have b: "block_exec (cache_exec An v r t) [MI] f k g" "block_exec (cache_exec An v r t) [MI'] g l h"
    using block_step [of "cache_exec An v r t", OF assms(1) block_end]
      block_step [of "cache_exec An v r t", OF assms(2) block_end] by simp_all
  show ?thesis
    using b by (intro mf_step [OF _ _ mf_last])
      (auto simp: line_fun_def demo_block1_def demo_block_def mf_edge_def)
qed

lemma first_block:
  assumes "cache_exec An v r t MI f k g"
  shows "mf_exec (cache_exec An v r t) (line_fun [MI] js) f [(0, k)]"
proof -
  have "block_exec (cache_exec An v r t) [MI] f k g"
    using block_step [of "cache_exec An v r t", OF assms block_end] by simp
  then show ?thesis
    by (intro mf_last) (auto simp: line_fun_def demo_block1_def demo_block_def)
qed

lemma demo_no_wrap:
  "no_wrap (worst_charge (mustAnalysis P demo_geo 3 demo_mapper)) (line_fun [demo_jump] [demo_jump])"
  by (simp add: no_wrap_def worst_charge_def mustAnalysis_def line_fun_def demo_block1_def demo_block_def
      demo_mapper_def demo_jump_def)

lemma lru_pays:
  "cache_exec (mustAnalysis P demo_geo 3 demo_mapper) (valid_set 2) (\<lambda>c l. l \<in> set c)
     (\<lambda>c l c'. c' = lru_touch 2 c l) demo_jump (\<lambda>_. []) 3 ((\<lambda>_. [])(0 := [8]))"
proof -
  have "exec_run demo_geo 3 (\<lambda>c l. l \<in> set c) (lru_touch 2) (\<lambda>_. []) [8] =
      (3, [True], (\<lambda>_. [])(0 := [8]))"
    by (simp add: lru_touch_def)
  from exec_cache_run [OF this, of "valid_set 2"] show ?thesis
    by (simp add: cache_exec_def mustAnalysis_def demo_mapper_def demo_jump_def)
qed

text \<open>C6: Running the must analysis with LRU on a function always terminates, for every control flow
  with loops and every valid geometry, and the penalty it leaves for a block is at least what a
  real LRU cache pays there, on every execution that starts in the entry block with any cache
  contents, as long as the blocks before the last leave some line guaranteed, the entry has no
  predecessor and the charges of a block cannot wrap around.\<close>

theorem fram_lru_run:
  assumes "isValid Geo" "mf_wf MF" and An_def: "An = mustAnalysis (LRUPolicy (Ways Geo)) Geo pen mapper"
  shows "\<exists>S. run_MF (cacheAnalysable An) MF MLI LB newSolver = Some S \<and>
    ((\<forall>a. \<not> mf_edge MF a 0) \<longrightarrow> no_wrap (worst_charge An) MF \<longrightarrow>
     (\<forall>f p. mf_exec (cache_exec An (valid_set (unat (Ways Geo))) (\<lambda>c l. l \<in> set c)
              (\<lambda>c l c'. c' = lru_touch (unat (Ways Geo)) c l)) MF f p \<longrightarrow>
        fst (hd p) = 0 \<longrightarrow> (\<forall>i. valid_set (unat (Ways Geo)) (f i)) \<longrightarrow>
        moves_on (cacheAnalysable An) (ws_Graph S) p \<longrightarrow>
        (\<forall>(m, l) \<in> set p. l \<le> unat (nodeCost (ws_Graph S) m))))"
proof -
  note W = AgeBased_ways_valid [OF assms(1)]
  obtain S where S: "run_MF (cacheAnalysable An) MF MLI LB newSolver = Some S"
    using lru_fix.run.run_MF_returns [OF assms(2), of "Ways Geo" Geo pen mapper MLI LB] assms(1)
    by (auto simp: An_def)
  note costs = lru_fix.run.run_MF_costs [OF assms(2), where W = "Ways Geo" and Geo = Geo and pen = pen
      and mapper = mapper and MLI = MLI and LB = LB and S = S, unfolded valid_geo(2) [OF assms(1)] W,
      folded An_def]
  show ?thesis using S costs by blast
qed

theorem fram_lru_run_witness:
  "\<exists>S. run_MF (cacheAnalysable (mustAnalysis (LRUPolicy 2) demo_geo 3 demo_mapper))
      (line_fun [demo_jump] [demo_jump]) None None newSolver = Some S \<and> 3 \<le> unat (nodeCost (ws_Graph S) 0)"
  using fram_lru_run [where Geo = demo_geo and MF = "line_fun [demo_jump] [demo_jump]" and pen = 3
      and mapper = demo_mapper and MLI = None and LB = None, OF demo_valid line_fun_wf refl]
    first_block [OF lru_pays, of "LRUPolicy 2"] line_fun_entry demo_no_wrap
  by (fastforce simp: moves_on_def valid_set_def)

text \<open>The same holds of the default policy, for hardware whose replacement is undocumented: the
  run terminates and its penalties bound every execution whatever the cache replaces.\<close>

lemma unknown_run:
  assumes "isValid Geo" "mf_wf MF" and An_def: "An = mustAnalysis UnknownPolicy Geo pen mapper"
  shows "\<exists>S. run_MF (cacheAnalysable An) MF MLI LB newSolver = Some S \<and>
    ((\<forall>a. \<not> mf_edge MF a 0) \<longrightarrow> no_wrap (worst_charge An) MF \<longrightarrow>
     (\<forall>f p. mf_exec (cache_exec An (\<lambda>R. True) (\<lambda>R l. l \<in> R) adversary) MF f p \<longrightarrow>
        fst (hd p) = 0 \<longrightarrow> moves_on (cacheAnalysable An) (ws_Graph S) p \<longrightarrow>
        (\<forall>(m, l) \<in> set p. l \<le> unat (nodeCost (ws_Graph S) m))))"
proof -
  obtain S where S: "run_MF (cacheAnalysable An) MF MLI LB newSolver = Some S"
    using unknown_fix.run.run_MF_returns [OF assms(2), of Geo pen mapper MLI LB] assms(1)
    by (auto simp: An_def)
  note costs = unknown_fix.run.run_MF_costs [OF assms(2), where Geo = Geo and pen = pen
      and mapper = mapper and MLI = MLI and LB = LB and S = S, unfolded valid_geo(2) [OF assms(1)],
      folded An_def]
  show ?thesis using S costs by simp
qed

subsection \<open>What stops a run\<close>

definition costless :: "'s AbstractStateGraph \<Rightarrow> bool" where
  "costless G \<longleftrightarrow> (\<forall>n N. asg_getNode G n = Some N \<longrightarrow> Cost N = 0)"

lemma costless_update: "costless G \<Longrightarrow> (\<And>N. Cost (f N) = Cost N) \<Longrightarrow> costless (asg_update n f G)"
  by (auto simp: costless_def asg_update_def asg_getNode_def split: option.splits if_splits)

lemma costless_edges: "costless G \<Longrightarrow> costless (initEdges MLI M Es G)"
proof (induction Es arbitrary: G)
  case (Cons E Es)
  have "costless (asg_addEdge a b k G)" for a b k
    using Cons.prems by (simp add: costless_def asg_addEdge_def asg_getNode_def)
  then show ?case using Cons.IH by (cases E) simp
qed simp

lemma costless_nodes: "costless G \<Longrightarrow> costless (snd (initNodes A MLI LB Bs M G))"
proof (induction Bs arbitrary: M G)
  case (Cons B Bs)
  have "costless (snd (asg_addNode (an_getInitialState A) (Some B) G))"
    using Cons.prems by (simp add: costless_def newASGNode_def)
  then have "costless (markLoop MLI LB b n (snd (asg_addNode (an_getInitialState A) (Some B) G)))" for b n
    unfolding markLoop_def by (auto intro!: costless_update split: option.splits)
  then show ?case using Cons.IH by (simp add: case_prod_beta)
qed simp

lemma costless_exits: "costless G \<Longrightarrow> costless (initExits F M Bs G)"
proof (induction Bs arbitrary: G)
  case (Cons B Bs)
  have "costless (H\<lparr>FunctionReturns := r\<rparr>)" "costless (H\<lparr>asg_CallSites := c\<rparr>)" if "costless H" for H :: "'a AbstractStateGraph" and r c
    using that by (simp_all add: costless_def asg_getNode_def)
  then show ?case using Cons costless_update [OF Cons.prems] by (simp add: Let_def)
qed simp

lemma initial_costs:
  assumes "mf_wf MF"
  shows "\<forall>n < length (mf_blocks MF). nodeCost (ws_Graph (initializeGraph_MF A MF MLI LB newSolver)) n = 0"
proof -
  let ?S = "initializeGraph_MF A MF MLI LB newSolver"
  obtain M G where n: "initNodes A MLI LB (mf_blocks MF) [] emptyASG = (M, G)" by fastforce
  have "costless emptyASG" by (simp add: costless_def emptyASG_def asg_getNode_def)
  then have "costless G" using costless_nodes [of emptyASG A MLI LB "mf_blocks MF" "[]"] n by simp
  then have G2: "costless (initEdges MLI M (cfgEdges (mf_blocks MF)) G)" by (rule costless_edges)
  have F: "costless (H\<lparr>FunctionEntries := r\<rparr>) \<longleftrightarrow> costless H" for H :: "'a AbstractStateGraph" and r
    by (simp add: costless_def asg_getNode_def)
  have "costless (ws_Graph ?S)"
    unfolding initializeGraph_MF_def using n G2
    by (auto simp: newSolver_def addToWorklist_def Let_def F simp del: initExits.simps initNodes.simps
        intro!: costless_exits costless_update split: list.split)
  moreover have "mirrors MF (ws_Graph ?S)" by (rule initializeGraph_MF_spec(1) [OF assms])
  ultimately show ?thesis
    by (fastforce simp: costless_def mirrors_def asg_ids_def nodeCost_def set_eq_iff)
qed



end
