(* ===== verification/Reach.thy ===== *)
theory Reach
  imports Prelude
begin

text \<open>
  The two graph traversals the program repeats: the worklist that collects what is reachable
  (\<open>if (Set.insert(S).second) WL.push_back(S)\<close>) and the depth-first search that finds the
  edges closing a cycle. A graph is an association list from a node to its successors, so
  both terminate. The back of the vector the code pushes to and pops from is the head of the
  list. What they compute is characterised here once: the reachable set, and back edges that
  every cycle passes through.
\<close>

type_synonym 'a graph = "('a \<times> 'a list) list"

definition nbrs :: "'a graph \<Rightarrow> 'a \<Rightarrow> 'a list" where
  "nbrs g a = omap_get [] g a"

definition edges :: "'a graph \<Rightarrow> ('a \<times> 'a) set" where
  "edges g = {(a, b). b \<in> set (nbrs g a)}"

lemma nbrs_in: "b \<in> set (nbrs g a) \<Longrightarrow> b \<in> set (concat (map snd g))"
  by (cases "map_of g a") (force simp: nbrs_def omap_get_def dest: map_of_SomeD)+

subsection \<open>What is reachable\<close>

fun push_new :: "'a list \<Rightarrow> 'a list \<Rightarrow> 'a set \<Rightarrow> 'a list \<times> 'a set" where
  "push_new [] WL V = (WL, V)"
| "push_new (s # ss) WL V =
     (if s \<in> V then push_new ss WL V else push_new ss (s # WL) (insert s V))"

lemma push_new_snd: "snd (push_new ss WL V) = V \<union> set ss"
  by (induction ss WL V rule: push_new.induct) auto

lemma push_new_fst: "set (fst (push_new ss WL V)) = set WL \<union> (set ss - V)"
  by (induction ss WL V rule: push_new.induct) auto

lemma push_new_nothing: "set ss \<subseteq> V \<Longrightarrow> push_new ss WL V = (WL, V)"
  by (induction ss WL V rule: push_new.induct) auto

function search :: "'a graph \<Rightarrow> 'a list \<Rightarrow> 'a set \<Rightarrow> 'a set" where
  "search g [] V = V"
| "search g (Cur # WL) V =
     search g (fst (push_new (nbrs g Cur) WL V)) (snd (push_new (nbrs g Cur) WL V))"
  by pat_completeness auto

lemma fewer_unvisited:
  assumes "\<not> set (nbrs g c) \<subseteq> V"
  shows "card (set (concat (map snd g)) - (V \<union> set (nbrs g c))) < card (set (concat (map snd g)) - V)"
proof (rule psubset_card_mono)
  show "finite (set (concat (map snd g)) - V)" by simp
  obtain b where "b \<in> set (nbrs g c)" "b \<notin> V" using assms by blast
  then show "set (concat (map snd g)) - (V \<union> set (nbrs g c)) \<subset> set (concat (map snd g)) - V"
    using nbrs_in [of b g c] by blast
qed

termination search
proof (relation "measures [\<lambda>(g, WL, V). card (set (concat (map snd g)) - V), \<lambda>(g, WL, V). length WL]", goal_cases)
  case (2 g Cur WL V)
  show ?case
  proof (cases "set (nbrs g Cur) \<subseteq> V")
    case True
    then show ?thesis by (simp add: push_new_nothing)
  next
    case False
    then show ?thesis using fewer_unvisited [OF False] by (simp add: push_new_snd)
  qed
qed simp

lemma search_bounds:
  "V \<subseteq> search g WL V \<and>
   (\<forall>x \<in> set WL \<union> (search g WL V - V). set (nbrs g x) \<subseteq> search g WL V) \<and>
   search g WL V \<subseteq> V \<union> (edges g)\<^sup>+ `` set WL"
proof (induction g WL V rule: search.induct)
  case (2 g Cur WL V)
  let ?P = "push_new (nbrs g Cur) WL V" and ?S = "search g (Cur # WL) V"
  have V': "snd ?P = V \<union> set (nbrs g Cur)" and W': "set (fst ?P) = set WL \<union> (set (nbrs g Cur) - V)"
    by (simp_all add: push_new_snd push_new_fst)
  have S: "?S = search g (fst ?P) (snd ?P)" by simp
  note IH = 2 [folded S, unfolded V' W']
  have "set (nbrs g Cur) \<subseteq> ?S" using IH by blast
  moreover have "set (nbrs g x) \<subseteq> ?S" if "x \<in> set WL \<union> (?S - V)" for x
    using IH that by blast
  moreover have "?S \<subseteq> V \<union> (edges g)\<^sup>+ `` set (Cur # WL)"
  proof
    fix y assume "y \<in> ?S"
    then consider "y \<in> V" | "y \<in> set (nbrs g Cur)" | x where "x \<in> set WL" "(x, y) \<in> (edges g)\<^sup>+"
      | x where "x \<in> set (nbrs g Cur)" "(x, y) \<in> (edges g)\<^sup>+" using IH by blast
    then show "y \<in> V \<union> (edges g)\<^sup>+ `` set (Cur # WL)"
    proof cases
      case 2
      then have "(Cur, y) \<in> edges g" by (simp add: edges_def)
      then show ?thesis by (auto intro: r_into_trancl)
    next
      case (4 x)
      then have "(Cur, x) \<in> edges g" by (simp add: edges_def)
      then have "(Cur, y) \<in> (edges g)\<^sup>+" using 4(2) by (rule trancl_into_trancl2)
      then show ?thesis by auto
    qed auto
  qed
  ultimately show ?case using IH by auto
qed auto

lemma search_from_empty: "search g [h] {} = (edges g)\<^sup>+ `` {h}"
proof
  let ?S = "search g [h] {}"
  show "?S \<subseteq> (edges g)\<^sup>+ `` {h}" using search_bounds [of "{}" g "[h]"] by simp
  have closed: "x = h \<or> x \<in> ?S \<Longrightarrow> set (nbrs g x) \<subseteq> ?S" for x
    using search_bounds [of "{}" g "[h]"] by auto
  have "(h, y) \<in> (edges g)\<^sup>+ \<Longrightarrow> y \<in> ?S" for y
  proof (induction rule: trancl_induct)
    case (base y)
    then show ?case using closed [of h] by (auto simp: edges_def)
  next
    case (step y z)
    then show ?case using closed [of y] by (auto simp: edges_def)
  qed
  then show "(edges g)\<^sup>+ `` {h} \<subseteq> ?S" by blast
qed

lemma search_from_root: "search g [r] {r} = (edges g)\<^sup>* `` {r}"
proof
  let ?S = "search g [r] {r}"
  show "?S \<subseteq> (edges g)\<^sup>* `` {r}"
    using search_bounds [of "{r}" g "[r]"] by (auto dest: trancl_into_rtrancl)
  have closed: "x \<in> ?S \<Longrightarrow> set (nbrs g x) \<subseteq> ?S" for x
    using search_bounds [of "{r}" g "[r]"] by auto
  have "(r, y) \<in> (edges g)\<^sup>* \<Longrightarrow> y \<in> ?S" for y
  proof (induction rule: rtrancl_induct)
    case base
    show ?case using search_bounds [of "{r}" g "[r]"] by blast
  next
    case (step y z)
    then show ?case using closed [of y] by (auto simp: edges_def)
  qed
  then show "(edges g)\<^sup>* `` {r} \<subseteq> ?S" by blast
qed

text \<open>The variant that stops at a target.\<close>

function reaches_loop :: "'a graph \<Rightarrow> 'a \<Rightarrow> 'a list \<Rightarrow> 'a set \<Rightarrow> bool" where
  "reaches_loop g Dst [] V = False"
| "reaches_loop g Dst (Cur # WL) V =
     (if Cur = Dst then True
      else reaches_loop g Dst (fst (push_new (nbrs g Cur) WL V)) (snd (push_new (nbrs g Cur) WL V)))"
  by pat_completeness auto
termination
proof (relation "measures [\<lambda>(g, d, WL, V). card (set (concat (map snd g)) - V), \<lambda>(g, d, WL, V). length WL]", goal_cases)
  case (2 g d Cur WL V)
  show ?case
  proof (cases "set (nbrs g Cur) \<subseteq> V")
    case True
    then show ?thesis by (simp add: push_new_nothing)
  next
    case False
    then show ?thesis using fewer_unvisited [OF False] by (simp add: push_new_snd)
  qed
qed simp


lemma reaches_loop_iff:
  "Dst \<notin> V - set WL \<Longrightarrow>
   reaches_loop g Dst WL V \<longleftrightarrow> Dst \<in> set WL \<or> Dst \<in> search g WL V - V"
proof (induction g Dst WL V rule: reaches_loop.induct)
  case (2 g Dst Cur WL V)
  show ?case
  proof (cases "Cur = Dst")
    case False
    let ?P = "push_new (nbrs g Cur) WL V"
    have V': "snd ?P = V \<union> set (nbrs g Cur)" and W': "set (fst ?P) = set WL \<union> (set (nbrs g Cur) - V)"
      by (simp_all add: push_new_snd push_new_fst)
    have pre: "Dst \<notin> snd ?P - set (fst ?P)" using 2(2) False unfolding V' W' by auto
    have "V \<union> set (nbrs g Cur) \<subseteq> search g (Cur # WL) V"
      using search_bounds [of V g "Cur # WL"] by auto
    then show ?thesis
      using 2(1) [OF False pre] False unfolding V' W' by (auto simp: V' W')
  qed simp
qed simp

definition reaches_from :: "'a graph \<Rightarrow> 'a \<Rightarrow> 'a \<Rightarrow> bool" where
  "reaches_from g Src Dst = reaches_loop g Dst [Src] {}"

lemma reaches_from_iff: "reaches_from g Src Dst \<longleftrightarrow> (Src, Dst) \<in> (edges g)\<^sup>*"
  unfolding reaches_from_def
  by (subst reaches_loop_iff) (auto simp: search_from_empty rtrancl_eq_or_trancl simp del: search.simps)

subsection \<open>Back edges, by a recursive depth-first search\<close>

text \<open>The colours of the search: 0, 1 and 2 in the code. The fuel bounds the recursion depth.\<close>

datatype Color = White | Gray | Black

type_synonym 'a dfs_state = "('a \<Rightarrow> Color) \<times> ('a \<times> 'a) set"

function dfs :: "nat \<Rightarrow> 'a graph \<Rightarrow> 'a set \<Rightarrow> 'a \<Rightarrow> 'a dfs_state \<Rightarrow> 'a dfs_state option"
  and dfs_nbrs :: "nat \<Rightarrow> 'a graph \<Rightarrow> 'a set \<Rightarrow> 'a \<Rightarrow> 'a list \<Rightarrow> 'a dfs_state \<Rightarrow> 'a dfs_state option" where
  "dfs 0 g SCC F st = None"
| "dfs (Suc n) g SCC F st =
     (case dfs_nbrs n g SCC F (nbrs g F) ((fst st)(F := Gray), snd st) of
        Some st' \<Rightarrow> Some ((fst st')(F := Black), snd st')
      | None \<Rightarrow> None)"
| "dfs_nbrs n g SCC F [] st = Some st"
| "dfs_nbrs n g SCC F (G # Gs) st =
     (if G \<notin> SCC then dfs_nbrs n g SCC F Gs st
      else if fst st G = Gray then dfs_nbrs n g SCC F Gs (fst st, insert (F, G) (snd st))
      else if fst st G = White then
        (case dfs n g SCC G st of
           Some st' \<Rightarrow> dfs_nbrs n g SCC F Gs st'
         | None \<Rightarrow> None)
      else dfs_nbrs n g SCC F Gs st)"
  by pat_completeness auto
termination
  by (relation "measures [\<lambda>x. case x of Inl (n, _) \<Rightarrow> 2 * n | Inr (n, _) \<Rightarrow> 2 * n + 1,
      \<lambda>x. case x of Inl _ \<Rightarrow> 0 | Inr (_, _, _, _, Gs, _) \<Rightarrow> length Gs]") auto

definition whites :: "'a set \<Rightarrow> ('a \<Rightarrow> Color) \<Rightarrow> 'a set" where
  "whites SCC c = {x \<in> SCC. c x = White}"

definition blacks :: "('a \<Rightarrow> Color) \<Rightarrow> 'a set" where
  "blacks c = {x. c x = Black}"

text \<open>The edges inside the component that leave a finished node and close no cycle.\<close>

definition tree_edges :: "'a graph \<Rightarrow> 'a set \<Rightarrow> ('a \<times> 'a) set \<Rightarrow> 'a set \<Rightarrow> ('a \<times> 'a) set" where
  "tree_edges g SCC B X = {(u, v). u \<in> X \<and> v \<in> SCC \<and> (u, v) \<in> edges g \<and> (u, v) \<notin> B}"

definition dfs_inv :: "'a graph \<Rightarrow> 'a set \<Rightarrow> 'a dfs_state \<Rightarrow> bool" where
  "dfs_inv g SCC st \<longleftrightarrow>
     tree_edges g SCC (snd st) (blacks (fst st)) \<subseteq> blacks (fst st) \<times> blacks (fst st) \<and>
     acyclic (tree_edges g SCC (snd st) (blacks (fst st))) \<and>
     snd st \<subseteq> edges g \<inter> SCC \<times> SCC"

definition dfs_later :: "'a set \<Rightarrow> 'a dfs_state \<Rightarrow> 'a dfs_state \<Rightarrow> bool" where
  "dfs_later SCC st st' \<longleftrightarrow>
     (\<forall>x. fst st' x = Gray \<longleftrightarrow> fst st x = Gray) \<and> blacks (fst st) \<subseteq> blacks (fst st') \<and>
     whites SCC (fst st') \<subseteq> whites SCC (fst st) \<and> snd st \<subseteq> snd st'"

lemma dfs_later_trans: "dfs_later S a b \<Longrightarrow> dfs_later S b c \<Longrightarrow> dfs_later S a c"
  by (auto simp: dfs_later_def)

lemma tree_edges_mono: "B \<subseteq> B' \<Longrightarrow> tree_edges g S B' X \<subseteq> tree_edges g S B X"
  by (auto simp: tree_edges_def)

lemma acyclic_new_source:
  assumes "acyclic r" "r \<subseteq> X \<times> X" "f \<notin> X" "Y \<subseteq> X"
  shows "acyclic (r \<union> {f} \<times> Y)"
proof -
  have no: "(x, f) \<notin> (r \<union> {f} \<times> Y)" for x using assms by auto
  have "(x, y) \<in> (r \<union> {f} \<times> Y)\<^sup>+ \<Longrightarrow> x \<noteq> f \<Longrightarrow> (x, y) \<in> r\<^sup>+ \<and> y \<noteq> f" for x y
  proof (induction rule: trancl_induct)
    case (base y)
    then show ?case using no by auto
  next
    case (step y z)
    then show ?case using no by (auto intro: trancl_into_trancl)
  qed
  moreover have "(f, f) \<notin> (r \<union> {f} \<times> Y)\<^sup>+" using no by (blast elim: tranclE)
  ultimately show ?thesis using assms(1) unfolding acyclic_def by blast
qed

lemma finish_node:
  assumes inv: "dfs_inv g SCC st" and gray: "fst st F = Gray"
    and finished: "\<forall>v \<in> set (nbrs g F) \<inter> SCC. (F, v) \<in> snd st \<or> fst st v = Black"
  shows "dfs_inv g SCC ((fst st)(F := Black), snd st)"
proof -
  let ?X = "blacks (fst st)" and ?T = "tree_edges g SCC (snd st)"
  have X': "blacks ((fst st)(F := Black)) = insert F ?X" by (auto simp: blacks_def)
  have F: "F \<notin> ?X" using gray by (simp add: blacks_def)
  define Y where "Y = {v \<in> set (nbrs g F) \<inter> SCC. (F, v) \<notin> snd st}"
  have Y: "Y \<subseteq> ?X" using finished by (auto simp: Y_def blacks_def)
  have T': "?T (insert F ?X) = ?T ?X \<union> {F} \<times> Y"
    by (auto simp: tree_edges_def Y_def edges_def)
  have "acyclic (?T ?X \<union> {F} \<times> Y)"
    using inv F Y by (intro acyclic_new_source [where X = ?X]) (auto simp: dfs_inv_def)
  then show ?thesis using inv Y unfolding dfs_inv_def by (auto simp: X' T')
qed

lemma dfs_correct:
  "finite SCC \<Longrightarrow> F \<in> SCC \<Longrightarrow> fst st F = White \<Longrightarrow> card (whites SCC (fst st)) \<le> n \<Longrightarrow>
   dfs_inv g SCC st \<Longrightarrow>
   \<exists>st'. dfs n g SCC F st = Some st' \<and> dfs_inv g SCC st' \<and> dfs_later SCC st st' \<and> fst st' F = Black"
  "finite SCC \<Longrightarrow> F \<in> SCC \<Longrightarrow> fst st F = Gray \<Longrightarrow> card (whites SCC (fst st)) \<le> n \<Longrightarrow>
   dfs_inv g SCC st \<Longrightarrow> set Gs \<subseteq> set (nbrs g F) \<Longrightarrow>
   \<exists>st'. dfs_nbrs n g SCC F Gs st = Some st' \<and> dfs_inv g SCC st' \<and> dfs_later SCC st st' \<and>
     (\<forall>v \<in> set Gs \<inter> SCC. (F, v) \<in> snd st' \<or> fst st' v = Black)"
proof (induction n g SCC F st and n g SCC F Gs st rule: dfs_dfs_nbrs.induct)
  case (1 g SCC F st)
  then have "whites SCC (fst st) = {}" by (simp add: whites_def)
  moreover have "F \<in> whites SCC (fst st)" using 1 by (simp add: whites_def)
  ultimately show ?case by blast
next
  case (2 n g SCC F st)
  let ?st = "((fst st)(F := Gray), snd st)"
  have bl: "blacks (fst ?st) = blacks (fst st)" using "2.prems"(3) by (auto simp: blacks_def)
  have inv: "dfs_inv g SCC ?st" using "2.prems"(5) by (simp add: dfs_inv_def bl [simplified])
  have wh: "whites SCC (fst ?st) = whites SCC (fst st) - {F}" by (auto simp: whites_def)
  have "F \<in> whites SCC (fst st)" "finite (whites SCC (fst st))"
    using "2.prems" by (simp_all add: whites_def)
  then have "card (whites SCC (fst ?st)) \<le> n" using "2.prems"(4) unfolding wh by (simp add: card_Diff_singleton)
  from "2.IH" [OF "2.prems"(1,2) _ this inv]
  obtain st' where st': "dfs_nbrs n g SCC F (nbrs g F) ?st = Some st'" "dfs_inv g SCC st'"
    "dfs_later SCC ?st st'" "\<forall>v \<in> set (nbrs g F) \<inter> SCC. (F, v) \<in> snd st' \<or> fst st' v = Black"
    by auto
  have "fst st' F = Gray" using st'(3) by (auto simp: dfs_later_def)
  from finish_node [OF st'(2) this st'(4)]
  have "dfs_inv g SCC ((fst st')(F := Black), snd st')" .
  moreover have "dfs_later SCC st ((fst st')(F := Black), snd st')"
    using st'(3) "2.prems"(3) unfolding dfs_later_def blacks_def whites_def by auto
  ultimately show ?case using st'(1) by simp
next
  case (3 n g SCC F st)
  then show ?case by (simp add: dfs_later_def)
next
  case (4 n g SCC F G Gs st)
  note sub = "4.prems"(6)
  consider (out) "G \<notin> SCC" | (gray) "G \<in> SCC" "fst st G = Gray" | (white) "G \<in> SCC" "fst st G = White"
    | (black) "G \<in> SCC" "fst st G = Black" by (cases "fst st G") blast+
  then show ?case
  proof cases
    case out
    then show ?thesis using "4.IH"(1) [OF out] "4.prems" by auto
  next
    case gray
    let ?st = "(fst st, insert (F, G) (snd st))"
    have "(F, G) \<in> edges g" using sub by (simp add: edges_def)
    then have "dfs_inv g SCC ?st"
      using "4.prems"(2,5) gray tree_edges_mono [of "snd st" "snd ?st" g SCC "blacks (fst st)"]
      by (auto simp: dfs_inv_def intro: acyclic_subset)
    then obtain st' where st': "dfs_nbrs n g SCC F Gs ?st = Some st'" "dfs_inv g SCC st'"
      "dfs_later SCC ?st st'" "\<forall>v \<in> set Gs \<inter> SCC. (F, v) \<in> snd st' \<or> fst st' v = Black"
      using "4.IH"(2) "4.prems" gray by auto
    then show ?thesis using gray by (auto simp: dfs_later_def)
  next
    case white
    obtain st1 where st1: "dfs n g SCC G st = Some st1" "dfs_inv g SCC st1" "dfs_later SCC st st1"
      "fst st1 G = Black"
      using "4.IH"(3) "4.prems" white by auto
    have "finite (whites SCC (fst st))" using "4.prems"(1) by (simp add: whites_def)
    then have "card (whites SCC (fst st1)) \<le> n"
      using st1(3) "4.prems"(4) card_mono [of "whites SCC (fst st)" "whites SCC (fst st1)"]
      by (auto simp: dfs_later_def)
    then obtain st' where st': "dfs_nbrs n g SCC F Gs st1 = Some st'" "dfs_inv g SCC st'"
      "dfs_later SCC st1 st'" "\<forall>v \<in> set Gs \<inter> SCC. (F, v) \<in> snd st' \<or> fst st' v = Black"
      using "4.IH"(4) [of st1] "4.prems" white st1 by (auto simp: dfs_later_def)
    have "fst st' G = Black" using st1(4) st'(3) by (auto simp: dfs_later_def blacks_def)
    then show ?thesis
      using st1(1) st' white dfs_later_trans [OF st1(3) st'(3)] by auto
  next
    case black
    then obtain st' where st': "dfs_nbrs n g SCC F Gs st = Some st'" "dfs_inv g SCC st'"
      "dfs_later SCC st st'" "\<forall>v \<in> set Gs \<inter> SCC. (F, v) \<in> snd st' \<or> fst st' v = Black"
      using "4.IH"(5) "4.prems" by auto
    have "fst st' G = Black" using black st'(3) by (auto simp: dfs_later_def blacks_def)
    then show ?thesis using black st' by auto
  qed
qed

text \<open>The search from every entry in turn.\<close>

fun dfs_all :: "nat \<Rightarrow> 'a graph \<Rightarrow> 'a set \<Rightarrow> 'a list \<Rightarrow> 'a dfs_state \<Rightarrow> 'a dfs_state option" where
  "dfs_all n g SCC [] st = Some st"
| "dfs_all n g SCC (E # Es) st =
     (if fst st E = White then
        (case dfs n g SCC E st of Some st' \<Rightarrow> dfs_all n g SCC Es st' | None \<Rightarrow> None)
      else dfs_all n g SCC Es st)"

lemma dfs_all_correct:
  "finite SCC \<Longrightarrow> set Es \<subseteq> SCC \<Longrightarrow> card (whites SCC (fst st)) \<le> n \<Longrightarrow> dfs_inv g SCC st \<Longrightarrow>
   \<forall>x. fst st x \<noteq> Gray \<Longrightarrow>
   \<exists>st'. dfs_all n g SCC Es st = Some st' \<and> dfs_inv g SCC st' \<and> dfs_later SCC st st' \<and>
     (\<forall>x. fst st' x \<noteq> Gray) \<and> (\<forall>v \<in> set Es. fst st' v = Black)"
proof (induction n g SCC Es st rule: dfs_all.induct)
  case (1 n g SCC st)
  then show ?case by (simp add: dfs_later_def)
next
  case (2 n g SCC E Es st)
  show ?case
  proof (cases "fst st E = White")
    case True
    obtain st1 where st1: "dfs n g SCC E st = Some st1" "dfs_inv g SCC st1" "dfs_later SCC st st1"
      "fst st1 E = Black"
      using dfs_correct(1) [of SCC E st n g] 2 True by auto
    have "finite (whites SCC (fst st))" using "2.prems"(1) by (simp add: whites_def)
    then have "card (whites SCC (fst st1)) \<le> n"
      using st1(3) "2.prems"(3) card_mono [of "whites SCC (fst st)" "whites SCC (fst st1)"]
      by (auto simp: dfs_later_def)
    then obtain st' where st': "dfs_all n g SCC Es st1 = Some st'" "dfs_inv g SCC st'"
      "dfs_later SCC st1 st'" "\<forall>x. fst st' x \<noteq> Gray" "\<forall>v \<in> set Es. fst st' v = Black"
      using "2.IH"(1) [OF True st1(1)] "2.prems" st1 by (auto simp: dfs_later_def)
    have "fst st' E = Black" using st1(4) st'(3) by (auto simp: dfs_later_def blacks_def)
    then show ?thesis
      using st1(1) st' True dfs_later_trans [OF st1(3) st'(3)] by auto
  next
    case False
    then have b: "fst st E = Black" using "2.prems"(5) by (cases "fst st E") auto
    obtain st' where st': "dfs_all n g SCC Es st = Some st'" "dfs_inv g SCC st'"
      "dfs_later SCC st st'" "\<forall>x. fst st' x \<noteq> Gray" "\<forall>v \<in> set Es. fst st' v = Black"
      using "2.IH"(2) [OF False] "2.prems" by auto
    have "fst st' E = Black" using b st'(3) by (auto simp: dfs_later_def blacks_def)
    then show ?thesis using False st' by auto
  qed
qed

text \<open>Without the back edges found, the component has no cycle; with enough fuel the search
  returns.\<close>

lemma dfs_all_acyclic:
  assumes "finite SCC" "set Es \<subseteq> SCC" "SCC \<subseteq> set Es" "card SCC \<le> n"
  shows "\<exists>c B. dfs_all n g SCC Es (\<lambda>_. White, {}) = Some (c, B) \<and>
    B \<subseteq> edges g \<inter> SCC \<times> SCC \<and> acyclic (edges g \<inter> SCC \<times> SCC - B)"
proof -
  have "whites SCC (fst (\<lambda>_. White, {})) = SCC" "dfs_inv g SCC (\<lambda>_. White, {})"
    by (simp_all add: whites_def dfs_inv_def tree_edges_def blacks_def acyclic_def)
  then obtain st' where st': "dfs_all n g SCC Es (\<lambda>_. White, {}) = Some st'" "dfs_inv g SCC st'"
    "\<forall>v \<in> set Es. fst st' v = Black"
    using dfs_all_correct [of SCC Es "(\<lambda>_. White, {})" n g] assms by auto
  have "edges g \<inter> SCC \<times> SCC - snd st' \<subseteq> tree_edges g SCC (snd st') (blacks (fst st'))"
    using st'(3) assms(3) by (auto simp: tree_edges_def blacks_def)
  then have "acyclic (edges g \<inter> SCC \<times> SCC - snd st')"
    using st'(2) acyclic_subset unfolding dfs_inv_def by blast
  then show ?thesis
    using st'(1,2) unfolding dfs_inv_def by (cases st') auto
qed

subsection \<open>Back edges, by an explicit stack\<close>

text \<open>Each entry of the stack is a node with its successor iterator, a position among the
  successors; the top is the head of the list.\<close>

type_synonym 'a stack = "('a \<times> nat) list"

function dfs_stack :: "'a graph \<Rightarrow> 'a stack \<Rightarrow> ('a \<Rightarrow> Color) \<Rightarrow> ('a \<times> 'a) set \<Rightarrow> ('a \<times> 'a) set" where
  "dfs_stack g [] Colors Bk = Bk"
| "dfs_stack g ((BB, i) # Stack) Colors Bk =
     (if \<not> i < length (nbrs g BB) then dfs_stack g Stack (Colors(BB := Black)) Bk
      else
        let Succ = nbrs g BB ! i in
        if Colors Succ = White then
          dfs_stack g ((Succ, 0) # (BB, i + 1) # Stack) (Colors(Succ := Gray)) Bk
        else if Colors Succ = Gray then
          dfs_stack g ((BB, i + 1) # Stack) Colors (insert (BB, Succ) Bk)
        else dfs_stack g ((BB, i + 1) # Stack) Colors Bk)"
  by pat_completeness auto

lemma whites_univ_less:
  assumes "i < length (nbrs g BB)" "c (nbrs g BB ! i) = White"
  shows "card (whites (set (concat (map snd g))) (c(nbrs g BB ! i := Gray)))
    < card (whites (set (concat (map snd g))) c)"
proof (rule psubset_card_mono)
  show "finite (whites (set (concat (map snd g))) c)" by (simp add: whites_def)
  have "nbrs g BB ! i \<in> set (concat (map snd g))" using assms(1) nth_mem nbrs_in by metis
  then show "whites (set (concat (map snd g))) (c(nbrs g BB ! i := Gray))
      \<subset> whites (set (concat (map snd g))) c"
    using assms(2) by (auto simp: whites_def)
qed

lemma whites_black:
  "card (whites (set (concat (map snd g))) (c(b := Black))) \<le> card (whites (set (concat (map snd g))) c)"
  by (rule card_mono) (auto simp: whites_def)

termination dfs_stack
proof (relation "measures [\<lambda>(g, st, c, b). card (whites (set (concat (map snd g))) c),
    \<lambda>(g, st, c, b). \<Sum>(u, i) \<leftarrow> st. Suc (length (nbrs g u) - i)]", goal_cases)
  case (2 g BB i Stack Colors Bk)
  then show ?case using whites_black [of g Colors BB] by (auto simp: le_less)
next
  case (3 g BB i Stack Colors Bk)
  then show ?case using whites_univ_less [of i g BB Colors] by simp
qed auto

declare dfs_stack.simps(2) [simp del]

lemma dfs_stack_step:
  "\<not> i < length (nbrs g u) \<Longrightarrow>
   dfs_stack g ((u, i) # st) c B = dfs_stack g st (c(u := Black)) B"
  "i < length (nbrs g u) \<Longrightarrow> c (nbrs g u ! i) = White \<Longrightarrow>
   dfs_stack g ((u, i) # st) c B =
     dfs_stack g ((nbrs g u ! i, 0) # (u, i + 1) # st) (c(nbrs g u ! i := Gray)) B"
  "i < length (nbrs g u) \<Longrightarrow> c (nbrs g u ! i) = Gray \<Longrightarrow>
   dfs_stack g ((u, i) # st) c B = dfs_stack g ((u, i + 1) # st) c (insert (u, nbrs g u ! i) B)"
  "i < length (nbrs g u) \<Longrightarrow> c (nbrs g u ! i) = Black \<Longrightarrow>
   dfs_stack g ((u, i) # st) c B = dfs_stack g ((u, i + 1) # st) c B"
  by (simp_all add: dfs_stack.simps(2) Let_def)

text \<open>The entry below the top has looked at the node above it last.\<close>

fun stack_ok :: "'a graph \<Rightarrow> ('a \<times> 'a) set \<Rightarrow> ('a \<Rightarrow> Color) \<Rightarrow> 'a option \<Rightarrow> 'a stack \<Rightarrow> bool" where
  "stack_ok g B c a [] \<longleftrightarrow> True"
| "stack_ok g B c a ((u, i) # st) \<longleftrightarrow>
     c u = Gray \<and> u \<notin> fst ` set st \<and>
     (\<forall>k < i. k < length (nbrs g u) \<longrightarrow>
        (u, nbrs g u ! k) \<in> B \<or> c (nbrs g u ! k) = Black \<or> a = Some (nbrs g u ! k)) \<and>
     stack_ok g B c (Some u) st"

lemma stack_ok_mono:
  "stack_ok g B c a st \<Longrightarrow> B \<subseteq> B' \<Longrightarrow> \<forall>u \<in> fst ` set st. c' u = Gray \<Longrightarrow>
   \<forall>v. c v = Black \<longrightarrow> c' v = Black \<Longrightarrow> a = a' \<or> (\<forall>v. a = Some v \<longrightarrow> c' v = Black) \<Longrightarrow>
   stack_ok g B' c' a' st"
  by (induction g B c a st arbitrary: a' rule: stack_ok.induct) auto

definition stack_inv :: "'a graph \<Rightarrow> 'a stack \<Rightarrow> ('a \<Rightarrow> Color) \<Rightarrow> ('a \<times> 'a) set \<Rightarrow> bool" where
  "stack_inv g st c B \<longleftrightarrow>
     dfs_inv g UNIV (c, B) \<and> stack_ok g B c None st \<and> (\<forall>u. c u = Gray \<longleftrightarrow> u \<in> fst ` set st) \<and>
     (\<forall>(u, v) \<in> B. c v \<noteq> White)"

lemma stack_step_pop:
  assumes "stack_inv g ((u, i) # st) c B" "\<not> i < length (nbrs g u)"
  shows "stack_inv g st (c(u := Black)) B"
proof -
  have gray: "c u = Gray" and top: "u \<notin> fst ` set st"
    and fin: "\<forall>k < length (nbrs g u). (u, nbrs g u ! k) \<in> B \<or> c (nbrs g u ! k) = Black"
    and rest: "stack_ok g B c (Some u) st"
    using assms by (auto simp: stack_inv_def)
  have "\<forall>v \<in> set (nbrs g u) \<inter> UNIV. (u, v) \<in> snd (c, B) \<or> fst (c, B) v = Black"
    using fin by (auto simp: in_set_conv_nth)
  moreover have "dfs_inv g UNIV (c, B)" using assms(1) by (simp add: stack_inv_def)
  ultimately have "dfs_inv g UNIV (c(u := Black), B)" using finish_node [of g UNIV "(c, B)" u] gray by simp
  moreover have "stack_ok g B (c(u := Black)) None st"
    by (rule stack_ok_mono [OF rest]) (use assms(1) top in \<open>auto simp: stack_inv_def\<close>)
  ultimately show ?thesis using assms(1) top unfolding stack_inv_def by auto
qed

lemma stack_step_push:
  assumes "stack_inv g ((u, i) # st) c B" "i < length (nbrs g u)" "c (nbrs g u ! i) = White"
  shows "stack_inv g ((nbrs g u ! i, 0) # (u, i + 1) # st) (c(nbrs g u ! i := Gray)) B"
proof -
  let ?v = "nbrs g u ! i" and ?c = "c(nbrs g u ! i := Gray)"
  have bl: "blacks ?c = blacks c" using assms(3) by (auto simp: blacks_def)
  have nv: "?v \<notin> fst ` set ((u, i) # st)" using assms(1,3) by (auto simp: stack_inv_def)
  have "stack_ok g B ?c (Some u) st"
    by (rule stack_ok_mono [where a = "Some u" and c = c and B = B])
      (use assms nv in \<open>auto simp: stack_inv_def\<close>)
  then have "stack_ok g B ?c None ((?v, 0) # (u, i + 1) # st)"
    using assms nv by (auto simp: stack_inv_def less_Suc_eq)
  moreover have "dfs_inv g UNIV (?c, B)"
    using assms(1) by (simp add: stack_inv_def dfs_inv_def bl)
  ultimately show ?thesis using assms(1) unfolding stack_inv_def by auto
qed

lemma stack_step_skip:
  assumes "stack_inv g ((u, i) # st) c B" "i < length (nbrs g u)"
    and "B' = B \<and> c (nbrs g u ! i) = Black \<or> c (nbrs g u ! i) = Gray \<and> B' = insert (u, nbrs g u ! i) B"
  shows "stack_inv g ((u, i + 1) # st) c B'"
proof -
  let ?v = "nbrs g u ! i"
  have sub: "B \<subseteq> B'" using assms(3) by (auto split: if_splits)
  have "(u, ?v) \<in> edges g" using assms(2) by (simp add: edges_def)
  then have "dfs_inv g UNIV (c, B')"
    using assms(1,3) tree_edges_mono [OF sub, of g UNIV "blacks c"]
    by (auto simp: stack_inv_def dfs_inv_def intro: acyclic_subset split: if_splits)
  moreover have "stack_ok g B' c (Some u) st"
    by (rule stack_ok_mono [where a = "Some u" and c = c and B = B])
      (use assms sub in \<open>auto simp: stack_inv_def\<close>)
  then have "stack_ok g B' c None ((u, i + 1) # st)"
    using assms sub by (auto simp: stack_inv_def less_Suc_eq split: if_splits)
  moreover have "c ?v \<noteq> White" using assms(3) by auto
  then have "\<forall>(x, y) \<in> B'. c y \<noteq> White"
    using assms(1,3) unfolding stack_inv_def by blast
  moreover have "\<forall>x. c x = Gray \<longleftrightarrow> x \<in> fst ` set ((u, i + 1) # st)"
    using assms(1) by (simp add: stack_inv_def)
  ultimately show ?thesis unfolding stack_inv_def by blast
qed

lemma dfs_stack_correct:
  "stack_inv g st c B \<Longrightarrow>
   \<exists>c'. stack_inv g [] c' (dfs_stack g st c B) \<and> (\<forall>v. c v \<noteq> White \<longrightarrow> c' v = Black)"
proof (induction g st c B rule: dfs_stack.induct)
  case (1 g Colors Bk)
  then have "Colors v \<noteq> Gray" for v by (auto simp: stack_inv_def)
  with 1 show ?case by (intro exI [of _ Colors]) (metis Color.exhaust dfs_stack.simps(1))
next
  case (2 g BB i Stack Colors Bk)
  let ?v = "nbrs g BB ! i"
  consider (pop) "\<not> i < length (nbrs g BB)" | (push) "i < length (nbrs g BB)" "Colors ?v = White"
    | (gray) "i < length (nbrs g BB)" "Colors ?v = Gray"
    | (black) "i < length (nbrs g BB)" "Colors ?v = Black" by (cases "Colors ?v") blast+
  then show ?case
  proof cases
    case pop
    have "stack_inv g Stack (Colors(BB := Black)) Bk" by (rule stack_step_pop [OF "2.prems" pop])
    from "2.IH"(1) [OF pop this] obtain c' where
      c': "stack_inv g [] c' (dfs_stack g Stack (Colors(BB := Black)) Bk)"
      "\<forall>v. (Colors(BB := Black)) v \<noteq> White \<longrightarrow> c' v = Black" by blast
    moreover have "\<forall>v. Colors v \<noteq> White \<longrightarrow> c' v = Black"
      using c'(2) by (metis Color.distinct(4) fun_upd_apply)
    ultimately show ?thesis unfolding dfs_stack_step(1) [OF pop] by blast
  next
    case push
    note inv = stack_step_push [OF "2.prems" push]
    from "2.IH"(2) [OF _ refl push(2) inv] push(1) obtain c' where
      c': "stack_inv g [] c' (dfs_stack g ((?v, 0) # (BB, i + 1) # Stack) (Colors(?v := Gray)) Bk)"
      "\<forall>v. (Colors(?v := Gray)) v \<noteq> White \<longrightarrow> c' v = Black" by blast
    moreover have "\<forall>v. Colors v \<noteq> White \<longrightarrow> c' v = Black"
    proof (intro allI impI)
      fix v assume v: "Colors v \<noteq> White"
      then have "v \<noteq> ?v" using push(2) by auto
      then show "c' v = Black" using c'(2) v by simp
    qed
    ultimately show ?thesis unfolding dfs_stack_step(2) [of i g BB Colors, OF push] by blast
  next
    case gray
    note inv = stack_step_skip [OF "2.prems" gray(1) disjI2 [OF conjI [OF gray(2) refl]]]
    from "2.IH"(3) [OF _ refl _ gray(2) inv] gray obtain c' where
      "stack_inv g [] c' (dfs_stack g ((BB, i + 1) # Stack) Colors (insert (BB, ?v) Bk))"
      "\<forall>v. Colors v \<noteq> White \<longrightarrow> c' v = Black" by auto
    then show ?thesis unfolding dfs_stack_step(3) [of i g BB Colors, OF gray] by blast
  next
    case black
    note inv = stack_step_skip [OF "2.prems" black(1) disjI1 [OF conjI [OF refl black(2)]]]
    from "2.IH"(4) [OF _ refl _ _ inv] black obtain c' where
      "stack_inv g [] c' (dfs_stack g ((BB, i + 1) # Stack) Colors Bk)"
      "\<forall>v. Colors v \<noteq> White \<longrightarrow> c' v = Black" by auto
    then show ?thesis unfolding dfs_stack_step(4) [of i g BB Colors, OF black] by blast
  qed
qed

text \<open>Every cycle that can be reached from the start passes through a back edge found.\<close>

lemma dfs_stack_acyclic:
  fixes g r
  defines "Bk \<equiv> dfs_stack g [(r, 0)] ((\<lambda>_. White)(r := Gray)) {}"
  shows "acyclic ({(u, v) \<in> edges g. (r, u) \<in> (edges g)\<^sup>*} - Bk)" and "Bk \<subseteq> edges g"
proof -
  have "blacks ((\<lambda>_. White)(r := Gray)) = {}" by (auto simp: blacks_def)
  then have "stack_inv g [(r, 0)] ((\<lambda>_. White)(r := Gray)) {}"
    by (auto simp: stack_inv_def dfs_inv_def tree_edges_def acyclic_def)
  then obtain c' where c': "stack_inv g [] c' Bk" "c' r = Black"
    using dfs_stack_correct unfolding Bk_def by fastforce
  have inv: "dfs_inv g UNIV (c', Bk)" and nogray: "c' v \<noteq> Gray" and tgt: "(u, v) \<in> Bk \<Longrightarrow> c' v \<noteq> White"
    for u v using c'(1) by (auto simp: stack_inv_def)
  then have B: "(u, v) \<in> Bk \<Longrightarrow> c' v = Black" for u v by (metis Color.exhaust)
  have step: "c' u = Black \<Longrightarrow> (u, v) \<in> edges g \<Longrightarrow> c' v = Black" for u v
    using inv B by (cases "(u, v) \<in> Bk") (auto simp: dfs_inv_def tree_edges_def blacks_def)
  have black: "(r, u) \<in> (edges g)\<^sup>* \<Longrightarrow> c' u = Black" for u
    by (induction rule: rtrancl_induct) (use c'(2) step in auto)
  have "{(u, v) \<in> edges g. (r, u) \<in> (edges g)\<^sup>*} - Bk \<subseteq> tree_edges g UNIV Bk (blacks c')"
    using black by (auto simp: tree_edges_def blacks_def)
  moreover have "acyclic (tree_edges g UNIV Bk (blacks c'))" using inv by (simp add: dfs_inv_def)
  ultimately show "acyclic ({(u, v) \<in> edges g. (r, u) \<in> (edges g)\<^sup>*} - Bk)"
    by (rule acyclic_subset [rotated])
  show "Bk \<subseteq> edges g" using inv by (simp add: dfs_inv_def)
qed

end
