(* ===== verification/GraphFinalize.thy ===== *)
theory GraphFinalize
  imports FunctionGraph Reach
begin

text \<open>
  \<open>ProgramGraph::finalize\<close>: call and return edges, the bounds of recursive cycles, the cost of
  calls whose body is missing, and the pruning of what the entry does not reach. The target is
  the function that costs an external callee (absent for a null target); the IR functions are
  known by name and by whether they are declarations. \<open>outs()\<close> messages are not modelled.
\<close>

record FunctionInfo =
  fn_name :: "ptr \<Rightarrow> string"
  fn_isDeclaration :: "ptr \<Rightarrow> bool"

type_synonym ExternalCost = "(string \<Rightarrow> u32 option) option"

type_synonym RecursionBounds = "string \<Rightarrow> u32 option"

subsection \<open>External calls\<close>

definition addCycles :: "u32 \<Rightarrow> Node \<Rightarrow> Node" where
  "addCycles c N = N\<lparr>nd_State := (nd_State N)
     \<lparr>MaxCycles := MaxCycles (nd_State N) + c, MinCycles := MinCycles (nd_State N) + c\<rparr>\<rparr>"

type_synonym Pending = "(nat \<times> string) list"

definition chargeOrStage ::
  "ExternalCost \<Rightarrow> nat \<Rightarrow> string \<Rightarrow> ProgramGraph \<times> Pending \<Rightarrow> (ProgramGraph \<times> Pending) option" where
  "chargeOrStage Target Site Name st =
     (case Option.bind Target (\<lambda>cost. cost Name) of
        Some Cost \<Rightarrow> map_option (\<lambda>G. (G, snd st)) (modNode Site (addCycles Cost) (fst st))
      | None \<Rightarrow> Some (fst st, snd st @ [(Site, Name)]))"

fun chargeSymbols ::
  "ExternalCost \<Rightarrow> (nat \<times> string) list \<Rightarrow> ProgramGraph \<times> Pending \<Rightarrow> (ProgramGraph \<times> Pending) option" where
  "chargeSymbols Target [] st = Some st"
| "chargeSymbols Target ((Site, Name) # Cs) st =
     do { st' \<leftarrow> chargeOrStage Target Site Name st; chargeSymbols Target Cs st' }"

subsection \<open>Call and return edges\<close>

record WireState =
  ws_G :: ProgramGraph
  ws_Pending :: Pending
  BoundedSelfRec :: "ptr set"
  UnboundedSelfRec :: "ptr set"

definition markHeader :: "u32 \<Rightarrow> nat \<Rightarrow> Node \<Rightarrow> Node" where
  "markHeader b Site N = N\<lparr>IsLoop := True, UpperLoopBound := Some b,
     BackEdgePredecessors := oset_add Site (BackEdgePredecessors N)\<rparr>"

definition positiveBound :: "RecursionBounds \<Rightarrow> string \<Rightarrow> u32 option" where
  "positiveBound RB nm = (case RB nm of Some b \<Rightarrow> if b > 0 then Some b else None | None \<Rightarrow> None)"

definition wireCall ::
  "FunctionInfo \<Rightarrow> ExternalCost \<Rightarrow> RecursionBounds \<Rightarrow> CallSite \<Rightarrow> WireState \<Rightarrow> WireState option" where
  "wireCall env Target RB CS ws =
     (let G = ws_G ws in
      if StartFunction G = Some (Callee CS) then Some ws
      else case map_of (FunctionToEntryNodeMap G) (Callee CS) of
        Some CaleeNode \<Rightarrow>
          do {
            G1 \<leftarrow> addEdge (CallNode CS) CaleeNode G;
            G2 \<leftarrow> (if HasLanding CS
                   then wireReturns (omap_get [] (FunctionToReturnNodesMap G) (Callee CS)) (LandingNode CS) G1
                   else Some G1);
            if map_of (NodeToFunctionMap G) (CallNode CS) = Some (Callee CS) then
              (case positiveBound RB (fn_name env (Callee CS)) of
                 Some b \<Rightarrow> do {
                   G3 \<leftarrow> modNode CaleeNode (markHeader b (CallNode CS)) G2;
                   Some (ws\<lparr>ws_G := G3, BoundedSelfRec := insert (Callee CS) (BoundedSelfRec ws)\<rparr>)
                 }
               | None \<Rightarrow> Some (ws\<lparr>ws_G := G2,
                            UnboundedSelfRec := insert (Callee CS) (UnboundedSelfRec ws)\<rparr>))
            else Some (ws\<lparr>ws_G := G2\<rparr>)
          }
      | None \<Rightarrow>
          if fn_isDeclaration env (Callee CS) then do {
            st \<leftarrow> chargeOrStage Target (CallNode CS) (fn_name env (Callee CS)) (G, ws_Pending ws);
            Some (ws\<lparr>ws_G := fst st, ws_Pending := snd st\<rparr>)
          }
          else Some ws)"

fun wireCalls ::
  "FunctionInfo \<Rightarrow> ExternalCost \<Rightarrow> RecursionBounds \<Rightarrow> CallSite list \<Rightarrow> WireState \<Rightarrow> WireState option" where
  "wireCalls env Target RB [] ws = Some ws"
| "wireCalls env Target RB (CS # Css) ws =
     do { ws' \<leftarrow> wireCall env Target RB CS ws; wireCalls env Target RB Css ws' }"

subsection \<open>Mutual recursion\<close>

definition callAdj :: "ProgramGraph \<Rightarrow> ptr graph" where
  "callAdj G =
     foldl (\<lambda>adj CS.
       case map_of (NodeToFunctionMap G) (CallNode CS) of
         Some Caller \<Rightarrow> omap_put Caller (oset_add (Callee CS) (omap_get [] adj Caller)) adj
       | None \<Rightarrow> adj) [] (CallSites G)"

text \<open>Functions of a cycle of several functions, and the component of one of them.\<close>

definition inCycle :: "ptr graph \<Rightarrow> ptr list" where
  "inCycle adj =
     foldl (\<lambda>S (f, h). if f \<noteq> h \<and> reaches_from adj h f then oset_add h (oset_add f S) else S) []
       (concat (map (\<lambda>(f, hs). map (Pair f) hs) adj))"

definition sccOf :: "ptr graph \<Rightarrow> ptr list \<Rightarrow> ptr \<Rightarrow> ptr list" where
  "sccOf adj InCycle F =
     foldl (\<lambda>S h. if h \<noteq> F \<and> reaches_from adj F h \<and> reaches_from adj h F then oset_add h S else S)
       [F] InCycle"

definition sccEntries :: "ptr graph \<Rightarrow> ptr option \<Rightarrow> ptr list \<Rightarrow> ptr list" where
  "sccEntries adj Start SCC =
     (let E = foldl (\<lambda>S e. if snd e \<in> set SCC \<and> fst e \<notin> set SCC then oset_add (snd e) S else S) []
                (concat (map (\<lambda>(f, hs). map (Pair f) hs) adj))
      in case Start of
           Some s \<Rightarrow> if s \<in> set SCC then oset_add s E else E
         | None \<Rightarrow> E)"

definition findSCCBackEdges :: "ptr list \<Rightarrow> ptr list \<Rightarrow> ptr graph \<Rightarrow> (ptr \<times> ptr) list option" where
  "findSCCBackEdges SCC Entries adj =
     map_option (\<lambda>st. sorted_list_of_set (snd st))
       (dfs_all (length SCC) adj (set SCC) (Entries @ SCC) (\<lambda>_. White, {}))"

fun markCallSites ::
  "ptr \<Rightarrow> ptr \<Rightarrow> u32 \<Rightarrow> nat \<Rightarrow> CallSite list \<Rightarrow> ProgramGraph \<Rightarrow> ProgramGraph option" where
  "markCallSites FromFn HeaderFn b HEntry [] G = Some G"
| "markCallSites FromFn HeaderFn b HEntry (CS # Css) G =
     (if Callee CS \<noteq> HeaderFn \<or> map_of (NodeToFunctionMap G) (CallNode CS) \<noteq> Some FromFn
      then markCallSites FromFn HeaderFn b HEntry Css G
      else do {
        G' \<leftarrow> modNode HEntry (markHeader b (CallNode CS)) G;
        markCallSites FromFn HeaderFn b HEntry Css G'
      })"

fun boundHeaders ::
  "FunctionInfo \<Rightarrow> RecursionBounds \<Rightarrow> (ptr \<times> ptr) list \<Rightarrow> bool \<Rightarrow> ProgramGraph
   \<Rightarrow> (bool \<times> ProgramGraph) option" where
  "boundHeaders env RB [] AllHeadersBounded G = Some (AllHeadersBounded, G)"
| "boundHeaders env RB ((FromFn, HeaderFn) # Bes) AllHeadersBounded G =
     (case (positiveBound RB (fn_name env HeaderFn), map_of (FunctionToEntryNodeMap G) HeaderFn) of
        (Some b, Some HEntry) \<Rightarrow> do {
          G' \<leftarrow> markCallSites FromFn HeaderFn b HEntry (CallSites G) G;
          boundHeaders env RB Bes AllHeadersBounded G'
        }
      | _ \<Rightarrow> boundHeaders env RB Bes False G)"

record MutualState =
  ms_G :: ProgramGraph
  Assigned :: "ptr set"
  BoundedMutual :: "ptr set"
  UnboundedMutual :: "ptr set"

fun boundSCCs ::
  "FunctionInfo \<Rightarrow> RecursionBounds \<Rightarrow> ptr graph \<Rightarrow> ptr list \<Rightarrow> ptr list \<Rightarrow> MutualState
   \<Rightarrow> MutualState option" where
  "boundSCCs env RB adj InCycle [] ms = Some ms"
| "boundSCCs env RB adj InCycle (F # Fs) ms =
     (if F \<in> Assigned ms then boundSCCs env RB adj InCycle Fs ms
      else do {
        let SCC = sccOf adj InCycle F;
        let Entries = sccEntries adj (StartFunction (ms_G ms)) SCC;
        BackEdges \<leftarrow> findSCCBackEdges SCC Entries adj;
        (AllBounded, G') \<leftarrow> boundHeaders env RB BackEdges (BackEdges \<noteq> []) (ms_G ms);
        boundSCCs env RB adj InCycle Fs
          (ms\<lparr>ms_G := G', Assigned := Assigned ms \<union> set SCC,
              BoundedMutual := (if AllBounded then BoundedMutual ms \<union> set SCC else BoundedMutual ms),
              UnboundedMutual := (if AllBounded then UnboundedMutual ms
                                  else UnboundedMutual ms \<union> set SCC)\<rparr>)
      })"

subsection \<open>Pruning\<close>

definition pgGraph :: "ProgramGraph \<Rightarrow> nat graph" where
  "pgGraph G = map (\<lambda>(i, N). (i, Successors N)) (Nodes G)"

fun dropSuccs :: "nat \<Rightarrow> nat list \<Rightarrow> ProgramGraph \<Rightarrow> ProgramGraph option" where
  "dropSuccs i [] G = Some G"
| "dropSuccs i (s # ss) G = do { G' \<leftarrow> removeEdge i s G; dropSuccs i ss G' }"

fun dropPreds :: "nat \<Rightarrow> nat list \<Rightarrow> ProgramGraph \<Rightarrow> ProgramGraph option" where
  "dropPreds i [] G = Some G"
| "dropPreds i (p # ps) G = do { G' \<leftarrow> removeEdge p i G; dropPreds i ps G' }"

definition pruneNode :: "nat \<Rightarrow> ProgramGraph \<Rightarrow> ProgramGraph option" where
  "pruneNode i G =
     do {
       ss \<leftarrow> getSuccessors G i;
       G1 \<leftarrow> dropSuccs i ss G;
       ps \<leftarrow> getPredecessors G1 i;
       G2 \<leftarrow> dropPreds i ps G1;
       removeNode i (G2\<lparr>NodeToFunctionMap := omap_del i (NodeToFunctionMap G2)\<rparr>)
     }"

fun pruneNodes :: "nat list \<Rightarrow> ProgramGraph \<Rightarrow> ProgramGraph option" where
  "pruneNodes [] G = Some G"
| "pruneNodes (i # is) G = do { G' \<leftarrow> pruneNode i G; pruneNodes is G' }"

definition prune :: "ProgramGraph \<Rightarrow> ProgramGraph option" where
  "prune G =
     (if HasEntryNode G then
        let Reachable = search (pgGraph G) [EntryNodeId G] {EntryNodeId G};
            ToRemove = filter (\<lambda>i. i \<notin> Reachable) (map fst (Nodes G))
        in pruneNodes ToRemove G
      else Some G)"

subsection \<open>The whole step\<close>

definition reportCalls :: "Pending \<Rightarrow> ProgramGraph \<Rightarrow> ProgramGraph" where
  "reportCalls PendingUnsound G =
     G\<lparr>UnsoundExternalCallees := UnsoundExternalCallees G \<union>
        snd ` {p \<in> set PendingUnsound. node_at G (fst p) \<noteq> None}\<rparr>"

definition fnReachable :: "ProgramGraph \<Rightarrow> ptr \<Rightarrow> bool" where
  "fnReachable G F =
     (case map_of (FunctionToEntryNodeMap G) F of Some n \<Rightarrow> node_at G n \<noteq> None | None \<Rightarrow> False)"

definition namesReachable :: "FunctionInfo \<Rightarrow> ProgramGraph \<Rightarrow> ptr set \<Rightarrow> string set" where
  "namesReachable env G S = fn_name env ` {F \<in> S. fnReachable G F}"

definition reportRecursion :: "FunctionInfo \<Rightarrow> WireState \<Rightarrow> MutualState \<Rightarrow> ProgramGraph \<Rightarrow> ProgramGraph" where
  "reportRecursion env ws ms G =
     (let UM = namesReachable env G (UnboundedMutual ms) in
      G\<lparr>BoundedRecursionFunctions := BoundedRecursionFunctions G \<union>
           namesReachable env G (BoundedSelfRec ws) \<union> namesReachable env G (BoundedMutual ms),
        UnboundedRecursionFunctions := UnboundedRecursionFunctions G \<union>
           namesReachable env G (UnboundedSelfRec ws),
        MutualRecursionFunctions := (if UM \<noteq> {} then UM else MutualRecursionFunctions G)\<rparr>)"

definition finalize ::
  "FunctionInfo \<Rightarrow> ExternalCost \<Rightarrow> RecursionBounds \<Rightarrow> ProgramGraph \<Rightarrow> ProgramGraph option" where
  "finalize env Target RB G =
     do {
       ws \<leftarrow> wireCalls env Target RB (CallSites G)
               \<lparr>ws_G = G, ws_Pending = [], BoundedSelfRec = {}, UnboundedSelfRec = {}\<rparr>;
       let adj = callAdj (ws_G ws);
       let Cyc = inCycle adj;
       ms \<leftarrow> boundSCCs env RB adj Cyc Cyc
               \<lparr>ms_G = ws_G ws, Assigned = {}, BoundedMutual = {}, UnboundedMutual = {}\<rparr>;
       st \<leftarrow> chargeSymbols Target (ExternalSymbolCallSites (ms_G ms)) (ms_G ms, ws_Pending ws);
       G' \<leftarrow> prune (fst st);
       Some (reportRecursion env ws ms (reportCalls (snd st) G'))
     }"

end
