(* ===== verification/FinalizeProps.thy ===== *)
theory FinalizeProps
  imports GraphFinalize
begin

text \<open>
  What finalisation guarantees: pruning leaves exactly the nodes the entry reaches with all
  their edges; a charged call raises the cost of its block; wiring keeps the graph well formed;
  every cycle of a recursive component passes through a header the code bounds.
\<close>

subsection \<open>Pruning\<close>

definition shrunk :: "ProgramGraph \<Rightarrow> (nat \<Rightarrow> nat \<Rightarrow> bool) \<Rightarrow> ProgramGraph \<Rightarrow> bool" where
  "shrunk G P G' \<longleftrightarrow>
     pg_wf G' \<and> frame G G' \<and> node_ids G' = node_ids G \<and>
     (\<forall>a. succs G' a = succs G a - {b. P a b}) \<and>
     (\<forall>a. map_option node_core (node_at G' a) = map_option node_core (node_at G a))"

lemma shrunk_trans:
  "shrunk G P G1 \<Longrightarrow> shrunk G1 Q G2 \<Longrightarrow> shrunk G (\<lambda>a b. P a b \<or> Q a b) G2"
  unfolding shrunk_def by (auto intro: frame_trans)

lemma shrunk_refl: "pg_wf G \<Longrightarrow> shrunk G (\<lambda>a b. False) G"
  by (simp add: shrunk_def)

lemma removeEdge_shrunk:
  assumes "pg_wf G" "a \<in> node_ids G" "b \<in> node_ids G"
  shows "\<exists>G'. removeEdge a b G = Some G' \<and> shrunk G (\<lambda>x y. x = a \<and> y = b) G'"
proof -
  obtain G' where G': "removeEdge a b G = Some G'" using removeEdge_ok assms by blast
  then show ?thesis
    using removeEdge_wf [OF G' assms(1)] removeEdge_frame [OF G'] removeEdge_edges [OF G']
    by (auto simp: shrunk_def)
qed

lemma dropSuccs_shrunk:
  "pg_wf G \<Longrightarrow> i \<in> node_ids G \<Longrightarrow> set ss \<subseteq> node_ids G \<Longrightarrow>
   \<exists>G'. dropSuccs i ss G = Some G' \<and> shrunk G (\<lambda>a b. a = i \<and> b \<in> set ss) G'"
proof (induction ss arbitrary: G)
  case Nil
  then show ?case using shrunk_refl by auto
next
  case (Cons s ss)
  obtain G1 where G1: "removeEdge i s G = Some G1" "shrunk G (\<lambda>x y. x = i \<and> y = s) G1"
    using removeEdge_shrunk [of G i s] Cons.prems by auto
  obtain G2 where G2: "dropSuccs i ss G1 = Some G2" "shrunk G1 (\<lambda>a b. a = i \<and> b \<in> set ss) G2"
    using Cons.IH [of G1] Cons.prems G1(2) by (auto simp: shrunk_def)
  have "shrunk G (\<lambda>a b. a = i \<and> b \<in> set (s # ss)) G2"
    using shrunk_trans [OF G1(2) G2(2)] by (auto simp: shrunk_def)
  then show ?case using G1(1) G2(1) by simp
qed

lemma dropPreds_shrunk:
  "pg_wf G \<Longrightarrow> i \<in> node_ids G \<Longrightarrow> set ps \<subseteq> node_ids G \<Longrightarrow>
   \<exists>G'. dropPreds i ps G = Some G' \<and> shrunk G (\<lambda>a b. a \<in> set ps \<and> b = i) G'"
proof (induction ps arbitrary: G)
  case Nil
  then show ?case using shrunk_refl by auto
next
  case (Cons p ps)
  obtain G1 where G1: "removeEdge p i G = Some G1" "shrunk G (\<lambda>x y. x = p \<and> y = i) G1"
    using removeEdge_shrunk [of G p i] Cons.prems by auto
  obtain G2 where G2: "dropPreds i ps G1 = Some G2" "shrunk G1 (\<lambda>a b. a \<in> set ps \<and> b = i) G2"
    using Cons.IH [of G1] Cons.prems G1(2) by (auto simp: shrunk_def)
  have "shrunk G (\<lambda>a b. a \<in> set (p # ps) \<and> b = i) G2"
    using shrunk_trans [OF G1(2) G2(2)] by (auto simp: shrunk_def)
  then show ?case using G1(1) G2(1) by simp
qed

lemma getSuccessors_set: "getSuccessors G i = Some ss \<Longrightarrow> set ss = succs G i"
  by (auto simp: getSuccessors_def succs_def)

lemma getPredecessors_set: "getPredecessors G i = Some ps \<Longrightarrow> set ps = preds G i"
  by (auto simp: getPredecessors_def preds_def)

definition pruned :: "ProgramGraph \<Rightarrow> nat set \<Rightarrow> ProgramGraph \<Rightarrow> bool" where
  "pruned G R G' \<longleftrightarrow>
     pg_wf G' \<and> node_ids G' = node_ids G - R \<and>
     (\<forall>a. a \<notin> R \<longrightarrow> succs G' a = succs G a - R \<and>
        map_option node_core (node_at G' a) = map_option node_core (node_at G a)) \<and>
     frame (G\<lparr>NodeToFunctionMap := []\<rparr>) (G'\<lparr>NodeToFunctionMap := []\<rparr>)"

lemma prunedD:
  assumes "pruned G R G'"
  shows "EntryNodeId G' = EntryNodeId G" "FunctionToEntryNodeMap G' = FunctionToEntryNodeMap G"
    "FunctionToReturnNodesMap G' = FunctionToReturnNodesMap G" "CallSites G' = CallSites G"
    "MBBToNodeMap G' = MBBToNodeMap G"
  using assms frameD [of "G\<lparr>NodeToFunctionMap := []\<rparr>" "G'\<lparr>NodeToFunctionMap := []\<rparr>"]
  by (simp_all add: pruned_def)

lemma pruneNode_spec:
  assumes wf: "pg_wf G" and i: "i \<in> node_ids G"
  shows "\<exists>G'. pruneNode i G = Some G' \<and> pruned G {i} G'"
proof -
  obtain N where N: "node_at G i = Some N" using i by (auto simp: node_ids_def)
  then obtain ss where ss: "getSuccessors G i = Some ss" by (simp add: getSuccessors_def)
  have "set ss \<subseteq> node_ids G"
    using getSuccessors_set [OF ss] pg_wf_succs_exist [OF wf] by blast
  then obtain G1 where G1: "dropSuccs i ss G = Some G1" "shrunk G (\<lambda>a b. a = i \<and> b \<in> set ss) G1"
    using dropSuccs_shrunk [OF wf i] by blast
  then have wf1: "pg_wf G1" and i1: "i \<in> node_ids G1" using i by (auto simp: shrunk_def)
  have s1: "succs G1 i = {}" using G1(2) getSuccessors_set [OF ss] by (auto simp: shrunk_def)
  obtain ps where ps: "getPredecessors G1 i = Some ps"
    using i1 by (auto simp: node_ids_def getPredecessors_def)
  have psin: "set ps \<subseteq> node_ids G1"
    using getPredecessors_set [OF ps] pg_wf_succs_exist [OF wf1] pg_wf_sym [OF wf1] by blast
  obtain G2 where G2: "dropPreds i ps G1 = Some G2" "shrunk G1 (\<lambda>a b. a \<in> set ps \<and> b = i) G2"
    using dropPreds_shrunk [OF wf1 i1 psin] by blast
  define H where "H = G2\<lparr>NodeToFunctionMap := omap_del i (NodeToFunctionMap G2)\<rparr>"
  have nH: "node_at H = node_at G2" by (simp add: H_def node_at_def fun_eq_iff)
  have wf2: "pg_wf G2" and sh2: "\<And>a. succs G2 a = succs G1 a - {b. a \<in> set ps \<and> b = i}"
    using G2(2) by (auto simp: shrunk_def)
  have wfH: "pg_wf H"
    using wf2 unfolding pg_wf_def node_at_edges(1,2) [OF nH] nH by (simp add: H_def)
  have sH: "succs H i = {}" using s1 sh2 by (simp add: node_at_edges(1) [OF nH])
  have "i \<notin> succs G2 a" for a
    using sh2 [of a] getPredecessors_set [OF ps] pg_wf_sym [OF wf1] by auto
  then have "preds H i = {}" using pg_wf_sym [OF wfH] by (auto simp: node_at_edges(1) [OF nH])
  moreover have "i \<in> node_ids H" using i1 G2(2) by (simp add: node_at_edges(4) [OF nH] shrunk_def)
  ultimately obtain G' where G': "removeNode i H = Some G'" "pg_wf G'" "frame H G'"
    "node_at G' = (node_at H)(i := None)"
    using removeNode_spec [OF wfH _ sH] by blast
  have all2: "succs G2 a = succs G a - {i}" if "a \<noteq> i" for a
    using that G1(2) sh2 [of a] getPredecessors_set [OF ps] pg_wf_sym [OF wf1] by (auto simp: shrunk_def)
  have "succs G' a = succs G a - {i} \<and> map_option node_core (node_at G' a) = map_option node_core (node_at G a)"
    if "a \<noteq> i" for a
  proof -
    have "node_at G' a = node_at G2 a" using that by (simp add: G'(4) nH)
    then have "succs G' a = succs G2 a" by (simp add: succs_def)
    then show ?thesis
      using all2 [OF that] \<open>node_at G' a = node_at G2 a\<close> G1(2) G2(2) by (simp add: shrunk_def)
  qed
  moreover have "node_ids G' = node_ids G - {i}"
    using G1(2) G2(2) by (auto simp: node_ids_def G'(4) nH shrunk_def)
  moreover have "frame (G\<lparr>NodeToFunctionMap := []\<rparr>) (G'\<lparr>NodeToFunctionMap := []\<rparr>)"
  proof -
    have "frame G G2" using G1(2) G2(2) frame_trans by (auto simp: shrunk_def)
    then show ?thesis
      using G'(3) by (cases G; cases G2; cases G'; simp add: frame_def H_def)
  qed
  moreover have "pruneNode i G = Some G'"
    using ss G1(1) ps G2(1) G'(1) by (simp add: pruneNode_def H_def)
  ultimately show ?thesis using G'(2) by (auto simp: pruned_def)
qed

lemma pruneNodes_spec:
  "pg_wf G \<Longrightarrow> distinct is \<Longrightarrow> set is \<subseteq> node_ids G \<Longrightarrow>
   \<exists>G'. pruneNodes is G = Some G' \<and> pruned G (set is) G'"
proof (induction "is" arbitrary: G)
  case Nil
  then show ?case by (simp add: pruned_def)
next
  case (Cons i "is")
  obtain G1 where G1: "pruneNode i G = Some G1" "pruned G {i} G1"
    using pruneNode_spec Cons.prems by (metis list.set_intros(1) subsetD)
  obtain G2 where G2: "pruneNodes is G1 = Some G2" "pruned G1 (set is) G2"
    using Cons.IH [of G1] Cons.prems G1(2) by (auto simp: pruned_def)
  have "pruned G (set (i # is)) G2"
    using G1(2) G2(2) frame_trans unfolding pruned_def by fastforce
  then show ?case using G1(1) G2(1) by simp
qed

lemma pgGraph_nbrs: "set (nbrs (pgGraph G) i) = succs G i"
proof -
  have "map_of (pgGraph G) i = map_option Successors (node_at G i)"
    unfolding pgGraph_def node_at_def by (induction "Nodes G" arbitrary: G rule: list.induct)
      (auto simp: map_of_map [of Successors, simplified])
  then show ?thesis by (simp add: nbrs_def omap_get_def succs_def split: option.splits)
qed

definition flow :: "ProgramGraph \<Rightarrow> (nat \<times> nat) set" where
  "flow G = {(a, b). b \<in> succs G a}"

lemma flow_edges: "edges (pgGraph G) = flow G"
  by (simp add: edges_def flow_def pgGraph_nbrs)

lemma prune_reach:
  assumes "pg_wf G" "HasEntryNode G" "EntryNodeId G \<in> node_ids G"
  shows "\<exists>G'. prune G = Some G' \<and> pg_wf G' \<and>
    node_ids G' = (flow G)\<^sup>* `` {EntryNodeId G} \<and>
    (\<forall>a \<in> node_ids G'. succs G' a = succs G a \<and>
       map_option node_core (node_at G' a) = map_option node_core (node_at G a)) \<and>
    (\<forall>a \<in> node_ids G'. a \<noteq> EntryNodeId G \<longrightarrow> preds G' a \<noteq> {}) \<and>
    (\<exists>R. pruned G R G')"
proof -
  let ?e = "EntryNodeId G"
  define R where "R = (flow G)\<^sup>* `` {?e}"
  have reach: "search (pgGraph G) [?e] {?e} = R"
    by (simp add: search_from_root flow_edges R_def del: search.simps)
  have R: "R \<subseteq> node_ids G"
  proof
    fix x assume "x \<in> R"
    then have "(?e, x) \<in> (flow G)\<^sup>*" by (simp add: R_def)
    then show "x \<in> node_ids G"
      by (induction rule: rtrancl_induct) (use assms pg_wf_succs_exist in \<open>auto simp: flow_def\<close>)
  qed
  let ?is = "filter (\<lambda>i. i \<notin> R) (map fst (Nodes G))"
  have ids: "set (map fst (Nodes G)) = node_ids G"
    by (auto simp: node_ids_def node_at_def map_of_eq_None_iff)
  have "omap_ok (Nodes G)" using assms(1) by (simp add: pg_wf_def)
  then have "distinct ?is" by (simp add: omap_ok_distinct)
  moreover have "set ?is \<subseteq> node_ids G" using ids by auto
  ultimately obtain G' where G': "pruneNodes ?is G = Some G'" "pruned G (set ?is) G'"
    using pruneNodes_spec [OF assms(1)] by blast
  have sis: "set ?is = node_ids G - R" using ids by auto
  have keep: "succs G a \<subseteq> R" if "a \<in> R" for a
    using that by (auto simp: R_def flow_def intro: rtrancl_into_rtrancl)
  have nodes: "node_ids G' = R" using G'(2) R unfolding pruned_def sis by blast
  have same: "succs G' a = succs G a \<and>
      map_option node_core (node_at G' a) = map_option node_core (node_at G a)" if "a \<in> R" for a
    using G'(2) that keep [OF that] unfolding pruned_def sis by blast
  have "preds G' a \<noteq> {}" if a: "a \<in> R" "a \<noteq> ?e" for a
  proof -
    have "(?e, a) \<in> (flow G)\<^sup>*" using a by (simp add: R_def)
    then obtain p where "(?e, p) \<in> (flow G)\<^sup>*" "(p, a) \<in> flow G" using a(2) by (auto elim: rtranclE)
    then have "p \<in> R" "a \<in> succs G p" by (simp_all add: R_def flow_def)
    then have "a \<in> succs G' p" using same by blast
    then show ?thesis using G'(2) pg_wf_sym unfolding pruned_def by blast
  qed
  moreover have "prune G = Some G'"
    using G'(1) assms(2) reach by (simp add: prune_def Let_def del: search.simps)
  moreover have "pg_wf G'" using G'(2) by (simp add: pruned_def)
  ultimately show ?thesis
    using nodes same G'(2) unfolding R_def by (intro exI [of _ G']) blast
qed

text \<open>C11: Pruning always succeeds on a well-formed graph whose entry is a node; it keeps exactly the
  nodes the entry reaches, with all their successors, their costs and their bounds, so every
  node left except the entry has a predecessor and nothing that can run is lost.\<close>

theorem prune_exact:
  assumes "pg_wf G" "HasEntryNode G" "EntryNodeId G \<in> node_ids G"
  shows "\<exists>G'. prune G = Some G' \<and> pg_wf G' \<and>
    node_ids G' = (flow G)\<^sup>* `` {EntryNodeId G} \<and>
    (\<forall>a \<in> node_ids G'. succs G' a = succs G a \<and>
       map_option node_core (node_at G' a) = map_option node_core (node_at G a)) \<and>
    (\<forall>a \<in> node_ids G'. a \<noteq> EntryNodeId G \<longrightarrow> preds G' a \<noteq> {})"
  using prune_reach [OF assms] by blast

subsection \<open>Recursive components\<close>

lemma scc_return:
  assumes "distinct SCC" "set Entries \<subseteq> set SCC"
  shows "\<exists>Bes. findSCCBackEdges SCC Entries adj = Some Bes"
  using dfs_all_acyclic [of "set SCC" "Entries @ SCC" "length SCC" adj] assms
  by (auto simp: distinct_card findSCCBackEdges_def)

text \<open>C12: The headers of a recursive component cut all its cycles: the search for the edges that
  close a cycle always returns, the edges are calls inside the component, and without them no
  cycle of calls is left in it; so bounding their targets bounds the component.\<close>

theorem scc_cycles_cut:
  assumes "distinct SCC" "set Entries \<subseteq> set SCC"
  shows "\<exists>Bes. findSCCBackEdges SCC Entries adj = Some Bes \<and>
    set Bes \<subseteq> edges adj \<inter> set SCC \<times> set SCC \<and>
    acyclic (edges adj \<inter> set SCC \<times> set SCC - set Bes)"
proof -
  obtain c B where B: "dfs_all (length SCC) adj (set SCC) (Entries @ SCC) (\<lambda>_. White, {}) = Some (c, B)"
    "B \<subseteq> edges adj \<inter> set SCC \<times> set SCC" "acyclic (edges adj \<inter> set SCC \<times> set SCC - B)"
    using dfs_all_acyclic [of "set SCC" "Entries @ SCC" "length SCC" adj] assms
    by (auto simp: distinct_card)
  have "finite B" using B(2) by (rule finite_subset) simp
  then show ?thesis using B by (simp add: findSCCBackEdges_def)
qed

theorem scc_cycles_cut_witness:
  "\<exists>Bes. findSCCBackEdges [1, 2] [1] [(1, [2]), (2, [1])] = Some Bes \<and>
     acyclic (edges [(1, [2]), (2, [1])] \<inter> set [1, 2] \<times> set [1, 2] - set Bes)"
  using scc_cycles_cut [of "[1, 2]" "[1]" "[(1, [2]), (2, [1])]"] by auto

lemma foldl_oset_set:
  "set (foldl (\<lambda>S x. if P x then oset_add (f x) S else S) S xs) = set S \<union> f ` {x \<in> set xs. P x}"
  by (induction xs arbitrary: S) auto

lemma foldl_oset_distinct:
  "distinct S \<Longrightarrow> distinct (foldl (\<lambda>S x. if P x then oset_add x S else S) S xs)"
  by (induction xs arbitrary: S) (auto simp: distinct_insort_insert)

text \<open>The component of a function: the functions of cycles it reaches and is reached from.\<close>

lemma set_sccOf:
  "set (sccOf adj Cyc F) = insert F {h \<in> set Cyc. (F, h) \<in> (edges adj)\<^sup>* \<and> (h, F) \<in> (edges adj)\<^sup>*}"
  unfolding sccOf_def reaches_from_iff foldl_oset_set [of _ "\<lambda>x. x"] by auto

lemma distinct_sccOf: "distinct (sccOf adj Cyc F)"
  unfolding sccOf_def by (rule foldl_oset_distinct) simp

lemma sccEntries_sub: "set (sccEntries adj Start SCC) \<subseteq> set SCC"
  unfolding sccEntries_def Let_def by (auto simp: foldl_oset_set split: option.splits if_splits)

subsection \<open>Wiring keeps the graph well formed\<close>

text \<open>The sites and entries the code refers to are nodes of the graph.\<close>

definition sites_ok :: "ProgramGraph \<Rightarrow> bool" where
  "sites_ok G \<longleftrightarrow>
     (\<forall>CS \<in> set (CallSites G). CallNode CS \<in> node_ids G \<and> (HasLanding CS \<longrightarrow> LandingNode CS \<in> node_ids G)) \<and>
     (\<forall>F n. map_of (FunctionToEntryNodeMap G) F = Some n \<longrightarrow> n \<in> node_ids G) \<and>
     (\<forall>F. set (omap_get [] (FunctionToReturnNodesMap G) F) \<subseteq> node_ids G) \<and>
     (\<forall>p \<in> set (ExternalSymbolCallSites G). fst p \<in> node_ids G)"

text \<open>The nodes wiring leads to: entries of functions and landing nodes of calls. Nothing else
  gets a new predecessor, no name changes and no edge is lost.\<close>

definition targets :: "ProgramGraph \<Rightarrow> nat set" where
  "targets G = ran (map_of (FunctionToEntryNodeMap G)) \<union>
     LandingNode ` {CS \<in> set (CallSites G). HasLanding CS}"

definition extends :: "ProgramGraph \<Rightarrow> ProgramGraph \<Rightarrow> bool" where
  "extends G G' \<longleftrightarrow>
     pg_wf G' \<and> frame G G' \<and> node_ids G' = node_ids G \<and> (\<forall>a. succs G a \<subseteq> succs G' a) \<and>
     (\<forall>a. map_option nd_Name (node_at G' a) = map_option nd_Name (node_at G a)) \<and>
     (\<forall>a. a \<notin> targets G \<longrightarrow> preds G' a = preds G a)"

lemma targets_frame: "frame G G' \<Longrightarrow> targets G' = targets G"
  by (simp add: targets_def frameD(6,8) [of G G'])

lemma extends_trans: "extends G G1 \<Longrightarrow> extends G1 G2 \<Longrightarrow> extends G G2"
  unfolding extends_def using targets_frame [of G G1] frame_trans [of G G1 G2]
  by (intro conjI) (simp, simp, simp, blast, simp, simp)

lemma extends_refl: "pg_wf G \<Longrightarrow> extends G G"
  by (simp add: extends_def)

lemma extendsD:
  assumes "extends G G'"
  shows "pg_wf G'" "frame G G'" "node_ids G' = node_ids G"
  using assms by (simp_all add: extends_def)

lemma extends_sites: "extends G G' \<Longrightarrow> sites_ok G \<Longrightarrow> sites_ok G'"
  using frameD [of G G'] by (simp add: extends_def sites_ok_def)

lemma modNode_extends:
  assumes "pg_wf G" "i \<in> node_ids G" "edge_neutral f" "\<And>N. nd_Name (f N) = nd_Name N"
  shows "\<exists>G'. modNode i f G = Some G' \<and> extends G G'"
proof -
  obtain G' where G': "modNode i f G = Some G'" using assms(2) modNode_exists by fastforce
  then show ?thesis
    using edge_neutral_wf [OF G' assms(3,1)] modNode_frame [OF G'] modNode_ids [OF G']
      edge_neutral_edges [OF G' assms(3)]
    by (auto simp: extends_def node_at_modNode [OF G'] assms(4) option.map_comp comp_def)
qed

lemma neutral_marks [simp]: "edge_neutral (markHeader b s)" "edge_neutral (addCycles c)"
  "nd_Name (markHeader b s N) = nd_Name N" "nd_Name (addCycles c N) = nd_Name N"
  by (simp_all add: edge_neutral_def markHeader_def addCycles_def)

lemma same_names:
  assumes "map_option node_body (node_at G' a) = map_option node_body (node_at G a)"
  shows "map_option nd_Name (node_at G' a) = map_option nd_Name (node_at G a)"
proof -
  have "nd_Name N = nd_Name (node_body N)" for N by (simp add: node_body_def)
  then have "map_option nd_Name (node_at H a) = map_option nd_Name (map_option node_body (node_at H a))" for H
    by (simp add: option.map_comp comp_def)
  then show ?thesis using assms by metis
qed

lemma grown_preds:
  assumes "grown G es bs G'" "pg_wf G"
  shows "preds G' b = preds G b \<union> {a. (a, b) \<in> es}"
  using assms pg_wf_sym [OF assms(2)] pg_wf_sym [OF grownD(1) [OF assms(1)]] by (auto simp: grown_def)

lemma grown_extends:
  assumes "grown G es bs G'" "pg_wf G" "snd ` es \<subseteq> targets G"
  shows "extends G G'"
proof -
  have "preds G' b = preds G b" if "b \<notin> targets G" for b
    using that assms(3) grown_preds [OF assms(1,2), of b] by force
  moreover have "map_option nd_Name (node_at G' a) = map_option nd_Name (node_at G a)" for a
    by (rule same_names) (use assms(1) in \<open>simp add: grown_def\<close>)
  moreover have "pg_wf G'" "frame G G'" "node_ids G' = node_ids G" "\<forall>a. succs G a \<subseteq> succs G' a"
    using assms(1) by (auto simp: grown_def)
  ultimately show ?thesis by (simp add: extends_def)
qed

lemma chargeOrStage_extends:
  assumes "pg_wf G" "s \<in> node_ids G"
  shows "\<exists>G' P'. chargeOrStage T s nm (G, P) = Some (G', P') \<and> extends G G'"
  using modNode_extends [OF assms neutral_marks(2,4)] extends_refl [OF assms(1)]
  by (auto simp: chargeOrStage_def split: option.splits)

lemma wireCall_extends:
  assumes "pg_wf (ws_G ws)" "sites_ok (ws_G ws)" "CS \<in> set (CallSites (ws_G ws))"
  shows "\<exists>ws'. wireCall env T RB CS ws = Some ws' \<and> extends (ws_G ws) (ws_G ws')"
proof -
  let ?G = "ws_G ws"
  have site: "CallNode CS \<in> node_ids ?G" "HasLanding CS \<Longrightarrow> LandingNode CS \<in> node_ids ?G"
    using assms(2,3) by (auto simp: sites_ok_def)
  consider (start) "StartFunction ?G = Some (Callee CS)"
    | (ext) "StartFunction ?G \<noteq> Some (Callee CS)" "map_of (FunctionToEntryNodeMap ?G) (Callee CS) = None"
    | (def) n where "StartFunction ?G \<noteq> Some (Callee CS)"
        "map_of (FunctionToEntryNodeMap ?G) (Callee CS) = Some n" by fastforce
  then show ?thesis
  proof cases
    case start
    then show ?thesis using extends_refl [OF assms(1)] by (simp add: wireCall_def)
  next
    case ext
    obtain G' P' where "chargeOrStage T (CallNode CS) (fn_name env (Callee CS)) (?G, ws_Pending ws) = Some (G', P')"
      "extends ?G G'"
      using chargeOrStage_extends [OF assms(1) site(1)] by blast
    then show ?thesis using ext extends_refl [OF assms(1)] by (simp add: wireCall_def)
  next
    case def
    have n: "n \<in> node_ids ?G" using assms(2) def(2) by (simp add: sites_ok_def)
    obtain G1 where G1: "addEdge (CallNode CS) n ?G = Some G1" "grown ?G {(CallNode CS, n)} {} G1"
      using addEdge_grown [OF assms(1) site(1) n] by blast
    have "n \<in> targets ?G" using def(2) by (auto simp: targets_def ran_def)
    then have e1: "extends ?G G1" using grown_extends [OF G1(2) assms(1)] by simp
    let ?R = "omap_get [] (FunctionToReturnNodesMap ?G) (Callee CS)"
    have "set ?R \<subseteq> node_ids G1" "HasLanding CS \<Longrightarrow> LandingNode CS \<in> node_ids G1"
      using assms(2) site(2) extendsD(3) [OF e1] by (simp_all add: sites_ok_def)
    then have land: "\<exists>G2. wireReturns ?R (LandingNode CS) G1 = Some G2 \<and> extends G1 G2" if "HasLanding CS"
    proof -
      have "LandingNode CS \<in> targets G1"
        using assms(3) targets_frame [OF grownD(2) [OF G1(2)]] that by (auto simp: targets_def)
      then have "snd ` (set ?R \<times> {LandingNode CS}) \<subseteq> targets G1" by auto
      then show ?thesis
        using wireReturns_grown [of G1 ?R "LandingNode CS"] grown_extends grownD(1) [OF G1(2)]
          \<open>set ?R \<subseteq> node_ids G1\<close> \<open>HasLanding CS \<Longrightarrow> LandingNode CS \<in> node_ids G1\<close> that by blast
    qed
    obtain G2 where G2: "(if HasLanding CS then wireReturns ?R (LandingNode CS) G1 else Some G1) = Some G2"
      "extends G1 G2"
    proof (cases "HasLanding CS")
      case True
      then show ?thesis using land that by auto
    next
      case False
      then show ?thesis using extends_refl [OF grownD(1) [OF G1(2)]] that by simp
    qed
    have e2: "extends ?G G2" by (rule extends_trans [OF e1 G2(2)])
    then have n2: "n \<in> node_ids G2" and wf2: "pg_wf G2" using n extendsD [OF e2] by simp_all
    have mark: "\<exists>G3. modNode n (markHeader b (CallNode CS)) G2 = Some G3 \<and> extends ?G G3" for b
      using modNode_extends [OF wf2 n2 neutral_marks(1,3)] extends_trans [OF e2] by blast
    have run: "wireCall env T RB CS ws =
        (if map_of (NodeToFunctionMap ?G) (CallNode CS) = Some (Callee CS) then
           (case positiveBound RB (fn_name env (Callee CS)) of
              Some b \<Rightarrow> do {
                G3 \<leftarrow> modNode n (markHeader b (CallNode CS)) G2;
                Some (ws\<lparr>ws_G := G3, BoundedSelfRec := insert (Callee CS) (BoundedSelfRec ws)\<rparr>)
              }
            | None \<Rightarrow> Some (ws\<lparr>ws_G := G2,
                         UnboundedSelfRec := insert (Callee CS) (UnboundedSelfRec ws)\<rparr>))
         else Some (ws\<lparr>ws_G := G2\<rparr>))"
      using def G1(1) G2(1) by (simp add: wireCall_def Let_def)
    show ?thesis
    proof (cases "map_of (NodeToFunctionMap ?G) (CallNode CS) = Some (Callee CS)")
      case True
      show ?thesis
      proof (cases "positiveBound RB (fn_name env (Callee CS))")
        case None
        then show ?thesis using e2 True unfolding run by simp
      next
        case (Some b)
        obtain G3 where "modNode n (markHeader b (CallNode CS)) G2 = Some G3" "extends ?G G3"
          using mark by blast
        then show ?thesis using Some True unfolding run by simp
      qed
    next
      case False
      then show ?thesis using e2 unfolding run by simp
    qed
  qed
qed

lemma wireCalls_extends:
  "pg_wf (ws_G ws) \<Longrightarrow> sites_ok (ws_G ws) \<Longrightarrow> set Css \<subseteq> set (CallSites (ws_G ws)) \<Longrightarrow>
   \<exists>ws'. wireCalls env T RB Css ws = Some ws' \<and> extends (ws_G ws) (ws_G ws')"
proof (induction Css arbitrary: ws)
  case Nil
  then show ?case by (simp add: extends_refl)
next
  case (Cons CS Css)
  obtain ws1 where w1: "wireCall env T RB CS ws = Some ws1" "extends (ws_G ws) (ws_G ws1)"
    using wireCall_extends Cons.prems by (metis list.set_intros(1) subsetD)
  have "CallSites (ws_G ws1) = CallSites (ws_G ws)"
    by (rule frameD(8) [OF extendsD(2) [OF w1(2)]])
  then obtain ws2 where "wireCalls env T RB Css ws1 = Some ws2" "extends (ws_G ws1) (ws_G ws2)"
    using Cons.IH [of ws1] Cons.prems extendsD [OF w1(2)] extends_sites [OF w1(2)] by auto
  then show ?case using w1 extends_trans by auto
qed

lemma chargeSymbols_extends:
  "pg_wf (fst st) \<Longrightarrow> \<forall>p \<in> set Cs. fst p \<in> node_ids (fst st) \<Longrightarrow>
   \<exists>G' P'. chargeSymbols T Cs st = Some (G', P') \<and> extends (fst st) G'"
proof (induction T Cs st rule: chargeSymbols.induct)
  case (1 T st)
  then show ?case by (cases st) (simp add: extends_refl)
next
  case (2 T s nm Cs st)
  obtain G1 P1 where 1: "chargeOrStage T s nm st = Some (G1, P1)" "extends (fst st) G1"
    using chargeOrStage_extends [of "fst st" s T nm "snd st"] "2.prems" by auto
  obtain G' P' where "chargeSymbols T Cs (G1, P1) = Some (G', P')" "extends G1 G'"
    using "2.IH" [OF 1(1)] "2.prems" extendsD [OF 1(2)] by auto
  then show ?case using 1 extends_trans by auto
qed

lemma markCallSites_extends:
  "pg_wf G \<Longrightarrow> h \<in> node_ids G \<Longrightarrow>
   \<exists>G'. markCallSites f hf b h Css G = Some G' \<and> extends G G'"
proof (induction Css arbitrary: G)
  case Nil
  then show ?case by (simp add: extends_refl)
next
  case (Cons CS Css)
  obtain G1 where G1: "modNode h (markHeader b (CallNode CS)) G = Some G1" "extends G G1"
    using modNode_extends [OF Cons.prems neutral_marks(1,3)] by blast
  then obtain G2 where "markCallSites f hf b h Css G1 = Some G2" "extends G1 G2"
    using Cons.IH [of G1] Cons.prems extendsD by auto
  then show ?case using G1 Cons extends_trans by auto
qed

lemma boundHeaders_extends:
  "pg_wf G \<Longrightarrow> sites_ok G \<Longrightarrow>
   \<exists>b' G'. boundHeaders env RB Bes b G = Some (b', G') \<and> extends G G'"
proof (induction Bes arbitrary: b G)
  case Nil
  then show ?case by (simp add: extends_refl)
next
  case (Cons e Bes)
  obtain f h where e: "e = (f, h)" by force
  show ?case
  proof (cases "positiveBound RB (fn_name env h)")
    case None
    then show ?thesis using Cons.IH [of G False] Cons.prems e by simp
  next
    case (Some B)
    show ?thesis
    proof (cases "map_of (FunctionToEntryNodeMap G) h")
      case None
      then show ?thesis using Some Cons.IH [of G False] Cons.prems e by simp
    next
      case n: (Some n)
      then have "n \<in> node_ids G" using Cons.prems(2) by (simp add: sites_ok_def)
      then obtain G1 where G1: "markCallSites f h B n (CallSites G) G = Some G1" "extends G G1"
        using markCallSites_extends Cons.prems(1) by blast
      obtain b' G' where "boundHeaders env RB Bes b G1 = Some (b', G')" "extends G1 G'"
        using Cons.IH [of G1 b] Cons.prems extendsD [OF G1(2)] extends_sites [OF G1(2)] by auto
      then show ?thesis using Some n G1 extends_trans e by auto
    qed
  qed
qed

lemma boundSCCs_extends:
  "pg_wf (ms_G ms) \<Longrightarrow> sites_ok (ms_G ms) \<Longrightarrow>
   \<exists>ms'. boundSCCs env RB adj Cyc Fs ms = Some ms' \<and> extends (ms_G ms) (ms_G ms')"
proof (induction Fs arbitrary: ms)
  case Nil
  then show ?case by (simp add: extends_refl)
next
  case (Cons F Fs)
  show ?case
  proof (cases "F \<in> Assigned ms")
    case True
    then show ?thesis using Cons by simp
  next
    case False
    let ?S = "sccOf adj Cyc F"
    obtain Bes where Bes: "findSCCBackEdges ?S (sccEntries adj (StartFunction (ms_G ms)) ?S) adj = Some Bes"
      using scc_return [OF distinct_sccOf sccEntries_sub] by blast
    obtain b' G' where G': "boundHeaders env RB Bes (Bes \<noteq> []) (ms_G ms) = Some (b', G')"
      "extends (ms_G ms) G'"
      using boundHeaders_extends Cons.prems by blast
    define ms1 where "ms1 = ms\<lparr>ms_G := G', Assigned := Assigned ms \<union> set ?S,
        BoundedMutual := (if b' then BoundedMutual ms \<union> set ?S else BoundedMutual ms),
        UnboundedMutual := (if b' then UnboundedMutual ms else UnboundedMutual ms \<union> set ?S)\<rparr>"
    have "ms_G ms1 = G'" by (simp add: ms1_def)
    then obtain ms2 where "boundSCCs env RB adj Cyc Fs ms1 = Some ms2" "extends G' (ms_G ms2)"
      using Cons.IH [of ms1] Cons.prems extendsD [OF G'(2)] extends_sites [OF G'(2)] by auto
    then show ?thesis
      using False Bes G' extends_trans by (auto simp: Let_def ms1_def)
  qed
qed

subsection \<open>Finalisation\<close>

lemma reportRecursion_graph [simp]:
  "node_at (reportRecursion env ws ms (reportCalls P G)) = node_at G"
  by (simp add: reportRecursion_def reportCalls_def node_at_def Let_def fun_eq_iff)

lemma report_wf [simp]: "pg_wf (reportRecursion env ws ms (reportCalls P G)) = pg_wf G"
proof -
  note n = reportRecursion_graph [of env ws ms P G]
  show ?thesis
    unfolding pg_wf_def node_at_edges(1,2) [OF n] n
    by (simp add: reportRecursion_def reportCalls_def Let_def)
qed

text \<open>What finalisation leaves of the graph it is given: the maps and call sites, the names of the
  nodes that stay, the edges out of them; only the targets of wiring get new predecessors.\<close>

definition finalized :: "ProgramGraph \<Rightarrow> ProgramGraph \<Rightarrow> bool" where
  "finalized G G' \<longleftrightarrow>
     EntryNodeId G' = EntryNodeId G \<and> FunctionToEntryNodeMap G' = FunctionToEntryNodeMap G \<and>
     FunctionToReturnNodesMap G' = FunctionToReturnNodesMap G \<and> CallSites G' = CallSites G \<and>
     MBBToNodeMap G' = MBBToNodeMap G \<and> node_ids G' \<subseteq> node_ids G \<and>
     (\<forall>a \<in> node_ids G'. succs G a \<subseteq> succs G' a \<and>
        map_option nd_Name (node_at G' a) = map_option nd_Name (node_at G a)) \<and>
     (\<forall>a. a \<notin> targets G \<longrightarrow> preds G' a \<subseteq> preds G a)"

lemma report_maps:
  "EntryNodeId (reportRecursion env ws ms (reportCalls P G)) = EntryNodeId G"
  "FunctionToEntryNodeMap (reportRecursion env ws ms (reportCalls P G)) = FunctionToEntryNodeMap G"
  "FunctionToReturnNodesMap (reportRecursion env ws ms (reportCalls P G)) = FunctionToReturnNodesMap G"
  "CallSites (reportRecursion env ws ms (reportCalls P G)) = CallSites G"
  "MBBToNodeMap (reportRecursion env ws ms (reportCalls P G)) = MBBToNodeMap G"
  by (simp_all add: reportRecursion_def reportCalls_def Let_def)

lemma finalize_stages:
  assumes "pg_wf G" "sites_ok G"
  obtains ws ms H P where
    "wireCalls env T RB (CallSites G)
      \<lparr>ws_G = G, ws_Pending = [], BoundedSelfRec = {}, UnboundedSelfRec = {}\<rparr> = Some ws"
    "boundSCCs env RB (callAdj (ws_G ws)) (inCycle (callAdj (ws_G ws))) (inCycle (callAdj (ws_G ws)))
      \<lparr>ms_G = ws_G ws, Assigned = {}, BoundedMutual = {}, UnboundedMutual = {}\<rparr> = Some ms"
    "chargeSymbols T (ExternalSymbolCallSites (ms_G ms)) (ms_G ms, ws_Pending ws) = Some (H, P)"
    "extends G H"
proof -
  obtain ws where ws: "wireCalls env T RB (CallSites G)
      \<lparr>ws_G = G, ws_Pending = [], BoundedSelfRec = {}, UnboundedSelfRec = {}\<rparr> = Some ws"
    "extends G (ws_G ws)"
    using wireCalls_extends [of "\<lparr>ws_G = G, ws_Pending = [], BoundedSelfRec = {}, UnboundedSelfRec = {}\<rparr>"
        "CallSites G" env T RB] assms(1,2) by auto
  let ?adj = "callAdj (ws_G ws)"
  obtain ms where ms: "boundSCCs env RB ?adj (inCycle ?adj) (inCycle ?adj)
      \<lparr>ms_G = ws_G ws, Assigned = {}, BoundedMutual = {}, UnboundedMutual = {}\<rparr> = Some ms"
    "extends (ws_G ws) (ms_G ms)"
    using boundSCCs_extends [of "\<lparr>ms_G = ws_G ws, Assigned = {}, BoundedMutual = {}, UnboundedMutual = {}\<rparr>"
        env RB "callAdj (ws_G ws)" "inCycle (callAdj (ws_G ws))" "inCycle (callAdj (ws_G ws))"]
      extendsD(1) [OF ws(2)] extends_sites [OF ws(2) assms(2)] by auto
  have em: "extends G (ms_G ms)" by (rule extends_trans [OF ws(2) ms(2)])
  have "\<forall>p \<in> set (ExternalSymbolCallSites (ms_G ms)). fst p \<in> node_ids (ms_G ms)"
    using extends_sites [OF em assms(2)] by (simp add: sites_ok_def)
  then obtain H P where st: "chargeSymbols T (ExternalSymbolCallSites (ms_G ms)) (ms_G ms, ws_Pending ws) = Some (H, P)"
    "extends (ms_G ms) H"
    using chargeSymbols_extends [of "(ms_G ms, ws_Pending ws)" "ExternalSymbolCallSites (ms_G ms)" T] extendsD [OF em] by auto
  have eH: "extends G H" by (rule extends_trans [OF em st(2)])
  show ?thesis by (rule that [OF ws(1) ms(1) st(1) eH])
qed

lemma finalize_spec:
  assumes "pg_wf G" "sites_ok G" "HasEntryNode G" "EntryNodeId G \<in> node_ids G"
  shows "\<exists>G'. finalize env T RB G = Some G' \<and> pg_wf G' \<and>
    node_ids G' = (flow G')\<^sup>* `` {EntryNodeId G} \<and>
    (\<forall>a \<in> node_ids G'. a \<noteq> EntryNodeId G \<longrightarrow> preds G' a \<noteq> {}) \<and> finalized G G'"
proof -
  obtain ws ms H P where ws: "wireCalls env T RB (CallSites G)
      \<lparr>ws_G = G, ws_Pending = [], BoundedSelfRec = {}, UnboundedSelfRec = {}\<rparr> = Some ws"
    and ms: "boundSCCs env RB (callAdj (ws_G ws)) (inCycle (callAdj (ws_G ws))) (inCycle (callAdj (ws_G ws)))
      \<lparr>ms_G = ws_G ws, Assigned = {}, BoundedMutual = {}, UnboundedMutual = {}\<rparr> = Some ms"
    and st: "chargeSymbols T (ExternalSymbolCallSites (ms_G ms)) (ms_G ms, ws_Pending ws) = Some (H, P)"
    and eH: "extends G H"
    by (rule finalize_stages [OF assms(1,2)])
  have H: "pg_wf H" "HasEntryNode H" "EntryNodeId H \<in> node_ids H" "EntryNodeId H = EntryNodeId G"
    using assms frameD(3,4) [of G H] extendsD [OF eH] by simp_all
  obtain K where K: "prune H = Some K" "pg_wf K" "node_ids K = (flow H)\<^sup>* `` {EntryNodeId H}"
    "\<forall>a \<in> node_ids K. succs K a = succs H a"
    "\<forall>a \<in> node_ids K. a \<noteq> EntryNodeId H \<longrightarrow> preds K a \<noteq> {}"
    "\<forall>a \<in> node_ids K. map_option node_core (node_at K a) = map_option node_core (node_at H a)"
    and pr: "\<exists>R. pruned H R K"
    using prune_reach [OF H(1,2,3)] by blast
  have "(flow K)\<^sup>* `` {EntryNodeId H} = (flow H)\<^sup>* `` {EntryNodeId H}"
  proof (intro set_eqI iffI)
    fix x assume "x \<in> (flow K)\<^sup>* `` {EntryNodeId H}"
    then have "(EntryNodeId H, x) \<in> (flow K)\<^sup>*" by simp
    then have "(EntryNodeId H, x) \<in> (flow H)\<^sup>*"
    proof (rule rtrancl_mono [THEN subsetD, rotated])
      show "flow K \<subseteq> flow H" using K(4) succs_exists by (fastforce simp: flow_def)
    qed
    then show "x \<in> (flow H)\<^sup>* `` {EntryNodeId H}" by simp
  next
    fix x assume "x \<in> (flow H)\<^sup>* `` {EntryNodeId H}"
    then have "(EntryNodeId H, x) \<in> (flow H)\<^sup>*" by simp
    then have "(EntryNodeId H, x) \<in> (flow K)\<^sup>*"
    proof (induction rule: rtrancl_induct)
      case (step y z)
      then have "y \<in> node_ids K" using K(3) by blast
      then have "(y, z) \<in> flow K" using step.hyps(2) K(4) by (simp add: flow_def)
      with step.IH show ?case by (rule rtrancl_into_rtrancl)
    qed simp
    then show "x \<in> (flow K)\<^sup>* `` {EntryNodeId H}" by simp
  qed
  then have reach: "node_ids K = (flow K)\<^sup>* `` {EntryNodeId G}" using K(3) H(4) by simp
  let ?G' = "reportRecursion env ws ms (reportCalls P K)"
  note n = reportRecursion_graph [of env ws ms P K]
  have "finalize env T RB G = Some ?G'"
    using ws ms st K(1) by (simp add: finalize_def Let_def)
  moreover have "flow ?G' = flow K" by (simp add: flow_def node_at_edges(1) [OF n])
  moreover have "finalized G ?G'"
  proof -
    have c: "EntryNodeId K = EntryNodeId H" "FunctionToEntryNodeMap K = FunctionToEntryNodeMap H"
      "FunctionToReturnNodesMap K = FunctionToReturnNodesMap H" "CallSites K = CallSites H"
      "MBBToNodeMap K = MBBToNodeMap H"
      using prunedD pr by blast+
    have sub: "node_ids K \<subseteq> node_ids H" using pr by (auto simp: pruned_def)
    have "preds K a \<subseteq> preds H a" for a
    proof
      fix b assume b: "b \<in> preds K a"
      then have "a \<in> succs K b" "b \<in> node_ids K" using pg_wf_sym [OF K(2)] pg_wf_succs_exist [OF K(2)] by blast+
      then show "b \<in> preds H a" using K(4) pg_wf_sym [OF H(1)] by simp
    qed
    moreover have "map_option nd_Name (node_at K a) = map_option nd_Name (node_at H a)" if "a \<in> node_ids K" for a
      using same_names core_body(1) K(6) that by blast
    ultimately show ?thesis
      using eH sub K(4) frameD(1,4,6,7,8) [of G H]
      by (simp add: finalized_def extends_def node_at_edges [OF n] n c report_maps) blast
  qed
  ultimately show ?thesis
    using reach K(2,5) H(4) by (simp add: node_at_edges [OF n])
qed

text \<open>C8: Finalising a filled graph always succeeds and leaves a well-formed graph in which every
  node is reached from the entry over its edges and every other node than the entry has a
  predecessor: no call site, recursion or missing body makes the step fail.\<close>

theorem finalize_total:
  assumes "pg_wf G" "sites_ok G" "HasEntryNode G" "EntryNodeId G \<in> node_ids G"
  shows "\<exists>G'. finalize env T RB G = Some G' \<and> pg_wf G' \<and>
    node_ids G' = (flow G')\<^sup>* `` {EntryNodeId G} \<and>
    (\<forall>a \<in> node_ids G'. a \<noteq> EntryNodeId G \<longrightarrow> preds G' a \<noteq> {})"
  using finalize_spec [OF assms] by blast

text \<open>An entry calling into a node an unreachable node also reaches, with a call site.\<close>

definition demo_node :: "nat \<Rightarrow> nat list \<Rightarrow> nat list \<Rightarrow> Node" where
  "demo_node i ss ps = (newNode i (newMuArchState 1 1))\<lparr>Successors := ss, Predecessors := ps\<rparr>"

definition demo_graph :: ProgramGraph where
  "demo_graph = emptyPG\<lparr>
     Nodes := [(0, demo_node 0 [1] []), (1, demo_node 1 [] [0, 2]), (2, demo_node 2 [1] [])],
     HasEntryNode := True, EntryNodeId := 0, NextNodeId := 3,
     NodeToFunctionMap := [(1, 7)], FunctionToEntryNodeMap := [(7, 1)],
     CallSites := [\<lparr>CallNode = 1, Callee = 7, LandingNode = 0, HasLanding = False\<rparr>],
     ExternalSymbolCallSites := [(1, ''__mspabi_mpyi'')]\<rparr>"

lemma demo_graph_nodes:
  "node_at demo_graph = (\<lambda>i. if i = 0 then Some (demo_node 0 [1] [])
     else if i = 1 then Some (demo_node 1 [] [0, 2]) else if i = 2 then Some (demo_node 2 [1] []) else None)"
  by (auto simp: demo_graph_def node_at_def emptyPG_def fun_eq_iff)

lemma demo_graph_ok: "pg_wf demo_graph" "sites_ok demo_graph" "HasEntryNode demo_graph"
  "EntryNodeId demo_graph = 0" "0 \<in> node_ids demo_graph"
proof -
  show "pg_wf demo_graph"
    unfolding pg_wf_def
    by (auto simp: demo_graph_nodes succs_def preds_def split: if_splits)
      (auto simp: demo_graph_def demo_node_def node_ok_def newNode_def omap_ok_def oset_ok_def)
  show "sites_ok demo_graph" 
    by (auto simp: sites_ok_def node_ids_def demo_graph_nodes omap_get_def split: if_splits)
      (auto simp: demo_graph_def emptyPG_def split: if_splits)
qed (simp_all add: demo_graph_def node_ids_def node_at_def)

theorem prune_exact_witness:
  "\<exists>G'. prune demo_graph = Some G' \<and> pg_wf G'"
  using prune_exact [of demo_graph] demo_graph_ok by auto

theorem finalize_total_witness:
  "\<exists>G'. finalize \<lparr>fn_name = (\<lambda>_. ''g''), fn_isDeclaration = (\<lambda>_. False)\<rparr> None (\<lambda>_. Some 3) demo_graph = Some G' \<and> pg_wf G'"
  using finalize_total [of demo_graph "\<lparr>fn_name = (\<lambda>_. ''g''), fn_isDeclaration = (\<lambda>_. False)\<rparr>"
      None "\<lambda>_. Some 3"] demo_graph_ok by auto

end
