(* ===== verification/ProgramSolver.thy ===== *)
theory ProgramSolver
  imports SolverProps FinalizeProps
begin

text \<open>
  The solver on the program graph. Its nodes carry their cost and no block, so the fixpoint only
  passes the initial state around: it ends with the graph it was given. That graph is an exact
  copy of the program graph under a renumbering of the nodes, with the loop headers, bounds,
  back edges, entries and exits the integer program is built from.
\<close>

subsection \<open>The loop passes the initial state around\<close>

definition idle :: "'s Analysable \<Rightarrow> 's AbstractStateGraph \<Rightarrow> bool" where
  "idle A G \<longleftrightarrow> (\<forall>i N. asg_getNode G i = Some N \<longrightarrow> asg_MBB N = None \<and> asg_State N = an_getInitialState A)"

definition neutral :: "'s Analysable \<Rightarrow> bool" where
  "neutral A \<longleftrightarrow>
     an_clone A (an_getInitialState A) = an_getInitialState A \<and>
     fst (an_join A (an_getInitialState A) (an_getInitialState A)) = an_getInitialState A \<and>
     an_equals A (an_getInitialState A) (an_getInitialState A)"

lemma joinPreds_idle:
  "idle A G \<Longrightarrow> neutral A \<Longrightarrow> joinPreds A G Ps b (an_getInitialState A) = an_getInitialState A"
  by (induction Ps arbitrary: b) (auto simp: idle_def neutral_def split: option.splits)

lemma visit_PG_idle:
  assumes "idle A (ws_Graph S)" "neutral A" "Worklist S \<noteq> []"
  shows "ws_Graph (visit_PG A S) = ws_Graph S" "Worklist (visit_PG A S) = tl (Worklist S)"
proof -
  let ?n = "hd (Worklist S)"
  have "ws_Graph (visit_PG A S) = ws_Graph S \<and> Worklist (visit_PG A S) = tl (Worklist S)"
  proof (cases "asg_getNode (ws_Graph S) ?n")
    case None
    then show ?thesis by (simp add: visit_PG_def takeFromWorklist_def Let_def)
  next
    case (Some N)
    then have "asg_MBB N = None" "asg_State N = an_getInitialState A"
      using assms(1) by (auto simp: idle_def)
    then show ?thesis
      using Some assms(2) joinPreds_idle [OF assms(1,2)]
      by (simp add: visit_PG_def takeFromWorklist_def Let_def updateState_def neutral_def)
  qed
  then show "ws_Graph (visit_PG A S) = ws_Graph S" "Worklist (visit_PG A S) = tl (Worklist S)"
    by auto
qed

lemma loop_PG_idle:
  "idle A (ws_Graph S) \<Longrightarrow> neutral A \<Longrightarrow>
   \<exists>S'. loop_PG A S = Some S' \<and> ws_Graph S' = ws_Graph S \<and> Worklist S' = []"
proof (induction "length (Worklist S)" arbitrary: S)
  case 0
  then show ?case by (subst loop_PG.simps) simp
next
  case (Suc n)
  then have ne: "Worklist S \<noteq> []" by auto
  note v = visit_PG_idle [OF Suc.prems ne]
  have "n = length (Worklist (visit_PG A S))" using Suc.hyps(2) v(2) by simp
  from Suc.hyps(1) [OF this] Suc.prems v(1) ne
  show ?case by (subst loop_PG.simps) simp
qed

subsection \<open>The copy of the nodes\<close>

lemma copyPGNode_keeps [simp]:
  "asg_MBB (copyPGNode Indet P N) = asg_MBB N" "asg_State (copyPGNode Indet P N) = asg_State N"
  "asg_Id (copyPGNode Indet P N) = asg_Id N"
  "Cost (copyPGNode Indet P N) = MaxCycles (nd_State P)"
  by (simp_all add: copyPGNode_def Let_def getUpperBoundCycles_def)

lemma copyNodes_spec:
  assumes "asg_wf G" "distinct (map fst Ns)" "\<forall>p \<in> set Ns. nd_Id (snd p) = fst p"
    and "copyNodes A Indet Ns M G = (M', G')"
  shows "asg_wf G' \<and> asg_getSuccessors G' = asg_getSuccessors G \<and>
    asg_getPredecessors G' = asg_getPredecessors G \<and>
    FunctionEntries G' = FunctionEntries G \<and> FunctionReturns G' = FunctionReturns G \<and>
    asg_CallSites G' = asg_CallSites G \<and>
    (\<forall>n. asg_getNode G' n =
       (if n < asg_NextNodeId G \<or> asg_NextNodeId G + length Ns \<le> n then asg_getNode G n
        else Some (copyPGNode Indet (snd (Ns ! (n - asg_NextNodeId G)))
               (newASGNode n (an_getInitialState A) None)))) \<and>
    (\<forall>j < length Ns. map_of M' (fst (Ns ! j)) = Some (asg_NextNodeId G + j)) \<and>
    (\<forall>i. i \<notin> fst ` set Ns \<longrightarrow> map_of M' i = map_of M i)"
  using assms
proof (induction Ns arbitrary: M G)
  case Nil
  then show ?case by (auto simp: not_less)
next
  case (Cons p Ns)
  obtain i P where p: "p = (i, P)" by force
  let ?k = "asg_NextNodeId G"
  define G1 where "G1 = snd (asg_addNode (an_getInitialState A) None G)"
  define G2 where "G2 = asg_update ?k (copyPGNode Indet P) G1"
  have id: "nd_Id P = i" using Cons.prems(3) p by simp
  have run: "copyNodes A Indet Ns (omap_put i ?k M) G2 = (M', G')"
    using Cons.prems(4) asg_addNode_sel(5) [of "an_getInitialState A" None G] id
    by (simp add: p G2_def G1_def case_prod_beta)
  have wf2: "asg_wf G2"
    unfolding G2_def G1_def by (intro asg_wf_update asg_wf_addNode Cons.prems(1))
  have d: "distinct (map fst Ns)" "i \<notin> fst ` set Ns" "\<forall>p \<in> set Ns. nd_Id (snd p) = fst p"
    using Cons.prems(2,3) p by auto
  have at2: "asg_getNode G2 n =
      (if n = ?k then Some (copyPGNode Indet P (newASGNode n (an_getInitialState A) None))
       else asg_getNode G n)" for n
    by (simp add: G2_def G1_def)
  have rest: "asg_NextNodeId G2 = Suc ?k" "asg_getSuccessors G2 = asg_getSuccessors G"
    "asg_getPredecessors G2 = asg_getPredecessors G"
    by (simp_all add: G2_def G1_def)
  have info: "FunctionEntries G2 = FunctionEntries G" "FunctionReturns G2 = FunctionReturns G"
    "asg_CallSites G2 = asg_CallSites G"
    by (simp_all add: G2_def G1_def asg_update_def asg_addNode_def Let_def split: option.splits)
  note IH = Cons.IH [OF wf2 d(1,3) run, unfolded rest info]
  have "asg_getNode G' n =
       (if n < ?k \<or> ?k + length (p # Ns) \<le> n then asg_getNode G n
        else Some (copyPGNode Indet (snd ((p # Ns) ! (n - ?k))) (newASGNode n (an_getInitialState A) None)))" for n
  proof (cases "n \<le> ?k")
    case True
    then show ?thesis using IH p by (auto simp: at2)
  next
    case False
    then obtain j where j: "n = Suc (?k + j)" by (metis add_Suc_right less_iff_Suc_add not_le)
    then show ?thesis using IH by (auto simp: at2)
  qed
  moreover have "map_of M' (fst ((p # Ns) ! j)) = Some (?k + j)" if "j < length (p # Ns)" for j
    using IH that d(2) p by (cases j) auto
  moreover have "map_of M' x = map_of M x" if "x \<notin> fst ` set (p # Ns)" for x
    using IH that p by simp
  ultimately show ?case using IH by simp
qed

subsection \<open>The copy of the edges\<close>

definition flags_ok :: "(nat \<Rightarrow> nat \<Rightarrow> bool) \<Rightarrow> 's AbstractStateGraph \<Rightarrow> bool" where
  "flags_ok F G \<longleftrightarrow> (\<forall>a e. e \<in> set (asg_getSuccessors G a) \<longrightarrow> snd e = F a (fst e))"

lemma set_omap_insert: "set (omap_insert k v m) \<subseteq> insert (k, v) (set m)"
proof -
  have "set (omap_put k v m) \<subseteq> insert (k, v) (set m)"
    by (induction m) (auto split: if_splits)
  then show ?thesis by (auto simp: omap_insert_def split: option.splits)
qed

lemma addEdge_flags:
  "flags_ok F G \<Longrightarrow> x = F a b \<Longrightarrow> flags_ok F (asg_addEdge a b x G)"
  using set_omap_insert [of b x "omap_get [] (AdjacencyList G) a"]
  by (fastforce simp: flags_ok_def asg_getSuccessors_def asg_addEdge_def)

definition same_nodes :: "'s AbstractStateGraph \<Rightarrow> 's AbstractStateGraph \<Rightarrow> bool" where
  "same_nodes G G' \<longleftrightarrow> asg_getNode G' = asg_getNode G \<and> FunctionEntries G' = FunctionEntries G \<and>
     FunctionReturns G' = FunctionReturns G \<and> asg_CallSites G' = asg_CallSites G"

lemma addEdge_same_nodes: "same_nodes G (asg_addEdge a b x G)"
  by (simp add: same_nodes_def) (simp add: asg_addEdge_def)

definition backFlag :: "ProgramGraph \<Rightarrow> nat \<Rightarrow> nat \<Rightarrow> bool" where
  "backFlag PG i j \<longleftrightarrow> (case node_at PG j of Some N \<Rightarrow> i \<in> set (BackEdgePredecessors N) | None \<Rightarrow> False)"

lemma copySuccs_spec:
  assumes "asg_wf G" "flags_ok F G"
    and "\<And>s t. s \<in> set Ss \<Longrightarrow> map_of M s = Some t \<Longrightarrow> F (omap_get 0 M (nd_Id P)) t = backFlag PG (nd_Id P) s"
  shows "asg_wf (copySuccs PG M P Ss G) \<and> flags_ok F (copySuccs PG M P Ss G) \<and>
    same_nodes G (copySuccs PG M P Ss G) \<and>
    (\<forall>a b. asg_edge (copySuccs PG M P Ss G) a b \<longleftrightarrow>
       asg_edge G a b \<or> a = omap_get 0 M (nd_Id P) \<and> (\<exists>s \<in> set Ss. map_of M s = Some b))"
  using assms
proof (induction Ss arbitrary: G)
  case Nil
  then show ?case by (simp add: same_nodes_def)
next
  case (Cons s Ss)
  show ?case
  proof (cases "map_of M s")
    case None
    then show ?thesis using Cons.IH [OF Cons.prems(1,2)] Cons.prems(3) by auto
  next
    case (Some t)
    let ?a = "omap_get 0 M (nd_Id P)"
    let ?H = "asg_addEdge ?a t (backFlag PG (nd_Id P) s) G"
    have "backFlag PG (nd_Id P) s = F ?a t" using Cons.prems(3) [of s t] Some by simp
    then have f: "flags_ok F ?H" by (rule addEdge_flags [OF Cons.prems(2)])
    have run: "copySuccs PG M P (s # Ss) G = copySuccs PG M P Ss ?H"
      using Some by (simp add: backFlag_def)
    note IH = Cons.IH [OF asg_wf_addEdge [OF Cons.prems(1)] f] 
    have "asg_wf (copySuccs PG M P Ss ?H) \<and> flags_ok F (copySuccs PG M P Ss ?H) \<and>
      same_nodes ?H (copySuccs PG M P Ss ?H) \<and>
      (\<forall>a b. asg_edge (copySuccs PG M P Ss ?H) a b \<longleftrightarrow>
         asg_edge ?H a b \<or> a = ?a \<and> (\<exists>s \<in> set Ss. map_of M s = Some b))"
      by (rule IH) (use Cons.prems(3) in auto)
    moreover have "same_nodes G ?H" by (rule addEdge_same_nodes)
    ultimately show ?thesis
      unfolding run using Some by (auto simp: asg_edge_addEdge same_nodes_def)
  qed
qed

lemma copyEdges_spec:
  assumes "asg_wf G" "flags_ok F G"
    and "\<And>i P s t. (i, P) \<in> set Ns \<Longrightarrow> s \<in> set (Successors P) \<Longrightarrow> map_of M s = Some t \<Longrightarrow>
      F (omap_get 0 M (nd_Id P)) t = backFlag PG (nd_Id P) s"
  shows "asg_wf (copyEdges PG M Ns G) \<and> flags_ok F (copyEdges PG M Ns G) \<and>
    same_nodes G (copyEdges PG M Ns G) \<and>
    (\<forall>a b. asg_edge (copyEdges PG M Ns G) a b \<longleftrightarrow> asg_edge G a b \<or>
       (\<exists>(i, P) \<in> set Ns. a = omap_get 0 M (nd_Id P) \<and> (\<exists>s \<in> set (Successors P). map_of M s = Some b)))"
  using assms
proof (induction Ns arbitrary: G)
  case Nil
  then show ?case by (simp add: same_nodes_def)
next
  case (Cons p Ns)
  obtain i P where p: "p = (i, P)" by force
  let ?H = "copySuccs PG M P (Successors P) G"
  have c: "asg_wf ?H \<and> flags_ok F ?H \<and> same_nodes G ?H \<and>
    (\<forall>a b. asg_edge ?H a b \<longleftrightarrow> asg_edge G a b \<or>
       a = omap_get 0 M (nd_Id P) \<and> (\<exists>s \<in> set (Successors P). map_of M s = Some b))"
    by (rule copySuccs_spec [OF Cons.prems(1,2)]) (use Cons.prems(3) p in auto)
  then have "asg_wf ?H" "flags_ok F ?H" by blast+
  note IH = Cons.IH [OF this]
  have "asg_wf (copyEdges PG M Ns ?H) \<and> flags_ok F (copyEdges PG M Ns ?H) \<and>
    same_nodes ?H (copyEdges PG M Ns ?H) \<and>
    (\<forall>a b. asg_edge (copyEdges PG M Ns ?H) a b \<longleftrightarrow> asg_edge ?H a b \<or>
       (\<exists>(i, P) \<in> set Ns. a = omap_get 0 M (nd_Id P) \<and> (\<exists>s \<in> set (Successors P). map_of M s = Some b)))"
    by (rule IH) (use Cons.prems(3) in auto)
  with c show ?case by (auto simp: p same_nodes_def)
qed

subsection \<open>Entries, exits and calls\<close>

definition endMark :: "Node \<Rightarrow> 's ASGNode \<Rightarrow> 's ASGNode" where
  "endMark P N =
     (let N1 = (if Predecessors P = [] then N\<lparr>IsEntry := True\<rparr> else N)
      in if Successors P = [] then N1\<lparr>IsExit := True\<rparr> else N1)"

lemma endMark_keeps [simp]:
  "asg_MBB (endMark P N) = asg_MBB N" "asg_State (endMark P N) = asg_State N"
  "Cost (endMark P N) = Cost N" "IsLoopHeader (endMark P N) = IsLoopHeader N"
  "asg_UpperLoopBound (endMark P N) = asg_UpperLoopBound N"
  "IsEntry (endMark P N) \<longleftrightarrow> IsEntry N \<or> Predecessors P = []"
  "IsExit (endMark P N) \<longleftrightarrow> IsExit N \<or> Successors P = []"
  by (auto simp: endMark_def Let_def)

lemma update_info:
  "FunctionEntries (asg_update i f G) = FunctionEntries G"
  "FunctionReturns (asg_update i f G) = FunctionReturns G"
  "asg_CallSites (asg_update i f G) = asg_CallSites G"
  by (simp_all add: asg_update_def split: option.splits)

lemma markEnds_spec:
  assumes "distinct (map (\<lambda>p. omap_get 0 M (nd_Id (snd p))) Ns)" "asg_wf G"
  shows "asg_wf (markEnds M Ns G) \<and> asg_getSuccessors (markEnds M Ns G) = asg_getSuccessors G \<and>
    asg_edge (markEnds M Ns G) = asg_edge G \<and>
    FunctionEntries (markEnds M Ns G) = FunctionEntries G \<and>
    FunctionReturns (markEnds M Ns G) = FunctionReturns G \<and>
    asg_CallSites (markEnds M Ns G) = asg_CallSites G \<and>
    (\<forall>p \<in> set Ns. asg_getNode (markEnds M Ns G) (omap_get 0 M (nd_Id (snd p))) =
       map_option (endMark (snd p)) (asg_getNode G (omap_get 0 M (nd_Id (snd p))))) \<and>
    (\<forall>n. n \<notin> (\<lambda>p. omap_get 0 M (nd_Id (snd p))) ` set Ns \<longrightarrow>
       asg_getNode (markEnds M Ns G) n = asg_getNode G n)"
  using assms
proof (induction Ns arbitrary: G)
  case (Cons p Ns)
  obtain i P where p: "p = (i, P)" by force
  let ?H = "asg_update (omap_get 0 M (nd_Id P)) (endMark P) G"
  have run: "markEnds M (p # Ns) G = markEnds M Ns ?H"
    by (simp add: p endMark_def [abs_def])
  have d: "distinct (map (\<lambda>p. omap_get 0 M (nd_Id (snd p))) Ns)"
    "omap_get 0 M (nd_Id P) \<notin> (\<lambda>p. omap_get 0 M (nd_Id (snd p))) ` set Ns"
    using Cons.prems(1) p by auto
  have ne: "omap_get 0 M (nd_Id (snd q)) \<noteq> omap_get 0 M (nd_Id P)" if "q \<in> set Ns" for q
    using that d(2) by force
  note IH = Cons.IH [OF d(1) asg_wf_update [OF Cons.prems(2)], of "omap_get 0 M (nd_Id P)" "endMark P"]
  have here: "asg_getNode (markEnds M Ns ?H) (omap_get 0 M (nd_Id P)) =
      map_option (endMark P) (asg_getNode G (omap_get 0 M (nd_Id P)))"
    using IH d(2) by simp
  show ?case
    unfolding run using IH ne here by (auto simp: p update_info)
qed simp

lemma copyEntries_spec:
  "distinct (map fst Fs) \<Longrightarrow>
   map_of (copyEntries M Fs E) F =
     (case map_of Fs F of
        Some n \<Rightarrow> (case map_of M n of Some a \<Rightarrow> Some a | None \<Rightarrow> map_of E F)
      | None \<Rightarrow> map_of E F)"
proof (induction Fs arbitrary: E)
  case (Cons p Fs)
  obtain F' n where p: "p = (F', n)" by force
  have "F' \<notin> fst ` set Fs" using Cons.prems p by simp
  then have "map_of Fs F' = None" by (simp add: map_of_eq_None_iff)
  then show ?case
    using Cons.IH [of "case map_of M n of Some a \<Rightarrow> omap_put F' a E | None \<Rightarrow> E"] Cons.prems p
    by (auto simp: copyEntries_def split: option.splits)
qed (simp add: copyEntries_def)

lemma map_filter_as_map:
  "(\<And>x. f x = (if P x then Some (g x) else None)) \<Longrightarrow> List.map_filter f xs = map g (filter P xs)"
  by (induction xs) (auto simp: List.map_filter_simps)

lemma copyReturns_inner:
  "omap_get [] (foldl (\<lambda>R n. case map_of M n of
       Some a \<Rightarrow> omap_put F (omap_get [] R F @ [a]) R | None \<Rightarrow> R) R ns) F' =
   omap_get [] R F' @ (if F' = F then List.map_filter (map_of M) ns else [])"
  by (induction ns arbitrary: R) (auto simp: List.map_filter_simps split: option.splits)

lemma copyReturns_spec:
  "distinct (map fst Fs) \<Longrightarrow>
   omap_get [] (copyReturns M Fs R) F =
     omap_get [] R F @ List.map_filter (map_of M) (omap_get [] Fs F)"
proof (induction Fs arbitrary: R)
  case (Cons p Fs)
  obtain F' ns where p: "p = (F', ns)" by force
  define H where "H = foldl (\<lambda>R n. case map_of M n of
       Some a \<Rightarrow> omap_put F' (omap_get [] R F' @ [a]) R | None \<Rightarrow> R) R ns"
  have "F' \<notin> fst ` set Fs" using Cons.prems p by simp
  then have "map_of Fs F' = None" by (simp add: map_of_eq_None_iff)
  then have none: "omap_get [] Fs F' = []" by (simp add: omap_get_def)
  have "copyReturns M (p # Fs) R = copyReturns M Fs H" by (simp add: copyReturns_def p H_def)
  moreover have "omap_get [] (copyReturns M Fs H) F =
      omap_get [] H F @ List.map_filter (map_of M) (omap_get [] Fs F)"
    using Cons.IH Cons.prems by simp
  moreover have "omap_get [] (p # Fs) F = (if F = F' then ns else omap_get [] Fs F)"
    by (simp add: p omap_get_def)
  ultimately show ?case
    using none unfolding H_def copyReturns_inner by (cases "F = F'") (simp_all add: List.map_filter_simps)
qed (simp add: copyReturns_def omap_get_def List.map_filter_simps)

subsection \<open>The whole copy\<close>

definition copied_node :: "IndetBounds \<Rightarrow> Node \<Rightarrow> 's ASGNode \<Rightarrow> bool" where
  "copied_node Indet P N \<longleftrightarrow>
     asg_MBB N = None \<and> Cost N = MaxCycles (nd_State P) \<and>
     (IsLoopHeader N \<longleftrightarrow> BackEdgePredecessors P \<noteq> []) \<and>
     asg_UpperLoopBound N =
       (if BackEdgePredecessors P = [] then 0
        else case UpperLoopBound P of Some b \<Rightarrow> b | None \<Rightarrow> Indet (nd_Id P)) \<and>
     (IsEntry N \<longleftrightarrow> nd_Name P = ''Entry'' \<or> Predecessors P = []) \<and>
     (IsExit N \<longleftrightarrow> nd_Name P = ''Exit'' \<or> Successors P = [])"

lemma copied_nodeI: "copied_node Indet P (endMark P (copyPGNode Indet P (newASGNode n s None)))"
  by (auto simp: copied_node_def copyPGNode_def newASGNode_def getUpperBoundCycles_def Let_def)

definition pg_copy :: "ProgramGraph \<Rightarrow> IndetBounds \<Rightarrow> (nat \<Rightarrow> nat) \<Rightarrow> 's AbstractStateGraph \<Rightarrow> bool" where
  "pg_copy PG Indet m G \<longleftrightarrow>
     asg_wf G \<and> inj_on m (node_ids PG) \<and> asg_ids G = m ` node_ids PG \<and>
     (\<forall>i P. node_at PG i = Some P \<longrightarrow> (\<exists>N. asg_getNode G (m i) = Some N \<and> copied_node Indet P N)) \<and>
     (\<forall>a b. asg_edge G a b \<longleftrightarrow> (\<exists>i j. a = m i \<and> b = m j \<and> j \<in> succs PG i)) \<and>
     (\<forall>i \<in> node_ids PG. \<forall>e \<in> set (asg_getSuccessors G (m i)).
        \<exists>j \<in> node_ids PG. fst e = m j \<and> snd e = backFlag PG i j) \<and>
     (\<forall>F. map_of (FunctionEntries G) F =
        (case map_of (FunctionToEntryNodeMap PG) F of
           Some n \<Rightarrow> if n \<in> node_ids PG then Some (m n) else None
         | None \<Rightarrow> None)) \<and>
     (\<forall>F. omap_get [] (FunctionReturns G) F =
        map m (filter (\<lambda>n. n \<in> node_ids PG) (omap_get [] (FunctionToReturnNodesMap PG) F))) \<and>
     asg_CallSites G =
       map (\<lambda>CS. \<lparr>CallNodeId = m (CallNode CS), ReturnNodeId = m (LandingNode CS), asg_Callee = Callee CS\<rparr>)
         (filter (\<lambda>CS. HasLanding CS \<and> CallNode CS \<in> node_ids PG \<and> LandingNode CS \<in> node_ids PG)
            (CallSites PG))"

lemma copyCallSites_eq:
  assumes "\<And>i. map_of M i = (if i \<in> I then Some (m i) else None)"
  shows "copyCallSites M Css =
    map (\<lambda>CS. \<lparr>CallNodeId = m (CallNode CS), ReturnNodeId = m (LandingNode CS), asg_Callee = Callee CS\<rparr>)
      (filter (\<lambda>CS. HasLanding CS \<and> CallNode CS \<in> I \<and> LandingNode CS \<in> I) Css)"
  by (induction Css) (auto simp: copyCallSites_def assms)

definition maps_ok :: "ProgramGraph \<Rightarrow> bool" where
  "maps_ok PG \<longleftrightarrow> omap_ok (FunctionToEntryNodeMap PG) \<and> omap_ok (FunctionToReturnNodesMap PG)"

lemma initializeGraph_PG_copy:
  fixes A :: "'s Analysable" and Indet :: IndetBounds
  assumes "pg_wf PG" "maps_ok PG"
  defines "S \<equiv> initializeGraph_PG A Indet PG newSolver"
  shows "(\<exists>m. pg_copy PG Indet m (ws_Graph S)) \<and> wl_ok S \<and> idle A (ws_Graph S)"
proof -
  let ?Ns = "Nodes PG" and ?E = "emptyASG :: 's AbstractStateGraph"
  have d: "distinct (map fst ?Ns)" using assms(1) omap_ok_distinct by (auto simp: pg_wf_def)
  have mem: "(i, P) \<in> set ?Ns \<longleftrightarrow> node_at PG i = Some P" for i P
    using omap_ok_map_of [of "Nodes PG" i P] assms(1) by (simp add: pg_wf_def node_at_def)
  have nid: "\<forall>p \<in> set ?Ns. nd_Id (snd p) = fst p"
  proof
    fix p assume "p \<in> set ?Ns"
    then have "node_at PG (fst p) = Some (snd p)" using mem [of "fst p" "snd p"] by simp
    then show "nd_Id (snd p) = fst p" using assms(1) by (auto simp: pg_wf_def node_ok_def)
  qed
  obtain M G1 where c: "copyNodes A Indet ?Ns [] ?E = (M, G1)" by fastforce
  have e: "asg_NextNodeId ?E = 0" "asg_getNode ?E n = None" "\<not> asg_edge ?E a b"
    "asg_getSuccessors ?E a = []" for n a b
    by (simp_all add: emptyASG_def asg_getNode_def asg_edge_def asg_getSuccessors_def omap_get_def)
  note n = copyNodes_spec [OF asg_wf_empty d nid c, unfolded e(1), simplified]
  define m where "m = omap_get 0 M"
  have ids: "node_ids PG = fst ` set ?Ns"
    by (auto simp: node_ids_def node_at_def map_of_eq_None_iff image_iff)
  have Mj: "map_of M (fst (?Ns ! j)) = Some j" if "j < length ?Ns" for j using n that by simp
  have M: "map_of M i = (if i \<in> node_ids PG then Some (m i) else None)" for i
  proof (cases "i \<in> node_ids PG")
    case True
    then obtain j where "j < length ?Ns" "fst (?Ns ! j) = i" by (auto simp: ids in_set_conv_nth)
    then show ?thesis using True Mj [of j] by (simp add: m_def omap_get_def)
  next
    case False
    then show ?thesis using n by (simp add: ids)
  qed
  have mj: "m (fst (?Ns ! j)) = j" if "j < length ?Ns" for j
    using Mj [OF that] by (simp add: m_def omap_get_def)
  have inj: "inj_on m (node_ids PG)"
  proof (rule inj_onI)
    fix i j assume "i \<in> node_ids PG" "j \<in> node_ids PG" "m i = m j"
    moreover from this obtain a b where "a < length ?Ns" "fst (?Ns ! a) = i" "b < length ?Ns" "fst (?Ns ! b) = j"
      by (auto simp: ids in_set_conv_nth)
    ultimately show "i = j" using mj [of a] mj [of b] by auto
  qed
  define F where "F a b \<longleftrightarrow> (\<exists>i \<in> node_ids PG. \<exists>j \<in> node_ids PG. a = m i \<and> b = m j \<and> backFlag PG i j)" for a b
  have Fm: "F (m i) (m j) = backFlag PG i j" if "i \<in> node_ids PG" "j \<in> node_ids PG" for i j
    using that inj by (auto simp: F_def inj_on_def)
  define G2 where "G2 = copyEdges PG M ?Ns G1"
  have ed: "asg_wf G2 \<and> flags_ok F G2 \<and> same_nodes G1 G2 \<and>
    (\<forall>a b. asg_edge G2 a b \<longleftrightarrow> asg_edge G1 a b \<or>
       (\<exists>(i, P) \<in> set ?Ns. a = omap_get 0 M (nd_Id P) \<and> (\<exists>s \<in> set (Successors P). map_of M s = Some b)))"
    unfolding G2_def
  proof (rule copyEdges_spec)
    show "asg_wf G1" "flags_ok F G1" using n e(4) by (simp_all add: flags_ok_def)
    fix i P s t assume p: "(i, P) \<in> set ?Ns" and t: "map_of M s = Some t"
    have "nd_Id P = i" "i \<in> node_ids PG" using p nid by (force simp: ids)+
    moreover have "s \<in> node_ids PG" "t = m s" using t M [of s] by (auto split: if_splits)
    ultimately show "F (omap_get 0 M (nd_Id P)) t = backFlag PG (nd_Id P) s"
      using Fm [of i s] by (simp add: m_def)
  qed
  define G3 where "G3 = markEnds M ?Ns G2"
  have dm: "distinct (map (\<lambda>p. omap_get 0 M (nd_Id (snd p))) ?Ns)"
  proof -
    have e: "map (\<lambda>p. omap_get 0 M (nd_Id (snd p))) ?Ns = map m (map fst ?Ns)"
      using nid by (simp add: m_def)
    have "inj_on m (set (map fst ?Ns))" using inj by (simp add: ids)
    then show ?thesis unfolding e distinct_map [of m "map fst ?Ns"] using d by blast
  qed
  note k = markEnds_spec [OF dm, of G2, folded G3_def]
  define G where "G = G3\<lparr>FunctionEntries := copyEntries M (FunctionToEntryNodeMap PG) (FunctionEntries G3),
      FunctionReturns := copyReturns M (FunctionToReturnNodesMap PG) (FunctionReturns G3),
      asg_CallSites := asg_CallSites G3 @ copyCallSites M (CallSites PG)\<rparr>"
  have S: "S = seedEntries (asg_Nodes G) (newSolver\<lparr>ws_Graph := G\<rparr>)"
    using c by (simp add: S_def initializeGraph_PG_def newSolver_def G2_def G3_def G_def Let_def)
  have "wl_ok (newSolver\<lparr>ws_Graph := G\<rparr>)" by (simp add: wl_ok_def newSolver_def)
  from seedEntries_spec [OF this, of "asg_Nodes G"]
  have WS: "ws_Graph S = G" "wl_ok S" unfolding S by simp_all
  have gk: "asg_getNode G = asg_getNode G3" "asg_getSuccessors G = asg_getSuccessors G3"
    "asg_edge G = asg_edge G3" "asg_wf G = asg_wf G3"
    by (simp_all add: G_def asg_getNode_def asg_getSuccessors_def asg_getPredecessors_def asg_edge_def
        asg_wf_def fun_eq_iff)
  have node: "asg_getNode G (m i) =
      Some (endMark P (copyPGNode Indet P (newASGNode (m i) (an_getInitialState A) None)))"
    if P: "node_at PG i = Some P" for i P
  proof -
    have p: "(i, P) \<in> set ?Ns" using P mem by simp
    then obtain j where j: "j < length ?Ns" "?Ns ! j = (i, P)" by (auto simp: in_set_conv_nth)
    have "m i = j" using mj [OF j(1)] j(2) by simp
    then have 1: "asg_getNode G1 (m i) =
        Some (copyPGNode Indet P (newASGNode (m i) (an_getInitialState A) None))"
      using n j e(2) by simp
    have "nd_Id P = i" using nid p by auto
    then show ?thesis
      using k p ed 1 by (auto simp: gk m_def same_nodes_def)
  qed
  have none: "asg_getNode G a = None" if "a \<notin> m ` node_ids PG" for a
  proof -
    have len: "length ?Ns \<le> a"
    proof (rule ccontr)
      assume "\<not> length ?Ns \<le> a"
      then have "a = m (fst (?Ns ! a))" "fst (?Ns ! a) \<in> node_ids PG"
        using mj [of a] by (auto simp: ids)
      then show False using that by blast
    qed
    have "a \<notin> (\<lambda>p. omap_get 0 M (nd_Id (snd p))) ` set ?Ns"
      using that nid by (auto simp: ids m_def)
    then show ?thesis using k ed n len e(2) by (simp add: gk same_nodes_def)
  qed
  have idsG: "asg_ids G = m ` node_ids PG"
    using node none by (fastforce simp: asg_ids_def node_ids_def)
  have succ_ids: "j \<in> node_ids PG" if "j \<in> succs PG i" for i j
    using pg_wf_succs_exist [OF assms(1)] that by blast
  have edges: "asg_edge G a b \<longleftrightarrow> (\<exists>i j. a = m i \<and> b = m j \<and> j \<in> succs PG i)" for a b
  proof -
    have "asg_edge G a b \<longleftrightarrow>
        (\<exists>(i, P) \<in> set ?Ns. a = omap_get 0 M (nd_Id P) \<and> (\<exists>s \<in> set (Successors P). map_of M s = Some b))"
      using k ed n e(3,4) by (simp add: gk asg_edge_def)
    also have "\<dots> \<longleftrightarrow> (\<exists>i P. node_at PG i = Some P \<and> a = m i \<and> (\<exists>s \<in> set (Successors P). map_of M s = Some b))"
      (is "?L \<longleftrightarrow> ?R")
    proof
      assume ?L
      then obtain i P where p: "(i, P) \<in> set ?Ns" "a = omap_get 0 M (nd_Id P)"
        "\<exists>s \<in> set (Successors P). map_of M s = Some b" by blast
      have "nd_Id P = i" using nid p(1) by auto
      then show ?R using p mem [of i P] by (auto simp: m_def)
    next
      assume ?R
      then obtain i P where p: "(i, P) \<in> set ?Ns" "a = m i"
        "\<exists>s \<in> set (Successors P). map_of M s = Some b" using mem by blast
      have "nd_Id P = i" using nid p(1) by auto
      then have "a = omap_get 0 M (nd_Id P)" using p(2) by (simp add: m_def)
      then show ?L using p by blast
    qed
    also have "\<dots> \<longleftrightarrow> (\<exists>i s. s \<in> succs PG i \<and> a = m i \<and> map_of M s = Some b)"
      unfolding succs_def by (force split: option.splits)
    also have "\<dots> \<longleftrightarrow> (\<exists>i j. a = m i \<and> b = m j \<and> j \<in> succs PG i)"
    proof -
      have "map_of M s = Some b \<longleftrightarrow> b = m s" if "s \<in> succs PG i" for i s
        using M [of s] succ_ids [OF that] by auto
      then show ?thesis by blast
    qed
    finally show ?thesis .
  qed
  have flags: "\<exists>j \<in> node_ids PG. fst e = m j \<and> snd e = backFlag PG i j"
    if i: "i \<in> node_ids PG" and e: "e \<in> set (asg_getSuccessors G (m i))" for i e
  proof -
    have "asg_edge G (m i) (fst e)" using e by (simp add: asg_edge_def)
    then obtain i' j where j: "m i = m i'" "fst e = m j" "j \<in> succs PG i'" using edges by blast
    have "snd e = F (m i) (fst e)" using ed e k by (simp add: flags_ok_def gk)
    then show ?thesis using j Fm [OF i succ_ids [OF j(3)]] succ_ids [OF j(3)] by auto
  qed
  have info: "FunctionEntries G3 = []" "FunctionReturns G3 = []" "asg_CallSites G3 = []"
    using k ed n by (simp_all add: same_nodes_def emptyASG_def)
  have dF: "distinct (map fst (FunctionToEntryNodeMap PG))" "distinct (map fst (FunctionToReturnNodesMap PG))"
    using assms(2) omap_ok_distinct by (auto simp: maps_ok_def)
  have ents: "map_of (FunctionEntries G) F = (case map_of (FunctionToEntryNodeMap PG) F of
           Some n \<Rightarrow> if n \<in> node_ids PG then Some (m n) else None | None \<Rightarrow> None)" for F
    using copyEntries_spec [OF dF(1), of M "[]" F]
    by (simp add: G_def info M split: option.splits)
  have rets: "omap_get [] (FunctionReturns G) F =
        map m (filter (\<lambda>n. n \<in> node_ids PG) (omap_get [] (FunctionToReturnNodesMap PG) F))" for F
    using copyReturns_spec [OF dF(2), of M "[]" F] by (simp add: G_def info map_filter_as_map [OF M])
  have cs: "asg_CallSites G = copyCallSites M (CallSites PG)" by (simp add: G_def info)
  have "pg_copy PG Indet m G"
    unfolding pg_copy_def
    using k ed inj idsG node edges flags ents rets copied_nodeI
      copyCallSites_eq [of M "node_ids PG" m, OF M]
    by (auto simp: gk cs)
  moreover have "idle A G"
    unfolding idle_def
  proof (intro allI impI)
    fix a N assume a: "asg_getNode G a = Some N"
    then obtain i where i: "i \<in> node_ids PG" "a = m i" using none [of a] by force
    then obtain P where "node_at PG i = Some P" by (auto simp: node_ids_def)
    then show "asg_MBB N = None \<and> asg_State N = an_getInitialState A"
      using node [of i P] a i(2) by (auto simp: newASGNode_def)
  qed
  ultimately show ?thesis using WS by auto
qed

subsection \<open>Running the pipeline on the program graph\<close>

lemma neutral_MSP430Pipeline: "neutral MSP430Pipeline"
  by (simp add: neutral_def MSP430Pipeline_def PipelineAnalysis_def addAnalysis_def
      InstructionCacheAnalysis_def SimpleStage_def Pipeline_getInitialState_def Pipeline_equals_def
      Stage_clone_def)

lemma initializeGraph_PG_nil:
  "asg_Nodes (ws_Graph (initializeGraph_PG A Indet PG newSolver)) = [] \<Longrightarrow>
   Worklist (initializeGraph_PG A Indet PG newSolver) = []"
  by (auto simp: initializeGraph_PG_def Let_def newSolver_def wl_ok_def seedEntries_spec
      split: prod.splits)

lemma run_PG_copies:
  assumes "pg_wf PG" "maps_ok PG"
  shows "\<exists>S m. run_PG MSP430Pipeline Indet PG newSolver = Some S \<and> Worklist S = [] \<and>
    pg_copy PG Indet m (ws_Graph S)"
proof -
  let ?S = "initializeGraph_PG MSP430Pipeline Indet PG newSolver"
  obtain m where m: "pg_copy PG Indet m (ws_Graph ?S)" "idle MSP430Pipeline (ws_Graph ?S)" "wl_ok ?S"
    using initializeGraph_PG_copy [OF assms, where A = MSP430Pipeline and Indet = Indet] by blast
  let ?T = "addAll (map fst (asg_Nodes (ws_Graph ?S))) ?S"
  have g: "ws_Graph ?T = ws_Graph ?S" using m(3) addAll_spec by blast
  obtain S' where "loop_PG MSP430Pipeline ?T = Some S'" "ws_Graph S' = ws_Graph ?S" "Worklist S' = []"
    using loop_PG_idle [OF _ neutral_MSP430Pipeline, of ?T] m(2) g by auto
  then show ?thesis
    using m(1) initializeGraph_PG_nil [where A = MSP430Pipeline]
    by (auto simp: run_PG_def Let_def)
qed

text \<open>C4: running the MSP430 pipeline on a well-formed program graph always terminates, and the
  abstract state graph it leaves is an exact copy of the program graph under an injective
  renumbering of its nodes: the same nodes with their cost, loop header and bound, the same edges
  with the same back-edge flags, the same function entries, returns and call sites. The integer
  program is therefore built for the program graph, not for something the solver changed.\<close>

theorem run_PG_copy:
  assumes "pg_wf PG" "maps_ok PG"
  shows "\<exists>S m. run_PG MSP430Pipeline Indet PG newSolver = Some S \<and> Worklist S = [] \<and>
    pg_copy PG Indet m (ws_Graph S)"
  by (rule run_PG_copies [OF assms])

theorem run_PG_copy_witness:
  "\<exists>S m. run_PG MSP430Pipeline (\<lambda>_. 1) demo_graph newSolver = Some S \<and> Worklist S = [] \<and>
    pg_copy demo_graph (\<lambda>_. 1) m (ws_Graph S)"
  using run_PG_copy [where PG = demo_graph and Indet = "\<lambda>_. 1"] demo_graph_ok by (simp add: maps_ok_def demo_graph_def emptyPG_def omap_ok_def)

end
