(* ===== verification/ILPModel.thy ===== *)
theory ILPModel
  imports AbstractStateGraph Complex_Main
begin

text \<open>
  \<open>AbstractHighsSolver.cpp\<close>: the integer program of the worst-case path. One column per node
  (how often it runs, with its cost) and one per edge (how often it is taken); rows for flow
  conservation, the entry, the loop bounds and the matching of calls and returns. HiGHS is not
  part of the repository: it is a function from the model to its answer. The coefficients the
  code converts to \<open>double\<close> come from 32-bit integers, which a double holds exactly, so they are
  integers here; what HiGHS answers are rationals.
\<close>

text \<open>\<open>kHighsInf\<close> is \<^term>\<open>None\<close> as an upper bound.\<close>

record Row =
  row_lower :: int
  row_upper :: "int option"
  row_coeffs :: "(nat \<times> int) list"

datatype ObjSense = kMinimize | kMaximize

datatype HighsVarType = kContinuous | kInteger

record HighsModel =
  sense :: ObjSense
  num_col :: nat
  col_cost :: "int list"
  col_lower :: "int list"
  col_upper :: "int option list"
  integrality :: "HighsVarType list"
  hm_rows :: "Row list"

type_synonym NodeColMap = "(nat \<times> nat) list"
type_synonym EdgeColMap = "(nat \<times> nat) \<rightharpoonup> nat"

definition addCol :: "int \<Rightarrow> HighsModel \<Rightarrow> HighsModel" where
  "addCol c M =
     M\<lparr>col_cost := col_cost M @ [c], col_lower := col_lower M @ [0],
       col_upper := col_upper M @ [None], num_col := num_col M + 1\<rparr>"

definition addRow :: "Row \<Rightarrow> HighsModel \<Rightarrow> HighsModel" where
  "addRow R M = M\<lparr>hm_rows := hm_rows M @ [R]\<rparr>"

subsection \<open>Columns\<close>

fun nodeColumns ::
  "(nat \<times> 's ASGNode) list \<Rightarrow> NodeColMap \<times> HighsModel \<Rightarrow> NodeColMap \<times> HighsModel" where
  "nodeColumns [] (NodeCols, M) = (NodeCols, M)"
| "nodeColumns ((U, Node) # Ns) (NodeCols, M) =
     nodeColumns Ns (omap_put U (num_col M) NodeCols, addCol (uint (Cost Node)) M)"

fun edgeColumnsOf ::
  "nat \<Rightarrow> EdgeSet \<Rightarrow> EdgeColMap \<times> HighsModel \<Rightarrow> EdgeColMap \<times> HighsModel" where
  "edgeColumnsOf U [] (EdgeCols, M) = (EdgeCols, M)"
| "edgeColumnsOf U ((V, IsBack) # Es) (EdgeCols, M) =
     edgeColumnsOf U Es (EdgeCols((U, V) \<mapsto> num_col M), addCol 0 M)"

fun edgeColumns ::
  "'s AbstractStateGraph \<Rightarrow> (nat \<times> 's ASGNode) list \<Rightarrow> EdgeColMap \<times> HighsModel
   \<Rightarrow> EdgeColMap \<times> HighsModel" where
  "edgeColumns G [] S = S"
| "edgeColumns G ((U, Node) # Ns) S =
     edgeColumns G Ns (edgeColumnsOf U (asg_getSuccessors G U) S)"

subsection \<open>Rows\<close>

definition flowInRow :: "'s AbstractStateGraph \<Rightarrow> NodeColMap \<Rightarrow> EdgeColMap \<Rightarrow> nat \<Rightarrow> Row" where
  "flowInRow G NodeCols EdgeCols U =
     \<lparr>row_lower = 0, row_upper = Some 0,
      row_coeffs = (omap_get 0 NodeCols U, 1) #
        concat (map (\<lambda>Pred. case EdgeCols (Pred, U) of Some c \<Rightarrow> [(c, - 1)] | None \<Rightarrow> [])
          (asg_getPredecessors G U))\<rparr>"

definition flowOutRow :: "'s AbstractStateGraph \<Rightarrow> NodeColMap \<Rightarrow> EdgeColMap \<Rightarrow> nat \<Rightarrow> Row" where
  "flowOutRow G NodeCols EdgeCols U =
     \<lparr>row_lower = 0, row_upper = Some 0,
      row_coeffs = (omap_get 0 NodeCols U, 1) #
        concat (map (\<lambda>Edge. case EdgeCols (U, fst Edge) of Some c \<Rightarrow> [(c, - 1)] | None \<Rightarrow> [])
          (asg_getSuccessors G U))\<rparr>"

definition entryRow :: "NodeColMap \<Rightarrow> nat \<Rightarrow> Row" where
  "entryRow NodeCols U =
     \<lparr>row_lower = 1, row_upper = Some 1, row_coeffs = [(omap_get 0 NodeCols U, 1)]\<rparr>"

definition isBackInto :: "'s AbstractStateGraph \<Rightarrow> nat \<Rightarrow> nat \<Rightarrow> bool" where
  "isBackInto G U Pred \<longleftrightarrow> list_ex (\<lambda>Edge. fst Edge = U \<and> snd Edge) (asg_getSuccessors G Pred)"

definition loopRow ::
  "'s AbstractStateGraph \<Rightarrow> NodeColMap \<Rightarrow> EdgeColMap \<Rightarrow> nat \<Rightarrow> u32 \<Rightarrow> Row" where
  "loopRow G NodeCols EdgeCols U Bound =
     \<lparr>row_lower = 0, row_upper = None,
      row_coeffs = (omap_get 0 NodeCols U, uint (Bound - 1)) #
        concat (map (\<lambda>Pred. if isBackInto G U Pred
                            then (case EdgeCols (Pred, U) of Some c \<Rightarrow> [(c, - uint Bound)] | None \<Rightarrow> [])
                            else [])
          (asg_getPredecessors G U))\<rparr>"

definition nodeRows ::
  "'s AbstractStateGraph \<Rightarrow> NodeColMap \<Rightarrow> EdgeColMap \<Rightarrow> nat \<times> 's ASGNode \<Rightarrow> Row list" where
  "nodeRows G NodeCols EdgeCols P =
     (let (U, Node) = P
      in (if \<not> IsEntry Node then [flowInRow G NodeCols EdgeCols U] else []) @
         (if \<not> IsExit Node then [flowOutRow G NodeCols EdgeCols U] else []) @
         (if IsEntry Node then [entryRow NodeCols U] else []) @
         (if IsLoopHeader Node \<and> asg_UpperLoopBound Node > 0
          then [loopRow G NodeCols EdgeCols U (asg_UpperLoopBound Node)] else []))"

definition returnCols :: "'s AbstractStateGraph \<Rightarrow> EdgeColMap \<Rightarrow> ASGCallSite \<Rightarrow> (nat \<times> int) list" where
  "returnCols G EdgeCols CS =
     concat (map (\<lambda>R. case EdgeCols (R, ReturnNodeId CS) of Some c \<Rightarrow> [(c, - 1)] | None \<Rightarrow> [])
       (omap_get [] (FunctionReturns G) (asg_Callee CS)))"

definition callRow :: "'s AbstractStateGraph \<Rightarrow> EdgeColMap \<Rightarrow> ASGCallSite \<Rightarrow> Row list" where
  "callRow G EdgeCols CS =
     (case map_of (FunctionEntries G) (asg_Callee CS) of
        None \<Rightarrow> []
      | Some Entry \<Rightarrow>
          (case EdgeCols (CallNodeId CS, Entry) of
             None \<Rightarrow> []
           | Some CallEdge \<Rightarrow>
               (let inds = (CallEdge, 1) # returnCols G EdgeCols CS
                in if length inds > 1
                   then [\<lparr>row_lower = 0, row_upper = Some 0, row_coeffs = inds\<rparr>] else [])))"

definition emptyModel :: HighsModel where
  "emptyModel =
     \<lparr>sense = kMinimize, num_col = 0, col_cost = [], col_lower = [], col_upper = [], integrality = [], hm_rows = []\<rparr>"

definition buildColumns :: "'s AbstractStateGraph \<Rightarrow> NodeColMap \<times> EdgeColMap \<times> HighsModel" where
  "buildColumns G =
     (let (NodeCols, M) = nodeColumns (asg_Nodes G) ([], emptyModel\<lparr>sense := kMaximize\<rparr>);
          (EdgeCols, M') = edgeColumns G (asg_Nodes G) (\<lambda>_. None, M)
      in (NodeCols, EdgeCols, M'\<lparr>integrality := replicate (num_col M') kInteger\<rparr>))"

definition wcetModel :: "'s AbstractStateGraph \<Rightarrow> HighsModel" where
  "wcetModel G =
     (let (NodeCols, EdgeCols, M) = buildColumns G;
          M1 = fold addRow (concat (map (nodeRows G NodeCols EdgeCols) (asg_Nodes G))) M
      in fold addRow (concat (map (callRow G EdgeCols) (asg_CallSites G))) M1)"

subsection \<open>Solving\<close>

text \<open>What the code reads of HiGHS after \<open>run\<close>: the model status, its name, the objective value
  and the value of each column.\<close>

record HighsAnswer =
  kOptimal :: bool
  modelStatusToString :: string
  getObjectiveValue :: rat
  col_value :: "rat list"

record AbstractILPResult =
  WCET :: rat
  WorstCasePath :: "nat list"
  ExecutionCounts :: "(nat \<times> rat) list"
  ilp_Status :: string

fun executionCounts :: "rat list \<Rightarrow> NodeColMap \<Rightarrow> (nat \<times> rat) list \<Rightarrow> (nat \<times> rat) list" where
  "executionCounts ColValue [] Counts = Counts"
| "executionCounts ColValue ((U, c) # Cs) Counts =
     executionCounts ColValue Cs
       (if c < length ColValue \<and> ColValue ! c > 1 / 10000 then omap_put U (ColValue ! c) Counts else Counts)"

definition solveWCET :: "(HighsModel \<Rightarrow> HighsAnswer) \<Rightarrow> 's AbstractStateGraph \<Rightarrow> AbstractILPResult" where
  "solveWCET highs G =
     (let Result = \<lparr>WCET = 0, WorstCasePath = [], ExecutionCounts = [], ilp_Status = []\<rparr>;
          A = highs (wcetModel G)
      in if kOptimal A
         then Result\<lparr>WCET := getObjectiveValue A,
                ExecutionCounts := executionCounts (col_value A) (fst (buildColumns G)) []\<rparr>
         else Result\<lparr>ilp_Status := modelStatusToString A\<rparr>)"

subsection \<open>Feasible points\<close>

text \<open>A point gives each column a value: within the bounds of the column, within every row, and an
  integer where the column is one.\<close>

definition row_value :: "(nat \<Rightarrow> 'a) \<Rightarrow> (nat \<times> int) list \<Rightarrow> 'a :: linordered_idom" where
  "row_value x cs = (\<Sum>(c, v) \<leftarrow> cs. of_int v * x c)"

definition row_holds :: "(nat \<Rightarrow> 'a :: linordered_idom) \<Rightarrow> Row \<Rightarrow> bool" where
  "row_holds x R \<longleftrightarrow>
     of_int (row_lower R) \<le> row_value x (row_coeffs R) \<and>
     (case row_upper R of Some u \<Rightarrow> row_value x (row_coeffs R) \<le> of_int u | None \<Rightarrow> True)"

definition feasible :: "HighsModel \<Rightarrow> (nat \<Rightarrow> rat) \<Rightarrow> bool" where
  "feasible M x \<longleftrightarrow>
     (\<forall>c < num_col M. of_int (col_lower M ! c) \<le> x c \<and>
        (case col_upper M ! c of Some u \<Rightarrow> x c \<le> of_int u | None \<Rightarrow> True) \<and>
        (integrality M ! c = kInteger \<longrightarrow> x c \<in> \<int>)) \<and>
     list_all (row_holds x) (hm_rows M)"

definition objective :: "HighsModel \<Rightarrow> (nat \<Rightarrow> 'a) \<Rightarrow> 'a :: linordered_idom" where
  "objective M x = (\<Sum>c < num_col M. of_int (col_cost M ! c) * x c)"

text \<open>What an answer called optimal is worth: no feasible point is better, in the direction the model
  asks for, than the objective value by more than an error \<open>e\<close>. The attained value is that of some
  feasible point, up to the same error.\<close>

definition mip_optimal :: "rat \<Rightarrow> HighsModel \<Rightarrow> HighsAnswer \<Rightarrow> bool" where
  "mip_optimal e M A \<longleftrightarrow> kOptimal A \<and>
     (\<forall>x. feasible M x \<longrightarrow>
        (case sense M of kMaximize \<Rightarrow> objective M x \<le> getObjectiveValue A + e
         | kMinimize \<Rightarrow> getObjectiveValue A - e \<le> objective M x))"

definition mip_attained :: "rat \<Rightarrow> HighsModel \<Rightarrow> HighsAnswer \<Rightarrow> bool" where
  "mip_attained e M A \<longleftrightarrow> (\<exists>x. feasible M x \<and> \<bar>getObjectiveValue A - objective M x\<bar> \<le> e)"

lemma mip_optimal_mono: "mip_optimal e M A \<Longrightarrow> e \<le> e' \<Longrightarrow> mip_optimal e' M A"
  by (fastforce simp: mip_optimal_def split: ObjSense.splits)

subsection \<open>Integer points\<close>

lemma row_value_of_int: "row_value (\<lambda>c. of_int (x c)) cs = of_int (row_value x cs)"
  by (induction cs) (auto simp: row_value_def)

lemma row_holds_of_int [simp]: "row_holds (\<lambda>c. of_int (x c)) = row_holds x"
  by (simp add: fun_eq_iff row_holds_def row_value_of_int split: option.split)

lemma objective_of_int: "objective M (\<lambda>c. of_int (x c)) = of_int (objective M x)"
  by (simp add: objective_def)

lemma nodeColumns_sense:
  "nodeColumns Ns (NC, M) = (NC', M') \<Longrightarrow> sense M' = sense M \<and> integrality M' = integrality M"
  by (induction Ns "(NC, M)" arbitrary: NC M rule: nodeColumns.induct) (auto simp: addCol_def)

lemma edgeColumnsOf_sense:
  "edgeColumnsOf U Es (EC, M) = (EC', M') \<Longrightarrow> sense M' = sense M \<and> integrality M' = integrality M"
  by (induction U Es "(EC, M)" arbitrary: EC M rule: edgeColumnsOf.induct) (auto simp: addCol_def)

lemma edgeColumns_sense:
  "edgeColumns G Ns (EC, M) = (EC', M') \<Longrightarrow> sense M' = sense M \<and> integrality M' = integrality M"
proof (induction G Ns "(EC, M)" arbitrary: EC M rule: edgeColumns.induct)
  case (2 G U Node Ns)
  obtain EC1 M1 where "edgeColumnsOf U (asg_getSuccessors G U) (EC, M) = (EC1, M1)" by force
  then show ?case using 2 edgeColumnsOf_sense by (metis edgeColumns.simps(2))
qed simp

lemma fold_addRow [simp]: "fold addRow Rs M = M\<lparr>hm_rows := hm_rows M @ Rs\<rparr>"
  by (induction Rs arbitrary: M) (simp_all add: addRow_def)

text \<open>The model is a maximisation and all its columns are integers.\<close>

lemma wcetModel_sense: "sense (wcetModel G) = kMaximize"
  and wcetModel_integers: "integrality (wcetModel G) = replicate (num_col (wcetModel G)) kInteger"
proof -
  obtain NC M where n: "nodeColumns (asg_Nodes G) ([], emptyModel\<lparr>sense := kMaximize\<rparr>) = (NC, M)" by force
  obtain EC M' where e: "edgeColumns G (asg_Nodes G) (\<lambda>_. None, M) = (EC, M')" by force
  have "sense M' = kMaximize" using nodeColumns_sense [OF n] edgeColumns_sense [OF e] by simp
  then show "sense (wcetModel G) = kMaximize"
    "integrality (wcetModel G) = replicate (num_col (wcetModel G)) kInteger"
    by (simp_all add: wcetModel_def buildColumns_def n e)
qed

lemma mip_optimalD:
  "mip_optimal e (wcetModel G) (highs (wcetModel G)) \<Longrightarrow> feasible (wcetModel G) x \<Longrightarrow>
   objective (wcetModel G) x \<le> WCET (solveWCET highs G) + e"
  by (simp add: mip_optimal_def solveWCET_def Let_def wcetModel_sense)

text \<open>So the objective of a feasible point is an integer.\<close>

lemma feasible_integer:
  assumes "feasible (wcetModel G) x"
  shows "\<exists>n. objective (wcetModel G) x = of_int n"
proof -
  have "x c \<in> \<int>" if "c < num_col (wcetModel G)" for c
    using assms that by (simp add: feasible_def wcetModel_integers)
  then have "objective (wcetModel G) x \<in> \<int>" unfolding objective_def by (intro Ints_sum Ints_mult) auto
  then show ?thesis by (auto elim: Ints_cases)
qed

end
