(* ===== verification/ILPPaths.thy ===== *)
theory ILPPaths
  imports ILPModel
begin

text \<open>
  The executions the integer program bounds, as paths of the graph: from the entry to an exit,
  within the loop bounds, every return to the site of the last pending call. The counts of such
  a path satisfy every row, so the optimum is at least its cost.
\<close>

subsection \<open>Paths\<close>

definition steps :: "nat list \<Rightarrow> (nat \<times> nat) list" where
  "steps p = zip p (tl p)"

definition is_path :: "'s AbstractStateGraph \<Rightarrow> nat list \<Rightarrow> bool" where
  "is_path G p \<longleftrightarrow> p \<noteq> [] \<and> list_all (\<lambda>u. asg_getNode G u \<noteq> None) p \<and>
     list_all (\<lambda>(a, b). asg_edge G a b) (steps p)"

definition node_holds :: "('s ASGNode \<Rightarrow> bool) \<Rightarrow> 's AbstractStateGraph \<Rightarrow> nat \<Rightarrow> bool" where
  "node_holds P G u \<longleftrightarrow> (case asg_getNode G u of Some N \<Rightarrow> P N | None \<Rightarrow> False)"

text \<open>One node is marked as the entry, and nothing leads to it.\<close>

definition single_entry :: "'s AbstractStateGraph \<Rightarrow> bool" where
  "single_entry G \<longleftrightarrow>
     (case filter (\<lambda>(u, N). IsEntry N) (asg_Nodes G) of
        [(e, N)] \<Rightarrow> asg_getPredecessors G e = [] | _ \<Rightarrow> False)"

text \<open>How often a loop is repeated: entering the header through an edge that is not a back edge
  grants \<open>B\<close> executions of it, each back edge uses one.\<close>

fun within_bound :: "(nat \<Rightarrow> bool) \<Rightarrow> nat \<Rightarrow> nat \<Rightarrow> nat \<Rightarrow> (nat \<times> nat) list \<Rightarrow> bool" where
  "within_bound bk h B r [] \<longleftrightarrow> True"
| "within_bound bk h B r ((a, b) # es) \<longleftrightarrow>
     (if b \<noteq> h then within_bound bk h B r es
      else if bk a then r > 0 \<and> within_bound bk h B (r - 1) es
      else within_bound bk h B (B - 1) es)"

definition loops_bounded :: "'s AbstractStateGraph \<Rightarrow> nat list \<Rightarrow> bool" where
  "loops_bounded G p \<longleftrightarrow>
     list_all (\<lambda>(h, N). (if IsLoopHeader N \<and> asg_UpperLoopBound N > 0
        then within_bound (isBackInto G h) h (unat (asg_UpperLoopBound N)) 0 (steps p) else True))
       (asg_Nodes G)"

definition callEdges :: "'s AbstractStateGraph \<Rightarrow> ASGCallSite \<Rightarrow> (nat \<times> nat) list" where
  "callEdges G CS =
     (case map_of (FunctionEntries G) (asg_Callee CS) of
        Some Entry \<Rightarrow> [(CallNodeId CS, Entry)] | None \<Rightarrow> [])"

definition returnEdges :: "'s AbstractStateGraph \<Rightarrow> ASGCallSite \<Rightarrow> (nat \<times> nat) list" where
  "returnEdges G CS =
     map (\<lambda>R. (R, ReturnNodeId CS)) (omap_get [] (FunctionReturns G) (asg_Callee CS))"

definition sites_separate :: "'s AbstractStateGraph \<Rightarrow> bool" where
  "sites_separate G \<longleftrightarrow>
     distinct (concat (map (\<lambda>CS. callEdges G CS @ returnEdges G CS) (asg_CallSites G)))"

text \<open>Running along the edges with the stack of the calls that are pending.\<close>

fun matched ::
  "('c \<Rightarrow> (nat \<times> nat) list) \<Rightarrow> ('c \<Rightarrow> (nat \<times> nat) list) \<Rightarrow> 'c list \<Rightarrow> 'c list \<Rightarrow> (nat \<times> nat) list
   \<Rightarrow> 'c list option" where
  "matched ce re Cs stk [] = Some stk"
| "matched ce re Cs stk (e # es) =
     (case List.find (\<lambda>CS. e \<in> set (ce CS)) Cs of
        Some CS \<Rightarrow> matched ce re Cs (CS # stk) es
      | None \<Rightarrow>
          if list_ex (\<lambda>CS. e \<in> set (re CS)) Cs
          then (case stk of
                  CS # stk' \<Rightarrow> if e \<in> set (re CS) then matched ce re Cs stk' es else None
                | [] \<Rightarrow> None)
          else matched ce re Cs stk es)"

abbreviation call_run ::
  "'s AbstractStateGraph \<Rightarrow> ASGCallSite list \<Rightarrow> (nat \<times> nat) list \<Rightarrow> ASGCallSite list option" where
  "call_run G \<equiv> matched (callEdges G) (returnEdges G) (asg_CallSites G)"

definition can_return :: "'s AbstractStateGraph \<Rightarrow> ASGCallSite \<Rightarrow> bool" where
  "can_return G CS \<longleftrightarrow> list_ex (\<lambda>(a, b). asg_getNode G a \<noteq> None \<and> asg_edge G a b) (returnEdges G CS)"

definition calls_matched :: "'s AbstractStateGraph \<Rightarrow> nat list \<Rightarrow> bool" where
  "calls_matched G p \<longleftrightarrow>
     (case call_run G [] (steps p) of
        Some stk \<Rightarrow> list_all (\<lambda>CS. \<not> can_return G CS) stk | None \<Rightarrow> False)"

definition execution :: "'s AbstractStateGraph \<Rightarrow> nat list \<Rightarrow> bool" where
  "execution G p \<longleftrightarrow>
     is_path G p \<and> node_holds IsEntry G (hd p) \<and> node_holds IsExit G (last p) \<and>
     loops_bounded G p \<and> calls_matched G p"

definition path_cost :: "'s AbstractStateGraph \<Rightarrow> nat list \<Rightarrow> int" where
  "path_cost G p =
     (\<Sum>u \<leftarrow> p. case asg_getNode G u of Some N \<Rightarrow> uint (Cost N) | None \<Rightarrow> 0)"

subsection \<open>Counting along a path\<close>

lemma steps_simps [simp]:
  "map snd (steps p) = tl p" "map fst (steps p) = butlast p"
proof -
  show "map fst (steps p) = butlast p"
    unfolding steps_def
  proof (induction p)
    case (Cons a p)
    then show ?case by (cases p) auto
  qed simp
qed (cases p; simp add: steps_def map_snd_zip_take)

lemma length_filter_map: "length (filter P (map f xs)) = length (filter (P \<circ> f) xs)"
  by (simp add: filter_map)

lemma count_as_filter: "count_list xs a = length (filter (\<lambda>x. x = a) xs)"
  by (induction xs) auto

lemma count_into: "length (filter (\<lambda>e. snd e = b) (steps p)) = count_list (tl p) b"
  using length_filter_map [of "\<lambda>x. x = b" snd "steps p"] by (simp add: count_as_filter comp_def)

lemma count_out: "length (filter (\<lambda>e. fst e = a) (steps p)) = count_list (butlast p) a"
  using length_filter_map [of "\<lambda>x. x = a" fst "steps p"] by (simp add: count_as_filter comp_def)

lemma count_tl: "p \<noteq> [] \<Longrightarrow> hd p \<noteq> b \<Longrightarrow> count_list (tl p) b = count_list p b"
  by (cases p) auto

lemma count_butlast: "p \<noteq> [] \<Longrightarrow> last p \<noteq> a \<Longrightarrow> count_list (butlast p) a = count_list p a"
  by (induction p) auto

lemma sum_counts:
  assumes "distinct as" "inj_on f (set as)"
  shows "(\<Sum>a \<leftarrow> as. count_list es (f a)) = length (filter (\<lambda>e. e \<in> f ` set as) es)"
  using assms
proof (induction as)
  case (Cons a as)
  have "f a \<notin> f ` set as" using Cons.prems by auto
  then have "length (filter (\<lambda>e. e = f a \<or> e \<in> f ` set as) es) =
      count_list es (f a) + length (filter (\<lambda>e. e \<in> f ` set as) es)"
    by (induction es) auto
  then show ?case using Cons by simp
qed simp

lemma within_bound_count:
  "within_bound bk h B r es \<Longrightarrow>
   int (length (filter (\<lambda>e. snd e = h \<and> bk (fst e)) es)) \<le>
     int (B - 1) * int (length (filter (\<lambda>e. snd e = h \<and> \<not> bk (fst e)) es)) + int r"
proof (induction bk h B r es rule: within_bound.induct)
  case (2 bk h B r a b es)
  then show ?case by (auto simp: distrib_left split: if_splits)
qed simp

lemma count_split:
  "length (filter (\<lambda>e. snd e = h) es) =
   length (filter (\<lambda>e. snd e = h \<and> Q e) es) + length (filter (\<lambda>e. snd e = h \<and> \<not> Q e) es)"
  by (induction es) auto

subsection \<open>What the columns stand for\<close>

type_synonym col = "nat + nat \<times> nat"

definition col_count :: "nat list \<Rightarrow> col \<Rightarrow> int" where
  "col_count p c = (case c of Inl u \<Rightarrow> int (count_list p u) | Inr e \<Rightarrow> int (count_list (steps p) e))"

definition indexes :: "col list \<Rightarrow> ('k \<Rightarrow> col) \<Rightarrow> ('k \<rightharpoonup> nat) \<Rightarrow> bool" where
  "indexes cs tag m \<longleftrightarrow> (\<forall>k c. m k = Some c \<longrightarrow> c < length cs \<and> cs ! c = tag k)"

text \<open>\<open>costs\<close> of the columns \<open>cs\<close>, their number and bounds; no row yet.\<close>

definition columns :: "col list \<Rightarrow> int list \<Rightarrow> HighsModel \<Rightarrow> bool" where
  "columns cs ws M \<longleftrightarrow> length cs = num_col M \<and> length ws = num_col M \<and> col_cost M = ws \<and>
     col_lower M = replicate (num_col M) 0 \<and> col_upper M = replicate (num_col M) None \<and> hm_rows M = []"

lemma columns_addCol: "columns cs ws M \<Longrightarrow> columns (cs @ [c]) (ws @ [w]) (addCol w M)"
  by (simp add: columns_def addCol_def replicate_append_same)

lemma indexes_snoc: "indexes cs tag m \<Longrightarrow> indexes (cs @ [c]) tag m"
  by (fastforce simp: indexes_def nth_append)

lemma indexes_update:
  "indexes cs tag m \<Longrightarrow> length cs = n \<Longrightarrow> indexes (cs @ [tag k]) tag (m(k \<mapsto> n))"
  by (fastforce simp: indexes_def nth_append)

lemma nodeColumns_spec:
  assumes "nodeColumns Ns (NC, M) = (NC', M')" "columns cs ws M" "indexes cs Inl (map_of NC)"
  shows "columns (cs @ map (Inl \<circ> fst) Ns) (ws @ map (\<lambda>P. uint (Cost (snd P))) Ns) M' \<and>
    indexes (cs @ map (Inl \<circ> fst) Ns) Inl (map_of NC') \<and>
    dom (map_of NC') = dom (map_of NC) \<union> fst ` set Ns"
  using assms
proof (induction Ns arbitrary: NC M cs ws)
  case (Cons P Ns)
  obtain U N where P: "P = (U, N)" by force
  have l: "length cs = num_col M" using Cons.prems by (simp add: columns_def)
  from Cons.IH [of "omap_put U (num_col M) NC" "addCol (uint (Cost N)) M" "cs @ [Inl U]"
      "ws @ [uint (Cost N)]"] Cons.prems
  show ?case using indexes_update [OF Cons.prems(3) l, of U]
    by (auto simp: P columns_addCol comp_def fun_upd_def simp del: fun_upd_apply)
qed simp

definition edgeList :: "'s AbstractStateGraph \<Rightarrow> (nat \<times> 's ASGNode) list \<Rightarrow> (nat \<times> nat) list" where
  "edgeList G Ns = concat (map (\<lambda>(U, N). map (\<lambda>E. (U, fst E)) (asg_getSuccessors G U)) Ns)"

lemma edgeColumnsOf_spec:
  assumes "edgeColumnsOf U Es (EC, M) = (EC', M')" "columns cs ws M" "indexes cs Inr EC"
  shows "columns (cs @ map (\<lambda>E. Inr (U, fst E)) Es) (ws @ map (\<lambda>_. 0) Es) M' \<and>
    indexes (cs @ map (\<lambda>E. Inr (U, fst E)) Es) Inr EC' \<and>
    dom EC' = dom EC \<union> (\<lambda>E. (U, fst E)) ` set Es"
  using assms
proof (induction Es arbitrary: EC M cs ws)
  case (Cons E Es)
  obtain V b where E: "E = (V, b)" by force
  have l: "length cs = num_col M" using Cons.prems by (simp add: columns_def)
  from Cons.IH [of "EC((U, V) \<mapsto> num_col M)" "addCol 0 M" "cs @ [Inr (U, V)]" "ws @ [0]"] Cons.prems
  show ?case using indexes_update [OF Cons.prems(3) l, of "(U, V)"]
    by (auto simp: E columns_addCol comp_def fun_upd_def simp del: fun_upd_apply)
qed simp

lemma edgeColumns_spec:
  assumes "edgeColumns G Ns (EC, M) = (EC', M')" "columns cs ws M" "indexes cs Inr EC"
  shows "columns (cs @ map Inr (edgeList G Ns)) (ws @ map (\<lambda>_. 0) (edgeList G Ns)) M' \<and>
    indexes (cs @ map Inr (edgeList G Ns)) Inr EC' \<and> dom EC' = dom EC \<union> set (edgeList G Ns)"
  using assms
proof (induction Ns arbitrary: EC M cs ws)
  case (Cons P Ns)
  obtain U N where P: "P = (U, N)" by force
  let ?Es = "asg_getSuccessors G U"
  obtain EC1 M1 where 1: "edgeColumnsOf U ?Es (EC, M) = (EC1, M1)" by force
  note s = edgeColumnsOf_spec [OF 1 Cons.prems(2,3)]
  from Cons.IH [of EC1 M1 "cs @ map (\<lambda>E. Inr (U, fst E)) ?Es" "ws @ map (\<lambda>_. 0) ?Es"] s Cons.prems(1)
  show ?case by (auto simp: P 1 edgeList_def comp_def)
qed (simp add: edgeList_def)

definition allCols :: "'s AbstractStateGraph \<Rightarrow> col list" where
  "allCols G = map (Inl \<circ> fst) (asg_Nodes G) @ map Inr (edgeList G (asg_Nodes G))"

lemma buildColumns_spec:
  assumes "buildColumns G = (NC, EC, M)"
  shows "columns (allCols G)
      (map (\<lambda>P. uint (Cost (snd P))) (asg_Nodes G) @ map (\<lambda>_. 0) (edgeList G (asg_Nodes G))) M"
    "indexes (allCols G) Inl (map_of NC)" "indexes (allCols G) Inr EC"
    "dom (map_of NC) = fst ` set (asg_Nodes G)" "dom EC = set (edgeList G (asg_Nodes G))"
proof -
  obtain M1 M2 where 1: "nodeColumns (asg_Nodes G) ([], emptyModel\<lparr>sense := kMaximize\<rparr>) = (NC, M1)"
    and 2: "edgeColumns G (asg_Nodes G) (\<lambda>_. None, M1) = (EC, M2)"
    and M: "M = M2\<lparr>integrality := replicate (num_col M2) kInteger\<rparr>"
    using assms by (auto simp: buildColumns_def Let_def split: prod.splits)
  have c: "columns [] [] (emptyModel\<lparr>sense := kMaximize\<rparr>)" by (simp add: columns_def emptyModel_def)
  have i: "indexes cs tag (\<lambda>_. None)" for cs and tag :: "'k \<Rightarrow> col" by (simp add: indexes_def)
  note n = nodeColumns_spec [OF 1 c, simplified, OF i]
  note e = edgeColumns_spec [OF 2 conjunct1 [OF n] i]
  show "columns (allCols G)
      (map (\<lambda>P. uint (Cost (snd P))) (asg_Nodes G) @ map (\<lambda>_. 0) (edgeList G (asg_Nodes G))) M"
    "indexes (allCols G) Inr EC" "dom (map_of NC) = fst ` set (asg_Nodes G)"
    "dom EC = set (edgeList G (asg_Nodes G))"
    using n e by (simp_all add: allCols_def M columns_def)
  show "indexes (allCols G) Inl (map_of NC)"
    using n by (fastforce simp: indexes_def allCols_def nth_append)
qed

subsection \<open>The counts of an execution satisfy every row\<close>

definition counts :: "'s AbstractStateGraph \<Rightarrow> nat list \<Rightarrow> nat \<Rightarrow> int" where
  "counts G p c = col_count p (allCols G ! c)"

lemma set_steps: "(a, b) \<in> set (steps p) \<Longrightarrow> a \<in> set p \<and> b \<in> set p"
  unfolding steps_def using set_zip_leftD set_zip_rightD by (metis list.sel(2) list.set_sel(2))

lemma steps_in_edgeList:
  assumes "is_path G p" shows "set (steps p) \<subseteq> set (edgeList G (asg_Nodes G))"
proof
  fix e assume e: "e \<in> set (steps p)"
  obtain a b where ab: "e = (a, b)" by force
  have "asg_edge G a b" "asg_getNode G a \<noteq> None"
    using assms e set_steps [of a b p] by (auto simp: is_path_def list_all_iff ab)
  then obtain N where "(a, N) \<in> set (asg_Nodes G)" "b \<in> fst ` set (asg_getSuccessors G a)"
    by (auto simp: asg_getNode_def asg_edge_def dest: map_of_SomeD)
  then show "e \<in> set (edgeList G (asg_Nodes G))" by (force simp: ab edgeList_def)
qed

lemma row_value_simps [simp]:
  "row_value x [] = 0" "row_value x (q # cs) = of_int (snd q) * x (fst q) + row_value x cs"
  "row_value x (cs @ ds) = row_value x cs + row_value x ds"
  by (auto simp: row_value_def split_beta)

lemma concat_if_filter:
  "concat (map (\<lambda>a. if P a then g a else []) xs) = concat (map g (filter P xs))"
  by (induction xs) auto

lemma pred_bound:
  assumes "(B :: u32) > 0"
  shows "uint (B - 1) = uint B - 1 \<and> uint B \<ge> 1 \<and> int (unat B - 1) = uint B - 1"
proof -
  have n: "unat B \<ge> 1" using assms by (simp add: word_less_nat_alt)
  then have "1 \<le> B" by (simp add: word_le_nat_alt)
  then have "uint (B - 1) = uint B - 1" using uint_minus_simple_alt [of 1 B] by simp
  moreover have "int (unat B) = uint B" by simp
  ultimately show ?thesis using n by linarith
qed

text \<open>A path of a well-formed graph, with the columns built for the graph.\<close>

definition path_cols :: "'s AbstractStateGraph \<Rightarrow> nat list \<Rightarrow> NodeColMap \<Rightarrow> EdgeColMap \<Rightarrow> bool" where
  "path_cols G p NC EC \<longleftrightarrow> (\<exists>M. buildColumns G = (NC, EC, M)) \<and> is_path G p \<and> asg_wf G"

lemma path_colsD:
  assumes "path_cols G p NC EC"
  shows "is_path G p" "asg_wf G" "indexes (allCols G) Inl (map_of NC)" "indexes (allCols G) Inr EC"
    "dom (map_of NC) = fst ` set (asg_Nodes G)" "dom EC = set (edgeList G (asg_Nodes G))" "p \<noteq> []"
    "(a, b) \<in> set (steps p) \<Longrightarrow> asg_edge G a b"
proof -
  obtain M where M: "buildColumns G = (NC, EC, M)" using assms by (auto simp: path_cols_def)
  show "indexes (allCols G) Inl (map_of NC)" "indexes (allCols G) Inr EC"
    "dom (map_of NC) = fst ` set (asg_Nodes G)" "dom EC = set (edgeList G (asg_Nodes G))"
    by (fact buildColumns_spec [OF M])+
  show "is_path G p" "asg_wf G" "p \<noteq> []" "(a, b) \<in> set (steps p) \<Longrightarrow> asg_edge G a b"
    using assms by (auto simp: path_cols_def is_path_def list_all_iff)
qed

lemma node_value:
  assumes pc: "path_cols G p NC EC" and u: "asg_getNode G u \<noteq> None"
  shows "counts G p (omap_get 0 NC u) = int (count_list p u)"
proof -
  have "u \<in> dom (map_of NC)"
    using path_colsD(5) [OF pc] u by (force simp: asg_getNode_def dest: map_of_SomeD)
  then obtain c where c: "map_of NC u = Some c" by blast
  then have "allCols G ! c = Inl u" using path_colsD(3) [OF pc] by (simp add: indexes_def)
  then show ?thesis by (simp add: c omap_get_def counts_def col_count_def)
qed

lemma edge_value:
  assumes pc: "path_cols G p NC EC"
  shows "row_value (counts G p) (case EC e of Some c \<Rightarrow> [(c, v)] | None \<Rightarrow> []) =
   v * int (count_list (steps p) e)"
proof (cases "EC e")
  case None
  then have "e \<notin> set (edgeList G (asg_Nodes G))" using path_colsD(6) [OF pc] by blast
  then have "count_list (steps p) e = 0" using steps_in_edgeList [OF path_colsD(1) [OF pc]] by (auto simp: count_list_0_iff)
  then show ?thesis using None by simp
next
  case (Some c)
  then have "allCols G ! c = Inr e" using path_colsD(4) [OF pc] by (simp only: indexes_def)
  then show ?thesis using Some by (simp add: counts_def col_count_def)
qed

lemma edges_value:
  assumes pc: "path_cols G p NC EC" and d: "distinct as" "inj_on f (set as)"
  shows "row_value (counts G p) (concat (map (\<lambda>a. case EC (f a) of Some c \<Rightarrow> [(c, v)] | None \<Rightarrow> []) as)) =
    v * int (length (filter (\<lambda>e. e \<in> f ` set as) (steps p)))"
proof -
  have "row_value (counts G p) (concat (map (\<lambda>a. case EC (f a) of Some c \<Rightarrow> [(c, v)] | None \<Rightarrow> []) as)) =
      v * int (\<Sum>a \<leftarrow> as. count_list (steps p) (f a))"
    by (induction as) (simp_all add: edge_value [OF pc] distrib_left)
  then show ?thesis using sum_counts [OF d] by simp
qed

lemma flow_in:
  assumes pc: "path_cols G p NC EC" and u: "asg_getNode G u \<noteq> None" "hd p \<noteq> u"
  shows "row_holds (counts G p) (flowInRow G NC EC u)"
proof -
  have d: "distinct (asg_getPredecessors G u)" using path_colsD(2) [OF pc] by (auto simp: asg_wf_def oset_ok_def)
  have "filter (\<lambda>e. e \<in> (\<lambda>a. (a, u)) ` set (asg_getPredecessors G u)) (steps p) =
      filter (\<lambda>e. snd e = u) (steps p)"
    using path_colsD(8) [OF pc] path_colsD(2) [OF pc] by (intro filter_cong) (auto simp: asg_wf_def image_iff)
  then show ?thesis
    using edges_value [OF pc d, of "\<lambda>a. (a, u)" "- 1"] u count_tl [OF path_colsD(7) [OF pc] u(2)]
    by (simp add: row_holds_def flowInRow_def node_value [OF pc] count_into inj_on_def)
qed

lemma flow_out:
  assumes pc: "path_cols G p NC EC" and u: "asg_getNode G u \<noteq> None" "last p \<noteq> u"
  shows "row_holds (counts G p) (flowOutRow G NC EC u)"
proof -
  have d: "distinct (asg_getSuccessors G u)" "inj_on (\<lambda>e. (u, fst e)) (set (asg_getSuccessors G u))"
    using path_colsD(2) [OF pc] omap_ok_distinct [of "asg_getSuccessors G u"]
    by (auto simp: asg_wf_def distinct_map inj_on_def)
  have "filter (\<lambda>e. e \<in> (\<lambda>e. (u, fst e)) ` set (asg_getSuccessors G u)) (steps p) =
      filter (\<lambda>e. fst e = u) (steps p)"
    using path_colsD(8) [OF pc] by (intro filter_cong) (force simp: asg_edge_def)+
  then show ?thesis
    using edges_value [OF pc d, of "- 1"] u count_butlast [OF path_colsD(7) [OF pc] u(2)]
    by (simp add: row_holds_def flowOutRow_def node_value [OF pc] count_out)
qed

lemma loop_row:
  assumes pc: "path_cols G p NC EC" and h: "asg_getNode G h \<noteq> None" "hd p \<noteq> h \<or> asg_getPredecessors G h = []" "B > 0"
    and within: "within_bound (isBackInto G h) h (unat B) 0 (steps p)"
  shows "row_holds (counts G p) (loopRow G NC EC h B)"
proof -
  let ?Q = "isBackInto G h"
  let ?K = "length (filter (\<lambda>e. snd e = h \<and> ?Q (fst e)) (steps p))"
  let ?E = "length (filter (\<lambda>e. snd e = h \<and> \<not> ?Q (fst e)) (steps p))"
  let ?Ps = "filter ?Q (asg_getPredecessors G h)"
  have d: "distinct ?Ps" using path_colsD(2) [OF pc] by (auto simp: asg_wf_def oset_ok_def)
  have K: "filter (\<lambda>e. e \<in> (\<lambda>a. (a, h)) ` set ?Ps) (steps p) =
      filter (\<lambda>e. snd e = h \<and> ?Q (fst e)) (steps p)"
    using path_colsD(8) [OF pc] path_colsD(2) [OF pc] by (intro filter_cong) (auto simp: asg_wf_def image_iff)
  note B = pred_bound [OF h(3)]
  have x: "int (count_list p h) = (if hd p = h then 1 else 0) + int (?K + ?E)"
    using count_split [of h "steps p" "\<lambda>e. ?Q (fst e)"] path_colsD(7) [OF pc] by (cases p) (auto simp: count_into)
  have k: "int ?K \<le> (uint B - 1) * int ?E" using within_bound_count [OF within] B by simp
  have "0 \<le> (uint B - 1) * int (count_list p h) - uint B * int ?K"
  proof (cases "hd p = h")
    case True
    then have "filter (\<lambda>e. snd e = h \<and> ?Q (fst e)) (steps p) = []"
      using h(2) path_colsD(8) [OF pc] path_colsD(2) [OF pc] by (fastforce simp: filter_empty_conv asg_wf_def)
    then show ?thesis using B by simp
  next
    case False
    then have "(uint B - 1) * int (count_list p h) - uint B * int ?K = (uint B - 1) * int ?E - int ?K"
      using x by (simp add: algebra_simps)
    then show ?thesis using k by simp
  qed
  then show ?thesis
    using edges_value [OF pc d, of "\<lambda>a. (a, h)" "- uint B"] h
    by (simp add: row_holds_def loopRow_def node_value [OF pc] concat_if_filter K [simplified] B inj_on_def)
qed

subsection \<open>Calls and returns\<close>

lemma distinct_concat_same:
  "distinct (concat (map f xs)) \<Longrightarrow> x \<in> set xs \<Longrightarrow> y \<in> set xs \<Longrightarrow> e \<in> set (f x) \<Longrightarrow>
   e \<in> set (f y) \<Longrightarrow> x = y"
  by (induction xs) auto

lemma separate_edges:
  assumes "sites_separate G" "CS \<in> set (asg_CallSites G)"
  shows "CS' \<in> set (asg_CallSites G) \<Longrightarrow> e \<in> set (callEdges G CS) \<union> set (returnEdges G CS) \<Longrightarrow>
      e \<in> set (callEdges G CS') \<union> set (returnEdges G CS') \<Longrightarrow> CS = CS'"
    "e \<in> set (callEdges G CS) \<Longrightarrow> e \<notin> set (returnEdges G CS)"
    "distinct (returnEdges G CS)"
proof -
  let ?f = "\<lambda>CS. callEdges G CS @ returnEdges G CS"
  have d: "distinct (concat (map ?f (asg_CallSites G)))"
    using assms(1) by (simp add: sites_separate_def)
  have "distinct (?f CS)" using d assms(2) unfolding distinct_concat_iff by (simp del: distinct_append)
  then show "e \<in> set (callEdges G CS) \<Longrightarrow> e \<notin> set (returnEdges G CS)"
    "distinct (returnEdges G CS)" by auto
  show "CS' \<in> set (asg_CallSites G) \<Longrightarrow> e \<in> set (callEdges G CS) \<union> set (returnEdges G CS) \<Longrightarrow>
      e \<in> set (callEdges G CS') \<union> set (returnEdges G CS') \<Longrightarrow> CS = CS'"
    using distinct_concat_same [OF d assms(2), of CS' e] by simp
qed

definition taken :: "(nat \<times> nat) list \<Rightarrow> (nat \<times> nat) list \<Rightarrow> nat" where
  "taken E es = length (filter (\<lambda>e. e \<in> set E) es)"

lemma taken_simps [simp]:
  "taken E [] = 0" "taken E (e # es) = (if e \<in> set E then 1 else 0) + taken E es"
  by (simp_all add: taken_def)

lemma call_run_balance:
  assumes "sites_separate G" "CS \<in> set (asg_CallSites G)"
  shows "call_run G stk es = Some stk' \<Longrightarrow> set stk \<subseteq> set (asg_CallSites G) \<Longrightarrow>
    taken (callEdges G CS) es + count_list stk CS = taken (returnEdges G CS) es + count_list stk' CS"
proof (induction es arbitrary: stk)
  case (Cons e es)
  note sep = separate_edges [OF assms(1)]
  show ?case
  proof (cases "List.find (\<lambda>CS. e \<in> set (callEdges G CS)) (asg_CallSites G)")
    case (Some C)
    then have C: "C \<in> set (asg_CallSites G)" "e \<in> set (callEdges G C)"
      by (auto simp: find_Some_iff)
    have "e \<in> set (callEdges G CS) \<longleftrightarrow> C = CS" "e \<notin> set (returnEdges G CS)"
      using sep(1) [OF C(1) assms(2), of e] sep(2) [OF C(1), of e] C by auto
    then show ?thesis using Cons.IH [of "C # stk"] Cons.prems C Some by auto
  next
    case None
    then have n: "e \<notin> set (callEdges G C)" if "C \<in> set (asg_CallSites G)" for C
      using that by (auto simp: find_None_iff)
    show ?thesis
    proof (cases "list_ex (\<lambda>CS. e \<in> set (returnEdges G CS)) (asg_CallSites G)")
      case True
      then obtain C stk1 where C: "stk = C # stk1" "e \<in> set (returnEdges G C)" "call_run G stk1 es = Some stk'"
        using Cons.prems(1) None by (auto split: list.splits if_splits)
      then have "e \<in> set (returnEdges G CS) \<longleftrightarrow> C = CS"
        using sep(1) [OF _ assms(2), of C e] Cons.prems(2) by auto
      then show ?thesis using Cons.IH [of stk1] Cons.prems C n [OF assms(2)] by auto
    next
      case False
      then have "e \<notin> set (returnEdges G CS)" using assms(2) by (auto simp: list_ex_iff)
      then show ?thesis using Cons.IH [of stk] Cons.prems None False n [OF assms(2)] by simp
    qed
  qed
qed simp

lemma call_rows:
  assumes pc: "path_cols G p NC EC" and sep: "sites_separate G" and CS: "CS \<in> set (asg_CallSites G)"
    and m: "calls_matched G p"
  shows "list_all (row_holds (counts G p)) (callRow G EC CS)"
proof (cases "callRow G EC CS = []")
  case False
  let ?rs = "omap_get [] (FunctionReturns G) (asg_Callee CS)" and ?f = "\<lambda>R. (R, ReturnNodeId CS)"
  have rc: "returnCols G EC CS \<noteq> []" and "callEdges G CS \<noteq> []"
    using False by (auto simp: callRow_def callEdges_def split: option.splits if_splits)
  then obtain E where E: "callEdges G CS = [(CallNodeId CS, E)]" "map_of (FunctionEntries G) (asg_Callee CS) = Some E"
    by (auto simp: callEdges_def split: option.splits)
  obtain c where c: "EC (CallNodeId CS, E) = Some c"
    using False E by (auto simp: callRow_def split: option.splits)
  have "distinct ?rs" "inj_on ?f (set ?rs)"
    using separate_edges(3) [OF sep CS] by (auto simp: returnEdges_def distinct_map)
  note r = edges_value [OF pc this, of "- 1", folded returnCols_def]
  have "can_return G CS"
  proof -
    obtain R c where "R \<in> set ?rs" "EC (?f R) = Some c"
      using rc by (auto simp: returnCols_def split: option.splits)
    then have "?f R \<in> set (returnEdges G CS)" "?f R \<in> set (edgeList G (asg_Nodes G))"
      using path_colsD(6) [OF pc] by (auto simp: returnEdges_def)
    then show ?thesis
      by (fastforce simp: can_return_def list_ex_iff edgeList_def asg_edge_def asg_getNode_def map_of_eq_None_iff)
  qed
  moreover obtain stk where stk: "call_run G [] (steps p) = Some stk" "list_all (\<lambda>CS. \<not> can_return G CS) stk"
    using m by (auto simp: calls_matched_def split: option.splits)
  ultimately have "count_list stk CS = 0" by (auto simp: list_all_iff count_list_0_iff)
  then have b: "taken (callEdges G CS) (steps p) = taken (returnEdges G CS) (steps p)"
    using call_run_balance [OF sep CS stk(1)] by simp
  have "counts G p c = int (count_list (steps p) (CallNodeId CS, E))"
    using edge_value [OF pc, where e = "(CallNodeId CS, E)" and v = 1] c by simp
  also have "\<dots> = int (taken (callEdges G CS) (steps p))"
    by (simp add: E taken_def count_as_filter)
  finally show ?thesis
    using r b E c rc by (simp add: callRow_def row_holds_def taken_def returnEdges_def)
qed simp

subsection \<open>The objective is the cost of the path\<close>

lemma sum_key:
  "distinct (map fst Ns) \<Longrightarrow>
   (\<Sum>P \<leftarrow> Ns. if fst P = u then w (snd P) else (0::int)) = (case map_of Ns u of Some N \<Rightarrow> w N | None \<Rightarrow> 0)"
proof (induction Ns)
  case (Cons P Ns)
  obtain v N where P: "P = (v, N)" by force
  have "map_of Ns v = None" using Cons.prems by (simp add: P map_of_eq_None_iff)
  then show ?case using Cons by (auto simp: P)
qed simp

lemma path_cost_nodes:
  assumes "distinct (map fst (asg_Nodes G))"
  shows "path_cost G p = (\<Sum>P \<leftarrow> asg_Nodes G. uint (Cost (snd P)) * int (count_list p (fst P)))"
proof (induction p)
  case (Cons u p)
  have "(\<Sum>P \<leftarrow> asg_Nodes G. uint (Cost (snd P)) * int (count_list (u # p) (fst P))) =
      (\<Sum>P \<leftarrow> asg_Nodes G. (if fst P = u then uint (Cost (snd P)) else 0) +
         uint (Cost (snd P)) * int (count_list p (fst P)))"
    by (intro arg_cong [where f = sum_list] map_cong) (auto simp: distrib_left)
  also have "\<dots> = (case map_of (asg_Nodes G) u of Some N \<Rightarrow> uint (Cost N) | None \<Rightarrow> 0) + path_cost G p"
    using sum_key [OF assms, of u "\<lambda>N. uint (Cost N)"] Cons by (simp add: sum_list_addf)
  finally show ?case by (simp add: path_cost_def asg_getNode_def)
qed (simp add: path_cost_def)

lemma sum_nth_map:
  "length ws = length cs \<Longrightarrow>
   (\<Sum>c < length cs. ws ! c * f (cs ! c)) = (\<Sum>(w, c) \<leftarrow> zip ws cs. w * (f c :: int))"
  by (induction ws cs rule: list_induct2) (simp_all add: sum.lessThan_Suc_shift del: sum.lessThan_Suc)

lemma objective_path_cost:
  assumes "distinct (map fst (asg_Nodes G))"
  shows "objective (wcetModel G) (counts G p) = path_cost G p"
proof -
  obtain NC EC M where M: "buildColumns G = (NC, EC, M)" by (metis prod_cases3)
  let ?ws = "map (\<lambda>P. uint (Cost (snd P))) (asg_Nodes G) @ map (\<lambda>_. 0) (edgeList G (asg_Nodes G))"
  have c: "columns (allCols G) ?ws M" by (fact buildColumns_spec(1) [OF M])
  have l: "length ?ws = length (allCols G)" by (simp add: allCols_def)
  have "objective (wcetModel G) (counts G p) = (\<Sum>i < length (allCols G). ?ws ! i * col_count p (allCols G ! i))"
    using c by (simp add: objective_def wcetModel_def M columns_def counts_def)
  also have "\<dots> = (\<Sum>(w, c) \<leftarrow> zip ?ws (allCols G). w * col_count p c)"
    by (rule sum_nth_map [OF l])
  also have "\<dots> = (\<Sum>P \<leftarrow> asg_Nodes G. uint (Cost (snd P)) * int (count_list p (fst P)))"
  proof -
    have "(\<Sum>(w, c) \<leftarrow> zip (map (\<lambda>_. 0) es) (map Inr es). w * col_count p c) = 0" for es
      by (induction es) simp_all
    moreover have "(\<Sum>(w, c) \<leftarrow> zip (map (\<lambda>P. uint (Cost (snd P))) Ns) (map (Inl \<circ> fst) Ns). w * col_count p c) =
        (\<Sum>P \<leftarrow> Ns. uint (Cost (snd P)) * int (count_list p (fst P)))" for Ns :: "(nat \<times> 'a ASGNode) list"
      by (induction Ns) (simp_all add: col_count_def)
    ultimately show ?thesis by (simp add: allCols_def)
  qed
  finally show ?thesis using path_cost_nodes [OF assms] by simp
qed

lemma single_entryD:
  assumes "single_entry G" "(u, N) \<in> set (asg_Nodes G)" "IsEntry N"
  shows "asg_getPredecessors G u = []"
    "(v, N') \<in> set (asg_Nodes G) \<Longrightarrow> IsEntry N' \<Longrightarrow> v = u"
proof -
  obtain e E where f: "filter (\<lambda>(u, N). IsEntry N) (asg_Nodes G) = [(e, E)]" "asg_getPredecessors G e = []"
    using assms(1) by (auto simp: single_entry_def split: list.splits)
  have in_f: "v = e" if "(v, N') \<in> set (asg_Nodes G)" "IsEntry N'" for v N'
  proof -
    have "(v, N') \<in> set (filter (\<lambda>(u, N). IsEntry N) (asg_Nodes G))" using that by simp
    then show ?thesis unfolding f(1) by simp
  qed
  then show "asg_getPredecessors G u = []" using assms(2,3) f(2) by blast
  show "(v, N') \<in> set (asg_Nodes G) \<Longrightarrow> IsEntry N' \<Longrightarrow> v = u"
    using in_f [OF assms(2,3)] in_f by blast
qed

lemma execution_feasible:
  assumes wf: "asg_wf G" "single_entry G" "sites_separate G" and ex: "execution G p"
  shows "feasible (wcetModel G) (\<lambda>c. of_int (counts G p c))"
proof -
  obtain NC EC M where M: "buildColumns G = (NC, EC, M)" by (metis prod_cases3)
  have pc: "path_cols G p NC EC" using M wf(1) ex by (auto simp: path_cols_def execution_def)
  have c: "num_col (wcetModel G) = length (allCols G)"
    "col_lower (wcetModel G) = replicate (length (allCols G)) 0"
    "col_upper (wcetModel G) = replicate (length (allCols G)) None"
    "hm_rows (wcetModel G) = concat (map (nodeRows G NC EC) (asg_Nodes G)) @
       concat (map (callRow G EC) (asg_CallSites G))"
    using buildColumns_spec(1) [OF M] by (simp_all add: wcetModel_def M columns_def)
  have key: "(u, N) \<in> set (asg_Nodes G) \<longleftrightarrow> asg_getNode G u = Some N" for u N
    using wf(1) by (simp add: asg_wf_def asg_getNode_def omap_ok_map_of)
  obtain H where H: "(hd p, H) \<in> set (asg_Nodes G)" "IsEntry H"
    using ex by (auto simp: execution_def node_holds_def key split: option.splits)
  obtain L where L: "(last p, L) \<in> set (asg_Nodes G)" "IsExit L"
    using ex by (auto simp: execution_def node_holds_def key split: option.splits)
  have "list_all (row_holds (counts G p)) (nodeRows G NC EC (u, N))" if n: "(u, N) \<in> set (asg_Nodes G)" for u N
  proof -
    have g: "asg_getNode G u \<noteq> None" using n by (simp add: key)
    have "row_holds (counts G p) (flowInRow G NC EC u)" if "\<not> IsEntry N"
    proof (rule flow_in [OF pc g])
      show "hd p \<noteq> u" using H n that by (auto simp: key)
    qed
    moreover have "row_holds (counts G p) (flowOutRow G NC EC u)" if "\<not> IsExit N"
    proof (rule flow_out [OF pc g])
      show "last p \<noteq> u" using L n that by (auto simp: key)
    qed
    moreover have "row_holds (counts G p) (entryRow NC u)" if e: "IsEntry N"
    proof -
      have u: "hd p = u" "asg_getPredecessors G u = []" using single_entryD [OF wf(2) n e] H by auto
      have "filter (\<lambda>e. snd e = u) (steps p) = []"
        using path_colsD(8) [OF pc] wf(1) u(2) by (fastforce simp: filter_empty_conv asg_wf_def)
      then have "count_list (tl p) u = 0" using count_into [of u p] by simp
      then have "count_list p u = 1" using u(1) path_colsD(7) [OF pc] by (cases p) auto
      then show ?thesis by (simp add: entryRow_def row_holds_def node_value [OF pc g])
    qed
    moreover have "row_holds (counts G p) (loopRow G NC EC u (asg_UpperLoopBound N))"
      if h: "IsLoopHeader N" "asg_UpperLoopBound N > 0"
    proof (rule loop_row [OF pc g _ h(2)])
      show "hd p \<noteq> u \<or> asg_getPredecessors G u = []" using single_entryD(1) [OF wf(2)] H by blast
      show "within_bound (isBackInto G u) u (unat (asg_UpperLoopBound N)) 0 (steps p)"
        using ex n h by (auto simp: execution_def loops_bounded_def list_all_iff)
    qed
    ultimately show ?thesis by (simp add: nodeRows_def)
  qed
  then have "list_all (row_holds (counts G p)) (concat (map (nodeRows G NC EC) (asg_Nodes G)))"
    by (fastforce simp: list_all_iff)
  moreover have "list_all (row_holds (counts G p)) (concat (map (callRow G EC) (asg_CallSites G)))"
    using call_rows [OF pc wf(3)] ex by (fastforce simp: execution_def list_all_iff)
  moreover have "0 \<le> counts G p i" for i by (simp add: counts_def col_count_def split: sum.split)
  ultimately show ?thesis by (simp add: feasible_def c)
qed

lemma wcet_bounds:
  assumes "asg_wf G" "single_entry G" "sites_separate G"
    and "mip_optimal e (wcetModel G) (highs (wcetModel G))"
    and "execution G p"
  shows "rat_of_int (path_cost G p) \<le> WCET (solveWCET highs G) + e"
proof -
  have "distinct (map fst (asg_Nodes G))" using assms(1) omap_ok_distinct by (auto simp: asg_wf_def)
  then show ?thesis
    using mip_optimalD [of e G highs, OF assms(4) execution_feasible [OF assms(1-3,5)]]
    by (simp add: objective_of_int objective_path_cost)
qed

text \<open>C3: whatever the program executes, the reported WCET is not below its cost, up to the error of the
  solver. Let HiGHS answer the built model -- a maximisation over integer columns -- with a value no
  feasible point exceeds by more than \<open>e\<close>; then the cost of every execution of the graph -- a path
  from the entry to an exit, within the loop bounds, with returns matched to the pending calls -- is
  at most the WCET \<open>solveWCET\<close> returns plus \<open>e\<close>; an exact answer (\<open>e = 0\<close>) bounds it outright.\<close>

theorem wcet_bounds_executions:
  assumes "asg_wf G" "single_entry G" "sites_separate G"
    and "mip_optimal e (wcetModel G) (highs (wcetModel G))"
    and "execution G p"
  shows "rat_of_int (path_cost G p) \<le> WCET (solveWCET highs G) + e"
  using assms by (rule wcet_bounds)

text \<open>A loop that runs twice and calls a function in its body.\<close>

definition demoASGNode :: "nat \<Rightarrow> u32 \<Rightarrow> u32 \<Rightarrow> unit ASGNode" where
  "demoASGNode i c b =
     \<lparr>asg_Id = i, asg_State = (), asg_MBB = None, IsEntry = (i = 0), IsExit = (i = 3),
      IsLoopHeader = (b > 0), asg_UpperLoopBound = b, Cost = c\<rparr>"

definition demoASG :: "unit AbstractStateGraph" where
  "demoASG =
     (fold (\<lambda>(a, b, m). asg_addEdge a b m)
        [(0, 1, False), (1, 2, False), (1, 3, False), (2, 4, False), (4, 5, False), (5, 1, True)] emptyASG)
     \<lparr>asg_NextNodeId := 6,
      asg_Nodes := [(0, demoASGNode 0 1 0), (1, demoASGNode 1 2 2), (2, demoASGNode 2 5 0),
        (3, demoASGNode 3 1 0), (4, demoASGNode 4 7 0), (5, demoASGNode 5 3 0)],
      FunctionEntries := [(9, 4)], FunctionReturns := [(9, [4])],
      asg_CallSites := [\<lparr>CallNodeId = 2, ReturnNodeId = 5, asg_Callee = 9\<rparr>]\<rparr>"

definition demoHighs :: "HighsModel \<Rightarrow> HighsAnswer" where
  "demoHighs M = \<lparr>kOptimal = True, modelStatusToString = ''Optimal'', getObjectiveValue = 21,
     col_value = [1, 2, 1, 1, 1, 1, 1, 1, 1, 1, 1, 1]\<rparr>"

lemma demo_sel:
  "asg_Nodes demoASG = [(0, demoASGNode 0 1 0), (1, demoASGNode 1 2 2), (2, demoASGNode 2 5 0),
        (3, demoASGNode 3 1 0), (4, demoASGNode 4 7 0), (5, demoASGNode 5 3 0)]"
  "FunctionEntries demoASG = [(9, 4)]" "FunctionReturns demoASG = [(9, [4])]"
  "asg_CallSites demoASG = [\<lparr>CallNodeId = 2, ReturnNodeId = 5, asg_Callee = 9\<rparr>]"
  by (simp_all add: demoASG_def)

lemma demo_adj:
  "AdjacencyList demoASG = [(0, [(1, False)]), (1, [(2, False), (3, False)]), (2, [(4, False)]),
     (4, [(5, False)]), (5, [(1, True)])]"
  "asg_Predecessors demoASG = [(1, [0, 5]), (2, [1]), (3, [1]), (4, [2]), (5, [4])]"
  by (simp_all add: demoASG_def asg_addEdge_def emptyASG_def omap_get_def omap_insert_def insort_insert_key_def)

lemma demo_build:
  "buildColumns demoASG = 
    ([(0,0),(1,1),(2,2),(3,3),(4,4),(5,5)], [(0,1) \<mapsto> 6, (1,2) \<mapsto> 7, (1,3) \<mapsto> 8, (2,4) \<mapsto> 9, (4,5) \<mapsto> 10, (5,1) \<mapsto> 11],
     \<lparr>sense = kMaximize, num_col = 12, col_cost = [1, 2, 5, 1, 7, 3, 0, 0, 0, 0, 0, 0], col_lower = [0, 0, 0, 0, 0, 0, 0, 0, 0, 0, 0, 0],
      col_upper = [None, None, None, None, None, None, None, None, None, None, None, None],
      integrality = replicate 12 kInteger, hm_rows = []\<rparr>)"
  by (simp add: buildColumns_def demo_sel asg_getSuccessors_def demo_adj omap_get_def emptyModel_def addCol_def
    demoASGNode_def) (simp add: eval_nat_numeral)

lemma demo_model:
  "col_cost (wcetModel demoASG) = [1, 2, 5, 1, 7, 3, 0, 0, 0, 0, 0, 0]"
  "num_col (wcetModel demoASG) = 12"
  "map (\<lambda>R. (row_lower R, row_upper R, row_coeffs R)) (hm_rows (wcetModel demoASG)) = 
     [(0, Some 0, [(0, 1), (6, - 1)]), (1, Some 1, [(0, 1)]), (0, Some 0, [(1, 1), (6, - 1), (11, - 1)]),
  (0, Some 0, [(1, 1), (7, - 1), (8, - 1)]), (0, None, [(1, 1), (11, - 2)]), (0, Some 0, [(2, 1), (7, - 1)]),
  (0, Some 0, [(2, 1), (9, - 1)]), (0, Some 0, [(3, 1), (8, - 1)]), (0, Some 0, [(4, 1), (9, - 1)]),
  (0, Some 0, [(4, 1), (10, - 1)]), (0, Some 0, [(5, 1), (10, - 1)]), (0, Some 0, [(5, 1), (11, - 1)]),
  (0, Some 0, [(9, 1), (10, - 1)])]"
  by (simp_all add: wcetModel_def Let_def addRow_def demo_build nodeRows_def callRow_def demo_sel flowInRow_def
    flowOutRow_def entryRow_def loopRow_def returnCols_def isBackInto_def demo_adj omap_get_def asg_getPredecessors_def asg_getSuccessors_def  demoASGNode_def)

theorem wcet_bounds_executions_witness:
  "path_cost demoASG [0, 1, 2, 4, 5, 1, 3] = 21 \<and>
   rat_of_int (path_cost demoASG [0, 1, 2, 4, 5, 1, 3]) \<le> WCET (solveWCET demoHighs demoASG) + 0"
proof
  show "path_cost demoASG [0, 1, 2, 4, 5, 1, 3] = 21"
    by (simp add: path_cost_def asg_getNode_def demo_sel demoASGNode_def)
  have w: "asg_wf demoASG"
    by (auto simp: asg_wf_def asg_edge_def asg_getSuccessors_def asg_getPredecessors_def demo_adj demo_sel omap_get_def oset_ok_def omap_ok_def)
      (force simp: demoASG_def)+
  have "single_entry demoASG" "sites_separate demoASG"
    by (simp_all add: single_entry_def sites_separate_def callEdges_def returnEdges_def demo_sel demoASGNode_def
      asg_getPredecessors_def demo_adj omap_get_def)
  moreover have "execution demoASG [0, 1, 2, 4, 5, 1, 3]"
    by (simp add: execution_def image_iff is_path_def steps_def asg_getNode_def demo_sel asg_edge_def asg_getSuccessors_def
      demo_adj omap_get_def node_holds_def loops_bounded_def calls_matched_def callEdges_def returnEdges_def
      isBackInto_def demoASGNode_def) auto
  moreover have "mip_optimal 0 (wcetModel demoASG) (demoHighs (wcetModel demoASG))"
    unfolding mip_optimal_def wcetModel_sense ObjSense.case
  proof (intro conjI allI impI)
    fix x assume "feasible (wcetModel demoASG) x"
    then have "list_all (\<lambda>(l, u, cs). of_int l \<le> row_value x cs \<and>
          (case u of Some v \<Rightarrow> row_value x cs \<le> of_int v | None \<Rightarrow> True))
        (map (\<lambda>R. (row_lower R, row_upper R, row_coeffs R)) (hm_rows (wcetModel demoASG)))"
      by (simp add: feasible_def list.pred_map comp_def row_holds_def [abs_def])
    then have r: "x 6 = x 0" "x 0 = 1" "x 1 = x 6 + x 11" "x 1 = x 7 + x 8" "2 * x 11 \<le> x 1"
      "x 2 = x 7" "x 2 = x 9" "x 3 = x 8" "x 4 = x 9" "x 4 = x 10" "x 5 = x 10" "x 5 = x 11"
      by (simp_all add: demo_model(3))
    have "objective (wcetModel demoASG) x = x 0 + 2 * x 1 + 5 * x 2 + x 3 + 7 * x 4 + 3 * x 5"
      by (simp add: objective_def demo_model(1,2) eval_nat_numeral)
    also have "\<dots> \<le> 21" using r by linarith
    finally show "objective (wcetModel demoASG) x \<le> getObjectiveValue (demoHighs (wcetModel demoASG)) + 0"
      by (simp add: demoHighs_def)
  qed (simp add: demoHighs_def)
  ultimately show "rat_of_int (path_cost demoASG [0, 1, 2, 4, 5, 1, 3]) \<le> WCET (solveWCET demoHighs demoASG) + 0"
    using wcet_bounds_executions w by blast
qed

end
