(* ===== verification/TimingResults.thy ===== *)
theory TimingResults
  imports AnalysisFramework ProgramGraph
begin

text \<open>
  The target of the analysis (\<open>RTTarget.h\<close>, \<open>MSP430FR5994Target\<close>, \<open>TargetRegistry.cpp\<close>) as the
  record of its operations, the container the passes share (\<open>TimingAnalysisResults\<close>), the
  options they read, and the order the passes run in. The unordered maps are only looked up, so
  they are partial functions.
\<close>

subsection \<open>Targets\<close>

datatype Arch = msp430 | OtherArch string

datatype PassName =
  CallSplitterPass | AsmDumpAndCheckPass | AdressResolverPass | InstructionLatencyPass
| FRAMWaitStatePass | FRAMCacheAnalysisPass | MachineLoopBoundAgregatorPass | FillMuGraphPass
| PathAnalysisPass

record RTTarget =
  rt_getName :: string
  rt_getArch :: Arch
  rt_getInstructionLatency :: "MachineInstr \<Rightarrow> u32 option"
  rt_checkInstruction :: "Opcode \<Rightarrow> CheckResult"
  rt_getExternalCallCost :: "string \<Rightarrow> u32 option"
  rt_getImplicitLoopBound :: "nat \<Rightarrow> MachineBasicBlock \<Rightarrow> u32 option"
  rt_getMaxInstructionWords :: u32
  rt_isControlFlowMnemonic :: "string \<Rightarrow> bool"
  rt_getMemoryModelPasses :: "PassName list"
  rt_getPipeline :: "StageState list Analysable"

definition MSP430Target :: RTTarget where
  "MSP430Target =
     \<lparr>rt_getName = ''MSP430'', rt_getArch = msp430,
      rt_getInstructionLatency = MSP430_getInstructionLatency,
      rt_checkInstruction = checkInstruction,
      rt_getExternalCallCost = (\<lambda>_. None),
      rt_getImplicitLoopBound = getImplicitLoopBound,
      rt_getMaxInstructionWords = 3,
      rt_isControlFlowMnemonic = isControlFlowMnemonic,
      rt_getMemoryModelPasses = [],
      rt_getPipeline = MSP430Pipeline\<rparr>"

definition MSP430FR5994Target :: RTTarget where
  "MSP430FR5994Target =
     MSP430Target\<lparr>rt_getName := ''MSP430FR5994'',
       rt_getMemoryModelPasses := [FRAMWaitStatePass, FRAMCacheAnalysisPass]\<rparr>"

definition resolveMSP430Device :: "Arch \<Rightarrow> RTTarget" where
  "resolveMSP430Device TT = MSP430FR5994Target"

fun createRTTarget :: "Arch \<Rightarrow> RTTarget option" where
  "createRTTarget msp430 = Some (resolveMSP430Device msp430)"
| "createRTTarget (OtherArch _) = None"

subsection \<open>Options\<close>

text \<open>The options of the tool (\<open>Utility/Options.cpp\<close>) and those of the MSP430 family.\<close>

record GenericOptions =
  ElfFilename :: string
  StartFunctionName :: string
  DebugIR :: bool
  LoopBoundsJSON :: string
  LLCMode :: bool
  AddressResolverVerbose :: bool

record Options = GenericOptions +
  FRAMStartAddress :: string
  FRAMWaitStates :: u32
  FRAMCache :: bool
  FRAMLineFillCycles :: u32
  FRAMCachePolicy :: string
  FRAMCacheVerbose :: bool
  FRAMCacheSets :: u32
  FRAMCacheWays :: u32
  FRAMCacheLineBytes :: u32

definition defaultOptions :: Options where
  "defaultOptions =
     \<lparr>ElfFilename = [], StartFunctionName = [], DebugIR = False, LoopBoundsJSON = [],
      LLCMode = False, AddressResolverVerbose = False, FRAMStartAddress = [], FRAMWaitStates = 0,
      FRAMCache = False, FRAMLineFillCycles = 15, FRAMCachePolicy = ''unknown'',
      FRAMCacheVerbose = False, FRAMCacheSets = 2, FRAMCacheWays = 2, FRAMCacheLineBytes = 8\<rparr>"

text \<open>Without a target for the architecture the run is a fatal error.\<close>

definition getTimingAnalysisPasses :: "Options \<Rightarrow> Arch \<Rightarrow> PassName list option" where
  "getTimingAnalysisPasses Opt TT =
     (case createRTTarget TT of
        None \<Rightarrow> None
      | Some Target \<Rightarrow> Some
          (if LLCMode Opt then [CallSplitterPass]
           else [CallSplitterPass, AsmDumpAndCheckPass, AdressResolverPass, InstructionLatencyPass]
             @ rt_getMemoryModelPasses Target
             @ [MachineLoopBoundAgregatorPass, FillMuGraphPass, PathAnalysisPass]))"

subsection \<open>The shared results\<close>

record DataObject =
  do_Name :: string
  do_Address :: u64
  do_Size :: u64
  do_Section :: string

record TimingAnalysisResults =
  ActiveTarget :: "RTTarget option"
  MBBLatencyMap :: "ptr \<rightharpoonup> u32"
  MBBLatencyMapSet :: bool
  LoopBoundMap :: "ptr \<rightharpoonup> u32"
  LoopBoundMapSet :: bool
  RecursionBoundMap :: "(string \<times> u32) list"
  IrreducibleBackEdges :: "(ptr \<times> ptr) list"
  InstructionAddressMap :: "ptr \<rightharpoonup> u64"
  InstructionAddressMapSet :: bool
  BranchTargetMap :: "ptr \<rightharpoonup> u64"
  BranchTargetMapSet :: bool
  DataObjects :: "DataObject list"
  DataObjectByName :: "string \<rightharpoonup> nat"
  FRAMStart :: u64
  FRAMStartSet :: bool
  MASG :: ProgramGraph
  UnsoundReasons :: "string set"

definition newTAR :: TimingAnalysisResults where
  "newTAR =
     \<lparr>ActiveTarget = None, MBBLatencyMap = (\<lambda>_. None), MBBLatencyMapSet = False,
      LoopBoundMap = (\<lambda>_. None), LoopBoundMapSet = False, RecursionBoundMap = [],
      IrreducibleBackEdges = [], InstructionAddressMap = (\<lambda>_. None),
      InstructionAddressMapSet = False, BranchTargetMap = (\<lambda>_. None), BranchTargetMapSet = False,
      DataObjects = [], DataObjectByName = (\<lambda>_. None), FRAMStart = 0, FRAMStartSet = False,
      MASG = emptyPG, UnsoundReasons = {}\<rparr>"

definition setTarget :: "RTTarget option \<Rightarrow> TimingAnalysisResults \<Rightarrow> TimingAnalysisResults" where
  "setTarget Target T = T\<lparr>ActiveTarget := Target\<rparr>"

definition getTarget :: "TimingAnalysisResults \<Rightarrow> RTTarget option" where
  "getTarget T = ActiveTarget T"

definition setMBBLatencyMap :: "(ptr \<rightharpoonup> u32) \<Rightarrow> TimingAnalysisResults \<Rightarrow> TimingAnalysisResults" where
  "setMBBLatencyMap Map T = T\<lparr>MBBLatencyMapSet := True, MBBLatencyMap := Map\<rparr>"

definition getMBBLatencyMap :: "TimingAnalysisResults \<Rightarrow> (ptr \<rightharpoonup> u32) option" where
  "getMBBLatencyMap T = (if MBBLatencyMapSet T then Some (MBBLatencyMap T) else None)"

definition setLoopBoundMap :: "(ptr \<rightharpoonup> u32) \<Rightarrow> TimingAnalysisResults \<Rightarrow> TimingAnalysisResults" where
  "setLoopBoundMap Map T = T\<lparr>LoopBoundMapSet := True, LoopBoundMap := Map\<rparr>"

definition getLoopBoundMap :: "TimingAnalysisResults \<Rightarrow> (ptr \<rightharpoonup> u32)" where
  "getLoopBoundMap T = LoopBoundMap T"

definition setRecursionBoundMap ::
  "(string \<times> u32) list \<Rightarrow> TimingAnalysisResults \<Rightarrow> TimingAnalysisResults" where
  "setRecursionBoundMap Map T = T\<lparr>RecursionBoundMap := Map\<rparr>"

definition getRecursionBoundMap :: "TimingAnalysisResults \<Rightarrow> (string \<times> u32) list" where
  "getRecursionBoundMap T = RecursionBoundMap T"

definition addIrreducibleBackEdge ::
  "ptr \<Rightarrow> ptr \<Rightarrow> TimingAnalysisResults \<Rightarrow> TimingAnalysisResults" where
  "addIrreducibleBackEdge Pred Header T =
     T\<lparr>IrreducibleBackEdges := oset_add (Pred, Header) (IrreducibleBackEdges T)\<rparr>"

definition getIrreducibleBackEdges :: "TimingAnalysisResults \<Rightarrow> (ptr \<times> ptr) list" where
  "getIrreducibleBackEdges T = IrreducibleBackEdges T"

definition setInstructionAddress ::
  "ptr \<Rightarrow> u64 \<Rightarrow> TimingAnalysisResults \<Rightarrow> TimingAnalysisResults" where
  "setInstructionAddress MI Address T =
     T\<lparr>InstructionAddressMapSet := True,
       InstructionAddressMap := (InstructionAddressMap T)(MI \<mapsto> Address)\<rparr>"

definition hasInstructionAddress :: "TimingAnalysisResults \<Rightarrow> ptr \<Rightarrow> bool" where
  "hasInstructionAddress T MI \<longleftrightarrow> InstructionAddressMap T MI \<noteq> None"

definition getInstructionAddress :: "TimingAnalysisResults \<Rightarrow> ptr \<Rightarrow> u64 option" where
  "getInstructionAddress T MI = InstructionAddressMap T MI"

definition setBranchTarget :: "ptr \<Rightarrow> u64 \<Rightarrow> TimingAnalysisResults \<Rightarrow> TimingAnalysisResults" where
  "setBranchTarget MI Target T =
     T\<lparr>BranchTargetMapSet := True, BranchTargetMap := (BranchTargetMap T)(MI \<mapsto> Target)\<rparr>"

definition hasBranchTarget :: "TimingAnalysisResults \<Rightarrow> ptr \<Rightarrow> bool" where
  "hasBranchTarget T MI \<longleftrightarrow> BranchTargetMap T MI \<noteq> None"

definition getBranchTarget :: "TimingAnalysisResults \<Rightarrow> ptr \<Rightarrow> u64 option" where
  "getBranchTarget T MI = BranchTargetMap T MI"

text \<open>The first object of a name is kept.\<close>

definition addDataObject :: "DataObject \<Rightarrow> TimingAnalysisResults \<Rightarrow> TimingAnalysisResults" where
  "addDataObject Obj T =
     (if DataObjectByName T (do_Name Obj) \<noteq> None then T
      else T\<lparr>DataObjectByName := (DataObjectByName T)(do_Name Obj \<mapsto> length (DataObjects T)),
             DataObjects := DataObjects T @ [Obj]\<rparr>)"

definition getDataObject :: "TimingAnalysisResults \<Rightarrow> string \<Rightarrow> DataObject option" where
  "getDataObject T Name =
     (case DataObjectByName T Name of None \<Rightarrow> None | Some i \<Rightarrow> Some (DataObjects T ! i))"

definition setFRAMStart :: "u64 \<Rightarrow> TimingAnalysisResults \<Rightarrow> TimingAnalysisResults" where
  "setFRAMStart Address T = T\<lparr>FRAMStartSet := True, FRAMStart := Address\<rparr>"

definition hasFRAMStart :: "TimingAnalysisResults \<Rightarrow> bool" where
  "hasFRAMStart T \<longleftrightarrow> FRAMStartSet T"

definition getFRAMStart :: "TimingAnalysisResults \<Rightarrow> u64 option" where
  "getFRAMStart T = (if FRAMStartSet T then Some (FRAMStart T) else None)"

definition addUnsoundReason :: "string \<Rightarrow> TimingAnalysisResults \<Rightarrow> TimingAnalysisResults" where
  "addUnsoundReason Reason T = T\<lparr>UnsoundReasons := insert Reason (UnsoundReasons T)\<rparr>"

definition getUnsoundReasons :: "TimingAnalysisResults \<Rightarrow> string set" where
  "getUnsoundReasons T = UnsoundReasons T"

definition isUnsound :: "TimingAnalysisResults \<Rightarrow> bool" where
  "isUnsound T \<longleftrightarrow> UnsoundReasons T \<noteq> {}"

subsection \<open>The data objects by name\<close>

definition objects_ok :: "TimingAnalysisResults \<Rightarrow> bool" where
  "objects_ok T \<longleftrightarrow>
     distinct (map do_Name (DataObjects T)) \<and>
     DataObjectByName T = map_of (zip (map do_Name (DataObjects T)) [0..<length (DataObjects T)])"

lemma objects_ok_new [simp, wf_intros]: "objects_ok newTAR"
  by (simp add: objects_ok_def newTAR_def)

lemma objects_ok_dom: "objects_ok T \<Longrightarrow> dom (DataObjectByName T) = do_Name ` set (DataObjects T)"
  by (simp add: objects_ok_def dom_map_of_zip)

lemma objects_ok_add [wf_intros]: "objects_ok T \<Longrightarrow> objects_ok (addDataObject Obj T)"
proof (cases "DataObjectByName T (do_Name Obj)")
  case None
  assume ok: "objects_ok T"
  have "do_Name Obj \<notin> do_Name ` set (DataObjects T)" using None objects_ok_dom [OF ok] by auto
  then show ?thesis using ok None
    by (auto simp: objects_ok_def addDataObject_def fun_eq_iff map_of_append map_add_def split: option.splits
        dest: map_of_SomeD set_zip_leftD)
qed (simp add: addDataObject_def)

lemma getDataObject_find:
  assumes "objects_ok T"
  shows "getDataObject T Name = List.find (\<lambda>Obj. do_Name Obj = Name) (DataObjects T)"
proof (cases "DataObjectByName T Name")
  case None
  then have "\<forall>Obj \<in> set (DataObjects T). do_Name Obj \<noteq> Name" using objects_ok_dom [OF assms] by force
  then have "List.find (\<lambda>Obj. do_Name Obj = Name) (DataObjects T) = None" by (auto simp: find_None_iff)
  then show ?thesis using None by (simp add: getDataObject_def)
next
  case (Some i)
  let ?D = "DataObjects T"
  have i: "i < length ?D" "do_Name (?D ! i) = Name"
    using Some assms by (auto simp: objects_ok_def set_zip dest!: map_of_SomeD)
  then show ?thesis
    using assms find_key [of do_Name ?D "?D ! i"] Some by (simp add: getDataObject_def objects_ok_def)
qed

lemma find_snoc: "List.find P (xs @ [x]) =
   (case List.find P xs of Some y \<Rightarrow> Some y | None \<Rightarrow> if P x then Some x else None)"
  by (induction xs) auto

lemma getDataObject_add:
  assumes ok: "objects_ok T"
  shows "getDataObject (addDataObject Obj T) Name =
     (case getDataObject T Name of Some D \<Rightarrow> Some D
      | None \<Rightarrow> if do_Name Obj = Name then Some Obj else None)"
proof (cases "DataObjectByName T (do_Name Obj)")
  case None
  then show ?thesis
    using getDataObject_find [OF ok, of Name] getDataObject_find [OF objects_ok_add [OF ok], of Obj Name]
    by (simp add: addDataObject_def find_snoc)
next
  case (Some i)
  then show ?thesis by (auto simp: addDataObject_def getDataObject_def split: option.splits)
qed

text \<open>The data objects read from the ELF are found again by their name: after any sequence of
  \<open>addDataObject\<close> the lookup of a name is the first object of that name that was added, and of
  a name never added it is nothing, so a local symbol that repeats a name never moves an object
  already placed.\<close>

lemma data_objects_roundtrip:
  "getDataObject (fold addDataObject Objs newTAR) Name = List.find (\<lambda>Obj. do_Name Obj = Name) Objs"
proof -
  have "objects_ok T \<Longrightarrow> objects_ok (fold addDataObject Objs T) \<and>
      getDataObject (fold addDataObject Objs T) Name =
        (case getDataObject T Name of Some D \<Rightarrow> Some D
         | None \<Rightarrow> List.find (\<lambda>Obj. do_Name Obj = Name) Objs)" for T
  proof (induction Objs arbitrary: T)
    case (Cons Obj Objs)
    then show ?case
      using Cons.IH [OF objects_ok_add [OF Cons.prems, of Obj]]
      by (auto simp: getDataObject_add split: option.splits)
  qed (simp split: option.splits)
  from this [OF objects_ok_new] show ?thesis by (simp add: getDataObject_def newTAR_def)
qed

end
