(* ===== verification/MemoryWords.thy ===== *)
theory MemoryWords
  imports TimingResults
begin

text \<open>
  \<open>InstructionWords.cpp\<close>, \<open>DataMemoryAccess.cpp\<close> and \<open>FRAMAccessMapper.cpp\<close>: how many 16-bit
  words an instruction fetches (from the gap between the addresses of the linked image), how
  many of its data accesses may go to FRAM, and the cache events both make.
\<close>

subsection \<open>Fetch words\<close>

definition resolvedInstrs :: "MachineFunction \<Rightarrow> TimingAnalysisResults \<Rightarrow> (u64 \<times> ptr) list" where
  "resolvedInstrs MF T =
     concat (map (\<lambda>MBB. concat (map (\<lambda>MI.
         case getInstructionAddress T (mi_id MI) of Some a \<Rightarrow> [(a, mi_id MI)] | None \<Rightarrow> [])
       (mbb_instrs MBB))) (mf_blocks MF))"

fun wordsLoop :: "u32 \<Rightarrow> (u64 \<times> ptr) list \<Rightarrow> (ptr \<times> u32) list \<Rightarrow> (ptr \<times> u32) list" where
  "wordsLoop MaxWords [] Words = Words"
| "wordsLoop MaxWords [(a, MI)] Words = omap_put MI 1 Words"
| "wordsLoop MaxWords ((a, MI) # (b, MI') # Rs) Words =
     (let Wd = (b - a) div 2;
          W = (if Wd \<ge> 1 \<and> Wd \<le> ucast MaxWords then ucast Wd else 1)
      in wordsLoop MaxWords ((b, MI') # Rs) (omap_put MI W Words))"

text \<open>\<open>std::sort\<close> orders by address; the order of equal addresses is unspecified, here the order
  of the function (no two instructions share an address).\<close>

definition computeInstructionWords ::
  "MachineFunction \<Rightarrow> TimingAnalysisResults \<Rightarrow> (ptr \<times> u32) list option" where
  "computeInstructionWords MF T = do {
     Target \<leftarrow> getTarget T;
     Some (wordsLoop (rt_getMaxInstructionWords Target) (sort_key fst (resolvedInstrs MF T)) [])
   }"

subsection \<open>Data accesses\<close>

definition isStackMemOperand :: "MachineMemOperand \<Rightarrow> bool" where
  "isStackMemOperand MMO =
     (case mmo_PseudoValue MMO of
        None \<Rightarrow> False
      | Some PSV \<Rightarrow> PSV = PSV_Stack \<or> PSV = PSV_FixedStack)"

definition isProvablyNonFRAMMemOperand ::
  "MachineMemOperand \<Rightarrow> u64 \<Rightarrow> (string \<Rightarrow> u64 option) \<Rightarrow> bool" where
  "isProvablyNonFRAMMemOperand MMO FramStart Resolve =
     (if isStackMemOperand MMO then True
      else case mmo_Value MMO of
             None \<Rightarrow> False
           | Some UO_Alloca \<Rightarrow> True
           | Some (UO_Global GV) \<Rightarrow> (case Resolve GV of Some Addr \<Rightarrow> Addr < FramStart | None \<Rightarrow> False)
           | Some UO_Unknown \<Rightarrow> False)"

definition isProvablyStackOnly :: "MachineInstr \<Rightarrow> bool" where
  "isProvablyStackOnly MI =
     (if mi_memoperands MI = [] then False else list_all isStackMemOperand (mi_memoperands MI))"

fun countOperands :: "(MachineMemOperand \<Rightarrow> bool) \<Rightarrow> MachineMemOperand list \<Rightarrow> u32 \<Rightarrow> u32" where
  "countOperands P [] Count = Count"
| "countOperands P (MMO # MMOs) Count = countOperands P MMOs (if P MMO then Count + 1 else Count)"

definition framDataAccessWords_stack :: "MachineInstr \<Rightarrow> u32" where
  "framDataAccessWords_stack MI =
     (if \<not> mi_mayLoad MI \<and> \<not> mi_mayStore MI then 0
      else if isProvablyStackOnly MI then 0
      else if mi_memoperands MI = []
      then (if mi_mayLoad MI then 1 else 0) + (if mi_mayStore MI then 1 else 0)
      else countOperands (\<lambda>MMO. \<not> isStackMemOperand MMO) (mi_memoperands MI) 0)"

definition framDataAccessWords :: "MachineInstr \<Rightarrow> u64 \<Rightarrow> (string \<Rightarrow> u64 option) \<Rightarrow> u32" where
  "framDataAccessWords MI FramStart Resolve =
     (if \<not> mi_mayLoad MI \<and> \<not> mi_mayStore MI then 0
      else if mi_memoperands MI = []
      then (if mi_mayLoad MI then 1 else 0) + (if mi_mayStore MI then 1 else 0)
      else countOperands (\<lambda>MMO. \<not> isProvablyNonFRAMMemOperand MMO FramStart Resolve)
             (mi_memoperands MI) 0)"

fun dataWordsLoop ::
  "u64 \<Rightarrow> (string \<Rightarrow> u64 option) \<Rightarrow> MachineInstr list \<Rightarrow> (ptr \<times> u32) list \<Rightarrow> (ptr \<times> u32) list" where
  "dataWordsLoop FramStart Resolve [] DataWords = DataWords"
| "dataWordsLoop FramStart Resolve (MI # MIs) DataWords =
     (let N = framDataAccessWords MI FramStart Resolve
      in dataWordsLoop FramStart Resolve MIs
           (if N \<noteq> 0 then omap_put (mi_id MI) N DataWords else DataWords))"

definition resolveGlobal :: "TimingAnalysisResults \<Rightarrow> string \<Rightarrow> u64 option" where
  "resolveGlobal T Name = map_option do_Address (getDataObject T Name)"

definition mf_instrs :: "MachineFunction \<Rightarrow> MachineInstr list" where
  "mf_instrs MF = concat (map mbb_instrs (mf_blocks MF))"

definition computeDataAccessWords ::
  "MachineFunction \<Rightarrow> TimingAnalysisResults \<Rightarrow> (ptr \<times> u32) list option" where
  "computeDataAccessWords MF T = do {
     FramStart \<leftarrow> getFRAMStart T;
     Some (dataWordsLoop FramStart (resolveGlobal T) (mf_instrs MF) [])
   }"

subsection \<open>Cache events\<close>

text \<open>The mapper is only made when the start of the FRAM is set, so reading it never fails.\<close>

fun fetchEvents :: "CacheGeometry \<Rightarrow> u64 \<Rightarrow> u64 \<Rightarrow> nat list \<Rightarrow> CacheEvent list" where
  "fetchEvents Geo FramStart Addr [] = []"
| "fetchEvents Geo FramStart Addr (W # Ws) =
     (let WordAddr = Addr + 2 * of_nat W
      in (if WordAddr \<ge> FramStart then [Access (lineId Geo WordAddr)] else []) @
         fetchEvents Geo FramStart Addr Ws)"

definition mapEvents ::
  "TimingAnalysisResults \<Rightarrow> CacheGeometry \<Rightarrow> (ptr \<times> u32) list \<Rightarrow> (ptr \<times> u32) list \<Rightarrow> u32
   \<Rightarrow> MachineInstr \<Rightarrow> CacheEvent list" where
  "mapEvents T Geo Words DataWords DataAccessCost MI =
     (case (map_of Words (mi_id MI), getInstructionAddress T (mi_id MI)) of
        (Some n, Some Addr) \<Rightarrow> fetchEvents Geo (FRAMStart T) Addr [0..<unat n]
      | _ \<Rightarrow> []) @
     (case map_of DataWords (mi_id MI) of
        Some n \<Rightarrow> [Barrier (DataAccessCost * n)] | None \<Rightarrow> [])"

subsection \<open>The word count of an instruction\<close>

lemma map_of_wordsLoop_other:
  "MI \<notin> snd ` set Rs \<Longrightarrow> map_of (wordsLoop M Rs Ws) MI = map_of Ws MI"
  by (induction M Rs Ws rule: wordsLoop.induct) (auto simp: Let_def)

lemma wordsLoop_word:
  assumes "sorted (map fst Rs)" "distinct (map snd Rs)" "i < length Rs"
  shows "map_of (wordsLoop M Rs Ws) (snd (Rs ! i)) = Some
    (if Suc i < length Rs
     then let Wd = (fst (Rs ! Suc i) - fst (Rs ! i)) div 2
          in if Wd \<ge> 1 \<and> Wd \<le> ucast M then ucast Wd else 1
     else 1)"
  using assms
proof (induction M Rs Ws arbitrary: i rule: wordsLoop.induct)
  case (3 M a MI b MI' Rs Ws)
  show ?case
  proof (cases i)
    case 0
    then show ?thesis using "3.prems" map_of_wordsLoop_other [of MI "(b, MI') # Rs"]
      by (simp add: Let_def)
  next
    case (Suc j)
    then show ?thesis using "3.IH" [OF refl refl, of j] "3.prems" by (simp add: Let_def)
  qed
qed simp_all

lemma dom_wordsLoop: "dom (map_of (wordsLoop M Rs Ws)) = dom (map_of Ws) \<union> snd ` set Rs"
  by (induction M Rs Ws rule: wordsLoop.induct) (auto simp: Let_def)

lemma sorted_next:
  assumes "sorted_wrt (<) xs" "i < length xs" "b \<in> set xs" "xs ! i < (b :: 'a :: linorder)"
    "\<forall>c \<in> set xs. \<not> (xs ! i < c \<and> c < b)"
  shows "Suc i < length xs \<and> xs ! Suc i = b"
proof -
  obtain j where j: "j < length xs" "xs ! j = b" using assms(3) by (auto simp: in_set_conv_nth)
  have "i < j"
  proof (rule ccontr)
    assume "\<not> i < j"
    then have "xs ! j \<le> xs ! i"
      using sorted_wrt_nth_less [OF assms(1), of j i] assms(2) by (cases "j = i") auto
    then show False using assms(4) j by simp
  qed
  then have s: "Suc i < length xs" "xs ! i < xs ! Suc i"
    using j sorted_wrt_nth_less [OF assms(1), of i "Suc i"] by auto
  moreover have "xs ! Suc i = b"
  proof (rule ccontr)
    assume ne: "xs ! Suc i \<noteq> b"
    then have "Suc i \<noteq> j" using j(2) by blast
    then have "Suc i < j" using \<open>i < j\<close> by simp
    then have "xs ! Suc i < b" using sorted_wrt_nth_less [OF assms(1), of "Suc i" j] j by simp
    moreover have "xs ! Suc i \<in> set xs" using s(1) by simp
    ultimately show False using assms(5) s(2) by blast
  qed
  ultimately show ?thesis by blast
qed

lemma sorted_strict: "sorted xs \<Longrightarrow> distinct xs \<Longrightarrow> sorted_wrt (<) xs"
  by (simp add: strict_sorted_iff)

lemma sorted_last:
  assumes "sorted_wrt (<) xs" "i < length xs" "\<forall>b \<in> set xs. \<not> xs ! i < (b :: 'a :: linorder)"
  shows "Suc i = length xs"
proof (rule ccontr)
  assume "Suc i \<noteq> length xs"
  then have "Suc i < length xs" using assms(2) by simp
  then show False using sorted_wrt_nth_less [OF assms(1), of i "Suc i"] assms(3) by simp
qed

lemma word_counts:
  assumes "getTarget T = Some Target"
    and "distinct (map fst (resolvedInstrs MF T))" "distinct (map snd (resolvedInstrs MF T))"
  shows "\<exists>Words. computeInstructionWords MF T = Some Words \<and>
    dom (map_of Words) = snd ` set (resolvedInstrs MF T) \<and>
    (\<forall>(a, MI) \<in> set (resolvedInstrs MF T).
       (\<exists>W. map_of Words MI = Some W \<and> 1 \<le> W \<and> unat W \<le> max 1 (unat (rt_getMaxInstructionWords Target))) \<and>
       (\<forall>(b, MI') \<in> set (resolvedInstrs MF T). a < b \<and> (\<forall>(c, _) \<in> set (resolvedInstrs MF T). \<not> (a < c \<and> c < b)) \<longrightarrow>
          map_of Words MI = Some
            (if 2 \<le> unat (b - a) \<and> unat (b - a) div 2 \<le> unat (rt_getMaxInstructionWords Target)
             then word_of_nat (unat (b - a) div 2) else 1)) \<and>
       ((\<forall>(b, MI') \<in> set (resolvedInstrs MF T). \<not> a < b) \<longrightarrow> map_of Words MI = Some 1))"
proof -
  let ?M = "rt_getMaxInstructionWords Target" and ?R = "resolvedInstrs MF T"
  let ?S = "sort_key fst ?R"
  have S: "sorted (map fst ?S)" "distinct (map snd ?S)" "set ?S = set ?R" "distinct (map fst ?S)"
    using assms(2,3) by (simp_all add: distinct_map)
  have lt: "sorted_wrt (<) (map fst ?S)" using S(1,4) by (rule sorted_strict)
  define Words where "Words = wordsLoop ?M ?S []"
  have div2: "unat (w div 2) = unat w div 2" for w :: u64 by (simp add: unat_div)
  have up: "unat (ucast ?M :: u64) = unat ?M"
    using unat_lt32 [of ?M] by (simp add: unsigned_ucast_eq take_bit_nat_eq_self)
  have down: "(ucast w :: u32) = word_of_nat (unat w)" for w :: u64 by simp
  have W: "(let Wd = w div 2 in if Wd \<ge> 1 \<and> Wd \<le> ucast ?M then ucast Wd else 1) =
      (if 2 \<le> unat (w :: u64) \<and> unat w div 2 \<le> unat ?M then word_of_nat (unat w div 2) else (1 :: u32))"
    for w
    by (auto simp: Let_def word_le_nat_alt div2 up down simp del: of_nat_unat)
  have range: "1 \<le> W \<and> unat W \<le> max 1 (unat ?M)"
    if "W = (if 2 \<le> n \<and> n div 2 \<le> unat ?M then word_of_nat (n div 2) else (1 :: u32))" for W n
  proof (cases "2 \<le> n \<and> n div 2 \<le> unat ?M")
    case True
    then have "unat W = n div 2" using that unat_lt32 [of ?M] by (simp add: unat_of_nat)
    then show ?thesis using True by (auto simp: word_le_nat_alt)
  qed (use that in auto)
  have 1: "\<exists>W. map_of Words MI = Some W \<and> 1 \<le> W \<and> unat W \<le> max 1 (unat ?M)" if m: "(a, MI) \<in> set ?R" for a MI
  proof -
    obtain i where i: "i < length ?S" "?S ! i = (a, MI)" using m S(3) by (metis in_set_conv_nth)
    show ?thesis
      using wordsLoop_word [OF S(1,2) i(1), of ?M "[]"] i(2) range [OF refl] W
      by (auto simp: Words_def simp del: of_nat_unat split: if_splits)
  qed
  have 2: "map_of Words MI = Some
            (if 2 \<le> unat (b - a) \<and> unat (b - a) div 2 \<le> unat ?M
             then word_of_nat (unat (b - a) div 2) else 1)"
    if m: "(a, MI) \<in> set ?R" "(b, MI') \<in> set ?R" "a < b" "\<forall>(c, _) \<in> set ?R. \<not> (a < c \<and> c < b)" for a MI b MI'
  proof -
    obtain i where i: "i < length ?S" "?S ! i = (a, MI)" using m(1) S(3) by (metis in_set_conv_nth)
    have "Suc i < length (map fst ?S) \<and> map fst ?S ! Suc i = b"
      using m S(3) i by (intro sorted_next [OF lt]) (force simp: image_iff)+
    then have "Suc i < length ?S" "fst (?S ! Suc i) = b" by auto
    then show ?thesis
      using wordsLoop_word [OF S(1,2) i(1), of ?M "[]"] i(2) W [of "b - a"]
      by (simp add: Words_def)
  qed
  have 3: "map_of Words MI = Some 1" if m: "(a, MI) \<in> set ?R" "\<forall>(b, MI') \<in> set ?R. \<not> a < b" for a MI
  proof -
    obtain i where i: "i < length ?S" "?S ! i = (a, MI)" using m(1) S(3) by (metis in_set_conv_nth)
    have "\<forall>b \<in> set (map fst ?S). \<not> map fst ?S ! i < b" using m(2) S(3) i by auto
    then have "Suc i = length (map fst ?S)" using i(1) by (intro sorted_last [OF lt]) auto
    then show ?thesis using wordsLoop_word [OF S(1,2) i(1), of ?M "[]"] i(2) by (simp add: Words_def)
  qed
  show ?thesis
  proof (intro exI [of _ Words] conjI)
    show "computeInstructionWords MF T = Some Words" using assms(1) by (simp add: computeInstructionWords_def Words_def)
    show "dom (map_of Words) = snd ` set ?R" using dom_wordsLoop [of ?M ?S "[]"] S(3) by (simp add: Words_def)
  qed (use 1 2 3 in fast)
qed

text \<open>C19: The fetch length of an instruction is the gap to the next resolved address in 16-bit words
  when that is at least one word and at most the longest instruction of the target; a longer
  gap, and the last instruction of the function, count exactly one word (the comment says the count is
  capped to the longest instruction). Instructions without an address get no count. No two instructions
  of the function share an address or an identity.\<close>

theorem instruction_words:
  assumes "getTarget T = Some Target"
    and "distinct (map fst (resolvedInstrs MF T))" "distinct (map snd (resolvedInstrs MF T))"
  shows "\<exists>Words. computeInstructionWords MF T = Some Words \<and>
    dom (map_of Words) = snd ` set (resolvedInstrs MF T) \<and>
    (\<forall>(a, MI) \<in> set (resolvedInstrs MF T).
       (\<exists>W. map_of Words MI = Some W \<and> 1 \<le> W \<and> unat W \<le> max 1 (unat (rt_getMaxInstructionWords Target))) \<and>
       (\<forall>(b, MI') \<in> set (resolvedInstrs MF T). a < b \<and> (\<forall>(c, _) \<in> set (resolvedInstrs MF T). \<not> (a < c \<and> c < b)) \<longrightarrow>
          map_of Words MI = Some
            (if 2 \<le> unat (b - a) \<and> unat (b - a) div 2 \<le> unat (rt_getMaxInstructionWords Target)
             then word_of_nat (unat (b - a) div 2) else 1)) \<and>
       ((\<forall>(b, MI') \<in> set (resolvedInstrs MF T). \<not> a < b) \<longrightarrow> map_of Words MI = Some 1))"
  using assms by (rule word_counts)

definition words_block :: MachineBasicBlock where
  "words_block = \<lparr>mbb_id = 7, mbb_name = ''bb'',
     mbb_instrs = [demo_jump\<lparr>mi_id := 1\<rparr>, demo_jump\<lparr>mi_id := 2\<rparr>, demo_jump\<lparr>mi_id := 3\<rparr>],
     mbb_succs = [], mbb_preds = [], mbb_isReturnBlock = True, mbb_fallThrough = None\<rparr>"

definition words_fun :: MachineFunction where
  "words_fun = \<lparr>mf_function = 9, mf_name = ''f'', mf_blocks = [words_block]\<rparr>"

definition words_results :: TimingAnalysisResults where
  "words_results =
     newTAR\<lparr>ActiveTarget := Some MSP430FR5994Target,
       InstructionAddressMap := [1 \<mapsto> 0x4400, 2 \<mapsto> 0x4404, 3 \<mapsto> 0x440E]\<rparr>"

lemma words_resolved: "resolvedInstrs words_fun words_results = [(0x4400, 1), (0x4404, 2), (0x440E, 3)]"
  by (simp add: resolvedInstrs_def words_fun_def words_block_def words_results_def getInstructionAddress_def)

theorem instruction_words_witness:
  "\<exists>Words. computeInstructionWords words_fun words_results = Some Words \<and>
     map_of Words 1 = Some 2 \<and> map_of Words 2 = Some 1 \<and> map_of Words 3 = Some 1 \<and> dom (map_of Words) = {1, 2, 3}"
proof -
  have "getTarget words_results = Some MSP430FR5994Target"
    by (simp add: getTarget_def words_results_def)
  from instruction_words [OF this, of words_fun] show ?thesis
    by (auto simp: words_resolved MSP430FR5994Target_def MSP430Target_def)
qed

subsection \<open>Data accesses are never missed\<close>

lemma countOperands_length:
  "length MMOs + unat n < 2 ^ 32 \<Longrightarrow>
   unat (countOperands P MMOs n) = unat n + length (filter P MMOs)"
proof (induction MMOs arbitrary: n)
  case (Cons MMO MMOs)
  then have "unat (n + 1) = unat n + 1" by (simp add: unat_word_ariths)
  then show ?case using Cons by simp
qed simp

text \<open>A memory operand truly goes to FRAM or not; what the code takes for granted of it: the stack
  and the frame are in SRAM, and a global is where the linked image places it.\<close>

definition placed :: "(string \<Rightarrow> u64 option) \<Rightarrow> u64 \<Rightarrow> (MachineMemOperand \<Rightarrow> bool) \<Rightarrow> bool" where
  "placed Resolve FramStart in_fram \<longleftrightarrow>
     (\<forall>MMO. in_fram MMO \<longrightarrow>
        mmo_PseudoValue MMO \<noteq> Some PSV_Stack \<and> mmo_PseudoValue MMO \<noteq> Some PSV_FixedStack \<and>
        mmo_Value MMO \<noteq> Some UO_Alloca \<and>
        (\<forall>g a. mmo_Value MMO = Some (UO_Global g) \<and> Resolve g = Some a \<longrightarrow> FramStart \<le> a))"

lemma data_charged:
  assumes "mi_mayLoad MI \<or> mi_mayStore MI" "length (mi_memoperands MI) < 2 ^ 32"
    and "placed Resolve FramStart in_fram"
  shows "length (filter in_fram (mi_memoperands MI)) \<le> unat (framDataAccessWords MI FramStart Resolve) \<and>
    (mi_memoperands MI = [] \<longrightarrow> 1 \<le> framDataAccessWords MI FramStart Resolve) \<and>
    framDataAccessWords MI FramStart Resolve \<le> framDataAccessWords_stack MI"
proof (cases "mi_memoperands MI = []")
  case True
  then show ?thesis using assms(1)
    by (auto simp: framDataAccessWords_def framDataAccessWords_stack_def isProvablyStackOnly_def)
next
  case False
  let ?M = "mi_memoperands MI" and ?P = "\<lambda>MMO. \<not> isProvablyNonFRAMMemOperand MMO FramStart Resolve"
  have mono: "(\<And>x. P x \<Longrightarrow> Q x) \<Longrightarrow> length (filter P xs) \<le> length (filter Q xs)"
    for P Q and xs :: "MachineMemOperand list"
    by (induction xs) (auto intro: le_SucI)
  have n: "unat (framDataAccessWords MI FramStart Resolve) = length (filter ?P ?M)"
    using False assms(1,2) countOperands_length [of ?M 0 ?P] by (auto simp: framDataAccessWords_def)
  have "in_fram MMO \<Longrightarrow> ?P MMO" for MMO
    using assms(3) by (auto simp: placed_def isProvablyNonFRAMMemOperand_def isStackMemOperand_def not_less
        split: option.splits UnderlyingObject.splits)
  then have 1: "length (filter in_fram ?M) \<le> length (filter ?P ?M)" by (rule mono)
  have 2: "length (filter ?P ?M) \<le> length (filter (\<lambda>MMO. \<not> isStackMemOperand MMO) ?M)"
    by (rule mono) (simp add: isProvablyNonFRAMMemOperand_def split: if_splits)
  have "unat (framDataAccessWords_stack MI) = length (filter (\<lambda>MMO. \<not> isStackMemOperand MMO) ?M)"
    using False assms(1,2) countOperands_length [of ?M 0 "\<lambda>MMO. \<not> isStackMemOperand MMO"]
    by (auto simp: framDataAccessWords_stack_def isProvablyStackOnly_def list_all_iff)
  then show ?thesis using n 1 2 False by (simp add: word_le_nat_alt)
qed

text \<open>C15: No data access to FRAM goes uncharged: the words charged for an instruction that loads or
  stores are at least its memory operands that go to FRAM, and at least one word when LLVM
  reports no operand; resolving addresses only ever lowers the count of the rule that knows the
  stack alone. The operands are fewer than \<open>2 ^ 32\<close>, and those that go to FRAM are not what the code
  takes for SRAM: stack and frame, an alloca, a global linked below the FRAM.\<close>

theorem data_access_charged:
  assumes "mi_mayLoad MI \<or> mi_mayStore MI" "length (mi_memoperands MI) < 2 ^ 32"
    and "placed Resolve FramStart in_fram"
  shows "length (filter in_fram (mi_memoperands MI)) \<le> unat (framDataAccessWords MI FramStart Resolve) \<and>
    (mi_memoperands MI = [] \<longrightarrow> 1 \<le> framDataAccessWords MI FramStart Resolve) \<and>
    framDataAccessWords MI FramStart Resolve \<le> framDataAccessWords_stack MI"
  using assms by (rule data_charged)

definition tab_load :: MachineInstr where
  "tab_load = demo_jump\<lparr>mi_mayLoad := True, mi_memoperands :=
      [\<lparr>mmo_PseudoValue = None, mmo_Value = Some (UO_Global ''tab'')\<rparr>,
       \<lparr>mmo_PseudoValue = Some PSV_Stack, mmo_Value = None\<rparr>]\<rparr>"

theorem data_access_charged_witness:
  "1 \<le> unat (framDataAccessWords tab_load 0x4000 (\<lambda>_. Some 0x5000)) \<and>
   framDataAccessWords tab_load 0x4000 (\<lambda>_. Some 0x5000) \<le> framDataAccessWords_stack tab_load"
  using data_access_charged [where MI = tab_load and FramStart = "0x4000" and Resolve = "\<lambda>_. Some 0x5000"
      and in_fram = "\<lambda>M. M = \<lparr>mmo_PseudoValue = None, mmo_Value = Some (UO_Global ''tab'')\<rparr>"]
  by (simp add: placed_def tab_load_def)

end
