(* ===== verification/FRAMPasses.thy ===== *)
theory FRAMPasses
  imports MemoryWords CacheFixpoint
begin

text \<open>
  The passes that put cycles on blocks: the base latencies (\<open>InstructionLatencyPass.cpp\<close>), the
  wait states of uncached FRAM (\<open>FRAMWaitStatePass.cpp\<close>) and the cache-aware penalty
  (\<open>FRAMCacheAnalysisPass.cpp\<close>). Each reads and writes the latency map of the shared results.
  What a pass prints is not modelled, except the penalty sum and the always-miss reports.
\<close>

subsection \<open>Base latencies\<close>

fun blockLatency :: "RTTarget \<Rightarrow> MachineInstr list \<Rightarrow> u32 \<Rightarrow> u32 option" where
  "blockLatency Target [] Latency = Some Latency"
| "blockLatency Target (MI # MIs) Latency =
     (if mi_isMeta MI then blockLatency Target MIs Latency
      else do {
        InstructionLatency \<leftarrow> rt_getInstructionLatency Target MI;
        blockLatency Target MIs (Latency + InstructionLatency)
      })"

text \<open>The pass keeps its own map over all functions; a block already in it fails an assertion.\<close>

fun latencyBlocks ::
  "RTTarget \<Rightarrow> MachineBasicBlock list \<Rightarrow> (ptr \<rightharpoonup> u32) \<Rightarrow> (ptr \<rightharpoonup> u32) option" where
  "latencyBlocks Target [] Map = Some Map"
| "latencyBlocks Target (MBB # MBBs) Map = do {
     Latency \<leftarrow> blockLatency Target (mbb_instrs MBB) 0;
     if Map (mbb_id MBB) \<noteq> None then None
     else latencyBlocks Target MBBs (Map(mbb_id MBB \<mapsto> Latency))
   }"

definition InstructionLatency_run ::
  "MachineFunction \<Rightarrow> (ptr \<rightharpoonup> u32) \<times> TimingAnalysisResults
   \<Rightarrow> ((ptr \<rightharpoonup> u32) \<times> TimingAnalysisResults) option" where
  "InstructionLatency_run F st = do {
     Target \<leftarrow> getTarget (snd st);
     Map \<leftarrow> latencyBlocks Target (mf_blocks F) (fst st);
     Some (Map, setMBBLatencyMap Map (snd st))
   }"

text \<open>\<open>AsmDumpAndCheckPass\<close>: every instruction that is not a meta instruction is checked; one the
  target rejects fails an assertion.\<close>

definition AsmDumpAndCheck_run :: "MachineFunction \<Rightarrow> TimingAnalysisResults \<Rightarrow> bool option" where
  "AsmDumpAndCheck_run F T = do {
     Target \<leftarrow> getTarget T;
     if list_all (\<lambda>MI. mi_isMeta MI \<or> rt_checkInstruction Target (mi_opcode MI) = Accepted) (mf_instrs F)
     then Some False else None
   }"

subsection \<open>Wait states\<close>

fun waitPenalty ::
  "u32 \<Rightarrow> u64 \<Rightarrow> TimingAnalysisResults \<Rightarrow> (ptr \<times> u32) list \<Rightarrow> (ptr \<times> u32) list
   \<Rightarrow> MachineInstr list \<Rightarrow> u32 \<Rightarrow> u32 option" where
  "waitPenalty WaitStates FramStart T Words DataWords [] Penalty = Some Penalty"
| "waitPenalty WaitStates FramStart T Words DataWords (MI # MIs) Penalty =
     (let P1 = (case map_of DataWords (mi_id MI) of
                  Some n \<Rightarrow> Penalty + WaitStates * n | None \<Rightarrow> Penalty)
      in case map_of Words (mi_id MI) of
           None \<Rightarrow> waitPenalty WaitStates FramStart T Words DataWords MIs P1
         | Some n \<Rightarrow> do {
             Addr \<leftarrow> getInstructionAddress T (mi_id MI);
             waitPenalty WaitStates FramStart T Words DataWords MIs
               (if Addr \<ge> FramStart then P1 + WaitStates * n else P1)
           })"

text \<open>\<open>Map[&MBB] += Penalty\<close>: an absent entry counts as 0.\<close>

definition addPenalty :: "ptr \<Rightarrow> u32 \<Rightarrow> (ptr \<rightharpoonup> u32) \<times> u32 \<Rightarrow> (ptr \<rightharpoonup> u32) \<times> u32" where
  "addPenalty B Penalty st =
     (if Penalty \<noteq> 0
      then ((fst st)(B \<mapsto> (case fst st B of Some l \<Rightarrow> l | None \<Rightarrow> 0) + Penalty), snd st + Penalty)
      else st)"

fun waitBlocks ::
  "u32 \<Rightarrow> u64 \<Rightarrow> TimingAnalysisResults \<Rightarrow> (ptr \<times> u32) list \<Rightarrow> (ptr \<times> u32) list
   \<Rightarrow> MachineBasicBlock list \<Rightarrow> (ptr \<rightharpoonup> u32) \<times> u32 \<Rightarrow> ((ptr \<rightharpoonup> u32) \<times> u32) option" where
  "waitBlocks WaitStates FramStart T Words DataWords [] st = Some st"
| "waitBlocks WaitStates FramStart T Words DataWords (MBB # MBBs) st = do {
     Penalty \<leftarrow> waitPenalty WaitStates FramStart T Words DataWords (mbb_instrs MBB) 0;
     waitBlocks WaitStates FramStart T Words DataWords MBBs (addPenalty (mbb_id MBB) Penalty st)
   }"

definition FRAMWaitState_run ::
  "Options \<Rightarrow> MachineFunction \<Rightarrow> TimingAnalysisResults \<Rightarrow> (TimingAnalysisResults \<times> u32) option" where
  "FRAMWaitState_run Opt F T =
     (if FRAMWaitStates Opt = 0 \<or> \<not> hasFRAMStart T \<or> FRAMCache Opt then Some (T, 0)
      else do {
        FramStart \<leftarrow> getFRAMStart T;
        Words \<leftarrow> computeInstructionWords F T;
        if Words = [] then Some (T, 0)
        else do {
          DataWords \<leftarrow> computeDataAccessWords F T;
          Map \<leftarrow> getMBBLatencyMap T;
          (Map', FuncPenalty) \<leftarrow>
            waitBlocks (FRAMWaitStates Opt) FramStart T Words DataWords (mf_blocks F) (Map, 0);
          Some (setMBBLatencyMap Map' T, FuncPenalty)
        }
      })"

subsection \<open>The cache-aware penalty\<close>

text \<open>The costs the solver left on the nodes, added to the map in the order of the nodes.\<close>

fun foldCosts :: "(nat \<times> 's ASGNode) list \<Rightarrow> (ptr \<rightharpoonup> u32) \<times> u32 \<Rightarrow> (ptr \<rightharpoonup> u32) \<times> u32" where
  "foldCosts [] st = st"
| "foldCosts ((i, N) # Ns) st =
     foldCosts Ns (case asg_MBB N of Some MBB \<Rightarrow> addPenalty (mbb_id MBB) (Cost N) st | None \<Rightarrow> st)"

definition mustCosts ::
  "'s ReplacementPolicy \<Rightarrow> CacheGeometry \<Rightarrow> u32 \<Rightarrow> (MachineInstr \<Rightarrow> CacheEvent list)
   \<Rightarrow> MachineFunction \<Rightarrow> (ptr \<rightharpoonup> u32) \<Rightarrow> ((ptr \<rightharpoonup> u32) \<times> u32) option" where
  "mustCosts Policy Geo LineFill Mapper' F Map = do {
     Solver \<leftarrow> run_MF (cacheAnalysable (mustAnalysis Policy Geo LineFill Mapper')) F None None newSolver;
     Some (foldCosts (asg_Nodes (ws_Graph Solver)) (Map, 0))
   }"

text \<open>\<open>makeMustPolicy\<close> and the run with the policy it makes; the policies have states of different
  types.\<close>

definition runMustPolicy ::
  "string \<Rightarrow> CacheGeometry \<Rightarrow> u32 \<Rightarrow> (MachineInstr \<Rightarrow> CacheEvent list)
   \<Rightarrow> MachineFunction \<Rightarrow> (ptr \<rightharpoonup> u32) \<Rightarrow> ((ptr \<rightharpoonup> u32) \<times> u32) option" where
  "runMustPolicy Policy Geo =
     (if Policy = ''lru'' then mustCosts (LRUPolicy (Ways Geo)) Geo
      else if Policy = ''fifo'' then mustCosts (FIFOPolicy (Ways Geo)) Geo
      else mustCosts UnknownPolicy Geo)"

text \<open>The always-miss reports of the may analysis: every block is replayed from its entry state,
  and a miss is reported once per line and block name.\<close>

definition mayAnalysis ::
  "CacheGeometry \<Rightarrow> u32 \<Rightarrow> (MachineInstr \<Rightarrow> CacheEvent list) \<Rightarrow> bool
   \<Rightarrow> (AgeSetState, MachineInstr) CacheAnalysis" where
  "mayAnalysis Geo LineFill Mapper' sink =
     \<lparr>ca_Geo = Geo, MissPenalty = LineFill, ca_Policy = LRUPolicy (Ways Geo), Mapper = Mapper',
      ca_Kind = May, Sink = sink\<rparr>"

fun replayBlock ::
  "(AgeSetState, MachineInstr) CacheAnalysis \<Rightarrow> MachineInstr list \<Rightarrow> AgeSetState CacheState \<Rightarrow> u64 list" where
  "replayBlock An [] In = []"
| "replayBlock An (MI # MIs) In =
     (let (c, Out, Misses) = ca_process An In MI in map snd Misses @ replayBlock An MIs Out)"

fun reportNew :: "string \<Rightarrow> u64 list \<Rightarrow> (string \<times> u64) list \<Rightarrow> (string \<times> u64) list" where
  "reportNew B [] Reported = Reported"
| "reportNew B (L # Ls) Reported =
     reportNew B Ls (if (B, L) \<in> set Reported then Reported else Reported @ [(B, L)])"

fun replayNodes ::
  "(AgeSetState, MachineInstr) CacheAnalysis \<Rightarrow> AgeSetState CacheState AbstractStateGraph
   \<Rightarrow> (nat \<times> AgeSetState CacheState ASGNode) list \<Rightarrow> (string \<times> u64) list \<Rightarrow> (string \<times> u64) list" where
  "replayNodes An G [] Reported = Reported"
| "replayNodes An G ((i, N) # Ns) Reported =
     (case asg_MBB N of
        None \<Rightarrow> replayNodes An G Ns Reported
      | Some MBB \<Rightarrow>
          (let In = joinPreds (cacheAnalysable An) G (asg_getPredecessors G (asg_Id N)) True
                      (ca_getInitialState An)
           in replayNodes An G Ns
                (reportNew (mbb_name MBB) (replayBlock An (mbb_instrs MBB) In) Reported)))"

definition reportAlwaysMiss ::
  "CacheGeometry \<Rightarrow> u32 \<Rightarrow> (MachineInstr \<Rightarrow> CacheEvent list) \<Rightarrow> MachineFunction
   \<Rightarrow> (string \<times> u64) list option" where
  "reportAlwaysMiss Geo LineFill Mapper' F = do {
     Solver \<leftarrow> run_MF (cacheAnalysable (mayAnalysis Geo LineFill Mapper' False)) F None None newSolver;
     Some (replayNodes (mayAnalysis Geo LineFill Mapper' True) (ws_Graph Solver)
             (asg_Nodes (ws_Graph Solver)) [])
   }"

definition optGeometry :: "Options \<Rightarrow> CacheGeometry" where
  "optGeometry Opt =
     \<lparr>NumSets = FRAMCacheSets Opt, Ways = FRAMCacheWays Opt, LineBytes = FRAMCacheLineBytes Opt\<rparr>"

definition FRAMCache_run ::
  "Options \<Rightarrow> MachineFunction \<Rightarrow> TimingAnalysisResults
   \<Rightarrow> (TimingAnalysisResults \<times> u32 \<times> (string \<times> u64) list) option" where
  "FRAMCache_run Opt F T =
     (if \<not> FRAMCache Opt \<or> FRAMWaitStates Opt = 0 \<or> \<not> hasFRAMStart T then Some (T, 0, [])
      else if \<not> isValid (optGeometry Opt) then Some (T, 0, [])
      else do {
        Words \<leftarrow> computeInstructionWords F T;
        DataWords \<leftarrow> computeDataAccessWords F T;
        let mapper = mapEvents T (optGeometry Opt) Words DataWords (FRAMWaitStates Opt);
        Map \<leftarrow> getMBBLatencyMap T;
        (Map', FuncPenalty) \<leftarrow>
          runMustPolicy (FRAMCachePolicy Opt) (optGeometry Opt) (FRAMLineFillCycles Opt) mapper F Map;
        Reports \<leftarrow> (if FRAMCacheVerbose Opt
                    then reportAlwaysMiss (optGeometry Opt) (FRAMLineFillCycles Opt) mapper F
                    else Some []);
        Some (setMBBLatencyMap Map' T, FuncPenalty, Reports)
      })"

subsection \<open>The penalties reach the blocks they were computed for\<close>

lemma foldCosts_other:
  "b \<notin> {mbb_id MBB | i N MBB. (i, N) \<in> set Ns \<and> asg_MBB N = Some MBB} \<Longrightarrow>
   fst (foldCosts Ns st) b = fst st b"
proof (induction Ns arbitrary: st)
  case (Cons P Ns)
  obtain i N where P: "P = (i, N)" by force
  have "b \<notin> {mbb_id MBB | i N MBB. (i, N) \<in> set Ns \<and> asg_MBB N = Some MBB}" using Cons.prems by (auto simp: P)
  moreover have "asg_MBB N = Some MBB \<Longrightarrow> b \<noteq> mbb_id MBB" for MBB using Cons.prems by (fastforce simp: P)
  ultimately show ?case
    using Cons.IH by (auto simp: P addPenalty_def split: option.splits)
qed simp

lemma foldCosts_node:
  assumes "(i, N) \<in> set Ns" "asg_MBB N = Some MBB" "distinct (map fst Ns)"
    and "\<And>j K B. (j, K) \<in> set Ns \<Longrightarrow> asg_MBB K = Some B \<Longrightarrow> mbb_id B = mbb_id MBB \<Longrightarrow> j = i"
    and "fst st (mbb_id MBB) = Some l"
  shows "fst (foldCosts Ns st) (mbb_id MBB) = Some (l + Cost N)"
  using assms
proof (induction Ns arbitrary: st)
  case (Cons P Ns)
  obtain j K where P: "P = (j, K)" by force
  show ?case
  proof (cases "j = i")
    case True
    then have K: "K = N" using Cons.prems(1,3) by (force simp: P)
    have "mbb_id MBB \<notin> {mbb_id B | i N B. (i, N) \<in> set Ns \<and> asg_MBB N = Some B}"
    proof
      assume "mbb_id MBB \<in> {mbb_id B | i N B. (i, N) \<in> set Ns \<and> asg_MBB N = Some B}"
      then obtain k L B where k: "(k, L) \<in> set Ns" "asg_MBB L = Some B" "mbb_id B = mbb_id MBB" by force
      then have "k = i" using Cons.prems(4) by (force simp: P)
      then show False using k(1) Cons.prems(3) True by (force simp: P)
    qed
    then show ?thesis
      using foldCosts_other [of "mbb_id MBB" Ns] Cons.prems(2,5) by (simp add: P K addPenalty_def)
  next
    case False
    have "fst (case asg_MBB K of Some B \<Rightarrow> addPenalty (mbb_id B) (Cost K) st | None \<Rightarrow> st) (mbb_id MBB) = Some l"
      using Cons.prems(4) [of j K] Cons.prems(5) False
      by (auto simp: P addPenalty_def split: option.splits)
    moreover have "(i, N) \<in> set Ns" "distinct (map fst Ns)" using Cons.prems(1,3) False by (auto simp: P)
    moreover have "k = i" if "(k, L) \<in> set Ns" "asg_MBB L = Some B" "mbb_id B = mbb_id MBB" for k L B
      using Cons.prems(4) that by (metis list.set_intros(2))
    ultimately show ?thesis
      unfolding P foldCosts.simps using Cons.prems(2) by (intro Cons.IH)
  qed
qed simp

lemma mustCosts_blocks:
  assumes "mf_wf F" "run_MF (cacheAnalysable (mustAnalysis P Geo fill mapper)) F None None newSolver = Some S"
    and "\<forall>B \<in> set (mf_blocks F). Map (mbb_id B) \<noteq> None"
  shows "\<exists>Map' pen. mustCosts P Geo fill mapper F Map = Some (Map', pen) \<and>
    (\<forall>m < length (mf_blocks F).
       Map' (mbb_id (mf_blocks F ! m)) = Some (the (Map (mbb_id (mf_blocks F ! m))) + nodeCost (ws_Graph S) m))"
proof -
  let ?G = "ws_Graph S"
  have m: "mirrors F ?G" by (rule run_MF_mirrors [OF assms(1,2)])
  have keys: "distinct (map fst (asg_Nodes ?G))"
    using m omap_ok_distinct by (auto simp: mirrors_def asg_wf_def)
  have node: "(j, K) \<in> set (asg_Nodes ?G) \<longleftrightarrow> asg_getNode ?G j = Some K" for j K
    using m by (simp add: mirrors_def asg_wf_def asg_getNode_def omap_ok_map_of)
  have blk: "j < length (mf_blocks F) \<and> asg_MBB K = Some (mf_blocks F ! j)" if "(j, K) \<in> set (asg_Nodes ?G)" for j K
  proof -
    have "j \<in> asg_ids ?G" using that by (simp add: node asg_ids_def)
    then have "j < length (mf_blocks F)" using m by (simp add: mirrors_def)
    moreover from this have "nodeMBB ?G j = Some (mf_blocks F ! j)" using m by (simp add: mirrors_def)
    ultimately show ?thesis using that by (simp add: node nodeMBB_def)
  qed
  have d: "distinct (map mbb_id (mf_blocks F))" using assms(1) by (simp add: mf_wf_def)
  have "fst (foldCosts (asg_Nodes ?G) (Map, 0)) (mbb_id (mf_blocks F ! i)) =
      Some (the (Map (mbb_id (mf_blocks F ! i))) + nodeCost ?G i)" if i: "i < length (mf_blocks F)" for i
  proof -
    have "i \<in> asg_ids ?G" using m i by (simp add: mirrors_def)
    then obtain N where N: "(i, N) \<in> set (asg_Nodes ?G)" "nodeCost ?G i = Cost N"
      by (auto simp: asg_ids_def node nodeCost_def)
    obtain l where l: "Map (mbb_id (mf_blocks F ! i)) = Some l" using assms(3) i by fastforce
    have "fst (foldCosts (asg_Nodes ?G) (Map, 0)) (mbb_id (mf_blocks F ! i)) = Some (l + Cost N)"
    proof (rule foldCosts_node [OF N(1) _ keys])
      show "asg_MBB N = Some (mf_blocks F ! i)" using blk [OF N(1)] by simp
      show "j = i" if "(j, K) \<in> set (asg_Nodes ?G)" "asg_MBB K = Some B" "mbb_id B = mbb_id (mf_blocks F ! i)"
        for j K B
        using blk [OF that(1)] that(2,3) i d by (auto simp: distinct_conv_nth)
    qed (simp add: l)
    then show ?thesis by (simp add: l N(2))
  qed
  then show ?thesis using assms(2)
    by (intro exI [of _ "fst (foldCosts (asg_Nodes ?G) (Map, 0))"]
        exI [of _ "snd (foldCosts (asg_Nodes ?G) (Map, 0))"]) (simp add: mustCosts_def)
qed

subsection \<open>What the hardware does\<close>

text \<open>The linked image, as it is and not as the pass computes it: where an instruction lies, how many
  16-bit words it has (0 for one that makes no code) and which memory operands go to FRAM.\<close>

record LinkedImage =
  li_Address :: "ptr \<Rightarrow> u64"
  li_Words :: "ptr \<Rightarrow> nat"
  li_inFRAM :: "MachineMemOperand \<Rightarrow> bool"

text \<open>The lines an instruction fetches, and how many of its data accesses go to FRAM: its operands
  there, or up to one load and one store when LLVM lists none.\<close>

definition fetched :: "CacheGeometry \<Rightarrow> u64 \<Rightarrow> LinkedImage \<Rightarrow> MachineInstr \<Rightarrow> u64 list" where
  "fetched Geo FramStart Img MI =
     map (lineId Geo) (filter (\<lambda>a. FramStart \<le> a)
       (map (\<lambda>w. li_Address Img (mi_id MI) + 2 * of_nat w) [0..<li_Words Img (mi_id MI)]))"

definition data_count :: "LinkedImage \<Rightarrow> MachineInstr \<Rightarrow> nat \<Rightarrow> bool" where
  "data_count Img MI d \<longleftrightarrow>
     (if \<not> mi_mayLoad MI \<and> \<not> mi_mayStore MI then d = 0
      else if mi_memoperands MI = [] then d \<le> (if mi_mayLoad MI then 1 else 0) + (if mi_mayStore MI then 1 else 0)
      else d = length (filter (li_inFRAM Img) (mi_memoperands MI)))"

text \<open>An instruction fetches its words through the cache, whose replacement is unknown, and then makes its
  data accesses, each at most the wait states long; these go through the same cache and may leave
  anything in it. So may the code a call runs.\<close>

inductive hw_exec ::
  "CacheGeometry \<Rightarrow> nat \<Rightarrow> nat \<Rightarrow> u64 \<Rightarrow> LinkedImage \<Rightarrow> MachineInstr
   \<Rightarrow> (nat \<Rightarrow> u64 set) \<Rightarrow> nat \<Rightarrow> (nat \<Rightarrow> u64 set) \<Rightarrow> bool"
  for Geo pen WaitStates FramStart Img where
  "cache_run Geo pen (\<lambda>R. True) (\<lambda>R l. l \<in> R) adversary f (map Access (fetched Geo FramStart Img MI)) n g \<Longrightarrow>
   data_count Img MI d \<Longrightarrow> w \<le> WaitStates * d \<Longrightarrow> (d = 0 \<and> \<not> mi_isCall MI \<longrightarrow> h = g) \<Longrightarrow>
   hw_exec Geo pen WaitStates FramStart Img MI f (n + w) h"

inductive_cases hw_execE: "hw_exec Geo pen WaitStates FramStart Img MI f k h"

text \<open>The resolved addresses are those of the image and its code is without gaps: every instruction that makes
  code is resolved and at most the longest of the target; the next address follows its last word, and the
  last instruction of the function has one word.\<close>

definition image_layout :: "MachineFunction \<Rightarrow> TimingAnalysisResults \<Rightarrow> nat \<Rightarrow> LinkedImage \<Rightarrow> bool" where
  "image_layout F T MaxWords Img \<longleftrightarrow>
     distinct (map mi_id (mf_instrs F)) \<and> distinct (map fst (resolvedInstrs F T)) \<and>
     (\<forall>MI \<in> set (mf_instrs F). case getInstructionAddress T (mi_id MI) of
        Some a \<Rightarrow> a = li_Address Img (mi_id MI) \<and> 1 \<le> li_Words Img (mi_id MI) \<and> li_Words Img (mi_id MI) \<le> MaxWords
      | None \<Rightarrow> li_Words Img (mi_id MI) = 0) \<and>
     (\<forall>(a, k) \<in> set (resolvedInstrs F T).
        (\<exists>(b, k') \<in> set (resolvedInstrs F T). unat b = unat a + 2 * li_Words Img k \<and>
           (\<forall>(c, _) \<in> set (resolvedInstrs F T). \<not> (a < c \<and> c < b))) \<or>
        (\<forall>(b, k') \<in> set (resolvedInstrs F T). \<not> a < b) \<and> li_Words Img k = 1)"

text \<open>The operands fit a machine integer, and so does their charge.\<close>

definition charges_fit :: "nat \<Rightarrow> MachineFunction \<Rightarrow> bool" where
  "charges_fit WaitStates F \<longleftrightarrow>
     (\<forall>MI \<in> set (mf_instrs F). length (mi_memoperands MI) < 2 ^ 32 \<and>
        WaitStates * max 2 (length (mi_memoperands MI)) < 2 ^ 32)"

definition call_free :: "MachineFunction \<Rightarrow> (nat \<times> nat) list \<Rightarrow> bool" where
  "call_free F p \<longleftrightarrow> (\<forall>(m, l) \<in> set p. list_all (\<lambda>MI. \<not> mi_isCall MI) (mbb_instrs (mf_blocks F ! m)))"

subsection \<open>The events of the pass are those of the hardware\<close>

lemma cache_run_append:
  "cache_run Geo pen v r t f Es n g \<Longrightarrow> cache_run Geo pen v r t g Es' m h \<Longrightarrow>
   cache_run Geo pen v r t f (Es @ Es') (n + m) h"
proof (induction rule: cache_run.induct)
  case (run_access i L f c Es n g)
  then show ?case using cache_run.run_access [OF run_access.hyps(1,2) run_access.IH] by (simp add: add.assoc)
next
  case (run_barrier k W f' Es n g f)
  then show ?case using cache_run.run_barrier [where Es = "Es @ Es'" and n = "n + m" and g = h] by (simp add: add.assoc)
qed simp

lemma fetchEvents_eq:
  "fetchEvents Geo FramStart a Ws =
   map Access (map (lineId Geo) (filter (\<lambda>a. FramStart \<le> a) (map (\<lambda>w. a + 2 * of_nat w) Ws)))"
  by (induction Ws) (simp_all add: Let_def)

lemma resolved_ids:
  "map snd (resolvedInstrs F T) = filter (\<lambda>k. getInstructionAddress T k \<noteq> None) (map mi_id (mf_instrs F))"
proof -
  have i: "map snd (concat (map (\<lambda>MI. case getInstructionAddress T (mi_id MI) of Some a \<Rightarrow> [(a, mi_id MI)] | None \<Rightarrow> []) MIs)) =
      filter (\<lambda>k. getInstructionAddress T k \<noteq> None) (map mi_id MIs)" for MIs
    by (induction MIs) (auto split: option.split)
  have "map snd (concat (map (\<lambda>B. concat (map (\<lambda>MI. case getInstructionAddress T (mi_id MI) of
      Some a \<Rightarrow> [(a, mi_id MI)] | None \<Rightarrow> []) (mbb_instrs B))) Bs)) =
      filter (\<lambda>k. getInstructionAddress T k \<noteq> None) (map mi_id (concat (map mbb_instrs Bs)))" for Bs
    by (induction Bs) (simp_all add: i)
  then show ?thesis by (simp add: resolvedInstrs_def mf_instrs_def)
qed

lemma resolved_mem:
  "(a, k) \<in> set (resolvedInstrs F T) \<longleftrightarrow> k \<in> mi_id ` set (mf_instrs F) \<and> getInstructionAddress T k = Some a"
  by (force simp: resolvedInstrs_def mf_instrs_def split: option.splits)

text \<open>The counts of the pass are the lengths of the image.\<close>

lemma image_words:
  assumes "getTarget T = Some Target" "image_layout F T (unat (rt_getMaxInstructionWords Target)) Img"
    and "computeInstructionWords F T = Some Words" "MI \<in> set (mf_instrs F)"
  shows "case (map_of Words (mi_id MI), getInstructionAddress T (mi_id MI)) of
      (Some n, Some a) \<Rightarrow> unat n = li_Words Img (mi_id MI) \<and> a = li_Address Img (mi_id MI)
    | _ \<Rightarrow> li_Words Img (mi_id MI) = 0"
proof (cases "getInstructionAddress T (mi_id MI)")
  case None
  then have "li_Words Img (mi_id MI) = 0" using assms(2,4) unfolding image_layout_def by fastforce
  then show ?thesis using None by (simp split: option.split)
next
  case (Some a)
  let ?k = "mi_id MI" and ?R = "resolvedInstrs F T" and ?M = "unat (rt_getMaxInstructionWords Target)"
  have m: "(a, ?k) \<in> set ?R" using assms(4) Some by (auto simp: resolved_mem)
  have l: "a = li_Address Img ?k" "1 \<le> li_Words Img ?k" "li_Words Img ?k \<le> ?M"
    using assms(2,4) Some unfolding image_layout_def by force+
  have d: "distinct (map fst ?R)" "distinct (map snd ?R)"
    using assms(2) by (simp_all add: image_layout_def resolved_ids distinct_map)
  obtain Ws where Ws: "computeInstructionWords F T = Some Ws"
    "\<forall>(a, MI) \<in> set ?R.
       (\<exists>W. map_of Ws MI = Some W \<and> 1 \<le> W \<and> unat W \<le> max 1 ?M) \<and>
       (\<forall>(b, MI') \<in> set ?R. a < b \<and> (\<forall>(c, _) \<in> set ?R. \<not> (a < c \<and> c < b)) \<longrightarrow>
          map_of Ws MI = Some (if 2 \<le> unat (b - a) \<and> unat (b - a) div 2 \<le> ?M
             then word_of_nat (unat (b - a) div 2) else 1)) \<and>
       ((\<forall>(b, MI') \<in> set ?R. \<not> a < b) \<longrightarrow> map_of Ws MI = Some 1)"
    using word_counts [OF assms(1) d] by blast
  have "Ws = Words" using Ws(1) assms(3) by simp
  note at = bspec [OF Ws(2) m, unfolded prod.case this]
  have W: "map_of Words ?k = Some (if 2 \<le> unat (b - a) \<and> unat (b - a) div 2 \<le> ?M
             then word_of_nat (unat (b - a) div 2) else 1)"
    if b: "(b, k') \<in> set ?R" "a < b" "\<forall>(c, _) \<in> set ?R. \<not> (a < c \<and> c < b)" for b k'
    using bspec [OF conjunct1 [OF conjunct2 [OF at]] b(1), unfolded prod.case] b(2,3) by blast
  have W1: "map_of Words ?k = Some 1" if "\<forall>(b, k') \<in> set ?R. \<not> a < b"
    using conjunct2 [OF conjunct2 [OF at]] that by blast
  from assms(2) m have "(\<exists>(b, k') \<in> set ?R. unat b = unat a + 2 * li_Words Img ?k \<and>
      (\<forall>(c, _) \<in> set ?R. \<not> (a < c \<and> c < b))) \<or> (\<forall>(b, k') \<in> set ?R. \<not> a < b) \<and> li_Words Img ?k = 1"
    unfolding image_layout_def by blast
  then have "map_of Words ?k = Some (word_of_nat (li_Words Img ?k))"
  proof
    assume "\<exists>(b, k') \<in> set ?R. unat b = unat a + 2 * li_Words Img ?k \<and> (\<forall>(c, _) \<in> set ?R. \<not> (a < c \<and> c < b))"
    then obtain b k' where b: "(b, k') \<in> set ?R" "unat b = unat a + 2 * li_Words Img ?k"
      "\<forall>(c, _) \<in> set ?R. \<not> (a < c \<and> c < b)" by blast
    have lt: "a < b" using b(2) l(2) by (simp add: word_less_nat_alt)
    then have "a \<le> b" by simp
    then have "unat (b - a) = 2 * li_Words Img ?k" using b(2) by (simp add: unat_sub)
    then show ?thesis using W [OF b(1) lt b(3)] l(2,3) by simp
  qed (use W1 in simp)
  moreover have "unat (word_of_nat (li_Words Img ?k) :: u32) = li_Words Img ?k"
    using l(3) unat_lt32 [of "rt_getMaxInstructionWords Target"] by (simp add: unat_of_nat)
  ultimately show ?thesis using Some l(1) by simp
qed

lemma dataWordsLoop_other:
  "k \<notin> mi_id ` set MIs \<Longrightarrow> map_of (dataWordsLoop FS R MIs DW) k = map_of DW k"
  by (induction MIs arbitrary: DW) (auto simp: Let_def)

lemma dataWordsLoop_at:
  "distinct (map mi_id MIs) \<Longrightarrow> MI \<in> set MIs \<Longrightarrow> map_of DW (mi_id MI) = None \<Longrightarrow>
   map_of (dataWordsLoop FS R MIs DW) (mi_id MI) =
     (if framDataAccessWords MI FS R \<noteq> 0 then Some (framDataAccessWords MI FS R) else None)"
proof (induction MIs arbitrary: DW)
  case (Cons M MIs)
  show ?case
  proof (cases "M = MI")
    case True
    then have "mi_id MI \<notin> mi_id ` set MIs" using Cons.prems(1) by simp
    then show ?thesis using True Cons.prems(3) by (simp add: Let_def dataWordsLoop_other)
  next
    case False
    then have m: "MI \<in> set MIs" "mi_id M \<noteq> mi_id MI" using Cons.prems(1,2) by auto
    then show ?thesis using Cons.IH [OF _ m(1)] Cons.prems(1,3) by (simp add: Let_def)
  qed
qed simp

lemma data_words_cover:
  assumes "placed Resolve FramStart (li_inFRAM Img)" "length (mi_memoperands MI) < 2 ^ 32" "data_count Img MI d"
  shows "d \<le> unat (framDataAccessWords MI FramStart Resolve)"
    "unat (framDataAccessWords MI FramStart Resolve) \<le> max 2 (length (mi_memoperands MI))"
proof -
  let ?n = "unat (framDataAccessWords MI FramStart Resolve)"
  have "d \<le> ?n" if "mi_memoperands MI = []"
    using assms(3) that by (auto simp: data_count_def framDataAccessWords_def split: if_splits)
  moreover have "d \<le> ?n" if "mi_memoperands MI \<noteq> []"
    using assms(3) that data_charged [OF _ assms(2,1)] by (auto simp: data_count_def split: if_splits)
  ultimately show "d \<le> ?n" by blast
  have "length (filter P (mi_memoperands MI)) \<le> max 2 (length (mi_memoperands MI))" for P
    using length_filter_le [of P "mi_memoperands MI"] by linarith
  then show "?n \<le> max 2 (length (mi_memoperands MI))"
    using countOperands_length [of "mi_memoperands MI" 0] assms(2) by (auto simp: framDataAccessWords_def)
qed

lemma hw_simulated:
  assumes layout: "getTarget T = Some Target" "image_layout F T (unat (rt_getMaxInstructionWords Target)) Img"
    and place: "placed (resolveGlobal T) (FRAMStart T) (li_inFRAM Img)" "charges_fit (unat WS) F"
    and counts: "computeInstructionWords F T = Some Words" "computeDataAccessWords F T = Some DataWords"
    and MI: "MI \<in> set (mf_instrs F)" "\<not> mi_isCall MI"
    and hw: "hw_exec Geo (unat pen) (unat WS) (FRAMStart T) Img MI f k h"
  shows "cache_exec (mustAnalysis P Geo pen (mapEvents T Geo Words DataWords WS)) (\<lambda>R. True) (\<lambda>R l. l \<in> R)
    adversary MI f k h"
proof -
  let ?run = "cache_run Geo (unat pen) (\<lambda>R. True) (\<lambda>R l. l \<in> R) adversary"
  let ?fetch = "map Access (fetched Geo (FRAMStart T) Img MI)"
  from hw obtain n g d w where r: "?run f ?fetch n g" "data_count Img MI d" "w \<le> unat WS * d" "d = 0 \<longrightarrow> h = g"
    and k: "k = n + w"
    using MI(2) by (auto elim!: hw_execE)
  let ?N = "framDataAccessWords MI (FRAMStart T) (resolveGlobal T)"
  have fit: "length (mi_memoperands MI) < 2 ^ 32" "unat WS * max 2 (length (mi_memoperands MI)) < 2 ^ 32"
    using place(2) MI(1) by (auto simp: charges_fit_def)
  note cover = data_words_cover [OF place(1) fit(1) r(2)]
  have d: "distinct (map mi_id (mf_instrs F))" using layout(2) by (simp add: image_layout_def)
  have dw: "map_of DataWords (mi_id MI) = (if ?N \<noteq> 0 then Some ?N else None)"
    using counts(2) dataWordsLoop_at [OF d MI(1), of "[]"] by (auto simp: computeDataAccessWords_def getFRAMStart_def split: if_splits)
  have "mapEvents T Geo Words DataWords WS MI = ?fetch @ (if ?N \<noteq> 0 then [Barrier (WS * ?N)] else [])"
    using image_words [OF layout counts(1) MI(1)]
    by (auto simp: mapEvents_def dw fetchEvents_eq fetched_def split: option.splits)
  moreover have "?run g (if ?N \<noteq> 0 then [Barrier (WS * ?N)] else []) w h"
  proof (cases "?N = 0")
    case True
    then have "d = 0" "w = 0" using cover(1) r(3) by simp_all
    then show ?thesis using True r(4) by (simp add: run_done)
  next
    case False
    have "unat WS * unat ?N \<le> unat WS * max 2 (length (mi_memoperands MI))" using cover(2) by (rule mult_le_mono2)
    then have "unat WS * unat ?N < 2 ^ 32" using fit(2) by (rule le_less_trans)
    then have "unat WS * unat ?N < 2 ^ LENGTH(32)" by simp
    then have "unat (WS * ?N) = unat WS * unat ?N" by (rule unat_mult_lem [THEN iffD1])
    moreover have "unat WS * d \<le> unat WS * unat ?N" using cover(1) by (rule mult_le_mono2)
    ultimately have "w \<le> unat (WS * ?N)" using r(3) by linarith
    then show ?thesis using False cache_run.run_barrier [where k = w and W = "WS * ?N" and Es = "[]" and n = 0 and f = g and f' = h and g = h]
      by (simp add: run_done)
  qed
  ultimately have "?run f (mapEvents T Geo Words DataWords WS MI) k h" using cache_run_append [OF r(1)] k by simp
  then show ?thesis by (simp add: cache_exec_def mustAnalysis_def)
qed

lemma block_exec_mono:
  assumes "\<And>MI c k d. MI \<in> set MIs \<Longrightarrow> exec MI c k d \<Longrightarrow> exec' MI c k d"
  shows "block_exec exec MIs c k d \<Longrightarrow> block_exec exec' MIs c k d"
proof -
  have "block_exec exec MIs' c k d \<Longrightarrow> set MIs' \<subseteq> set MIs \<Longrightarrow> block_exec exec' MIs' c k d" for MIs' c k d
    by (induction rule: block_exec.induct) (auto intro!: block_exec.intros assms)
  then show "block_exec exec MIs c k d \<Longrightarrow> block_exec exec' MIs c k d" by simp
qed

lemma mf_exec_mono:
  assumes "mf_exec exec F c p"
    and "\<And>MI m l c k d. (m, l) \<in> set p \<Longrightarrow> MI \<in> set (mbb_instrs (mf_blocks F ! m)) \<Longrightarrow> exec MI c k d \<Longrightarrow> exec' MI c k d"
  shows "mf_exec exec' F c p"
  using assms
proof (induction rule: mf_exec.induct)
  case (mf_last n c k d)
  then show ?case by (auto intro!: mf_exec.mf_last elim!: block_exec_mono [rotated])
next
  case (mf_step n c k d m l p)
  have "block_exec exec' (mbb_instrs (mf_blocks F ! n)) c k d"
    using mf_step.hyps(1) by (rule block_exec_mono [rotated]) (rule mf_step.prems [of n k], auto)
  moreover have "mf_exec exec' F d ((m, l) # p)" by (rule mf_step.IH) (rule mf_step.prems, auto)
  ultimately show ?case using mf_step.hyps(2) by (intro mf_exec.mf_step)
qed

text \<open>C7: With its default options on, the cache pass always returns, and what it adds to a block's
  latency is at least what the hardware spends there on fetches and data accesses to FRAM, whatever lines its
  cache replaces: on every execution from the entry block, from any cache contents, over blocks
  that make no call. The addresses are those of the linked image, whose code has no gaps and ends in an
  instruction of one word; an operand is taken for SRAM only where it lies there, and a data access takes at most
  the configured wait states. The blocks before the last leave some line guaranteed, the entry has no
  predecessor, nothing interrupts the function, and the charges of an instruction and of a block fit 32 bits.
  After a call the bound would not hold: the callee changes the cache and no event tells the analysis.\<close>

theorem fram_cache_pass:
  assumes "FRAMCache Opt" "FRAMWaitStates Opt \<noteq> 0" "\<not> FRAMCacheVerbose Opt"
    and "FRAMCachePolicy Opt = ''unknown''" "isValid (optGeometry Opt)"
    and "getTarget T = Some Target" "hasFRAMStart T" "MBBLatencyMapSet T"
    and "mf_wf F" "\<forall>B \<in> set (mf_blocks F). MBBLatencyMap T (mbb_id B) \<noteq> None"
    and "image_layout F T (unat (rt_getMaxInstructionWords Target)) Img"
    and "placed (resolveGlobal T) (FRAMStart T) (li_inFRAM Img)" "charges_fit (unat (FRAMWaitStates Opt)) F"
  shows "\<exists>T' pen Words DataWords An S.
    FRAMCache_run Opt F T = Some (T', pen, []) \<and>
    computeInstructionWords F T = Some Words \<and> computeDataAccessWords F T = Some DataWords \<and>
    An = mustAnalysis UnknownPolicy (optGeometry Opt) (FRAMLineFillCycles Opt)
           (mapEvents T (optGeometry Opt) Words DataWords (FRAMWaitStates Opt)) \<and>
    run_MF (cacheAnalysable An) F None None newSolver = Some S \<and>
    ((\<forall>a. \<not> mf_edge F a 0) \<longrightarrow> no_wrap (worst_charge An) F \<longrightarrow>
     (\<forall>f p. mf_exec (hw_exec (optGeometry Opt) (unat (FRAMLineFillCycles Opt)) (unat (FRAMWaitStates Opt))
          (FRAMStart T) Img) F f p \<longrightarrow>
        fst (hd p) = 0 \<longrightarrow> call_free F p \<longrightarrow> moves_on (cacheAnalysable An) (ws_Graph S) p \<longrightarrow>
        (\<forall>(m, l) \<in> set p. \<exists>c. l \<le> unat c \<and>
           MBBLatencyMap T' (mbb_id (mf_blocks F ! m)) =
             Some (the (MBBLatencyMap T (mbb_id (mf_blocks F ! m))) + c))))"
proof -
  obtain Words where w: "computeInstructionWords F T = Some Words"
    by (simp add: computeInstructionWords_def assms(6))
  obtain DataWords where d: "computeDataAccessWords F T = Some DataWords"
    using assms(7) by (auto simp: computeDataAccessWords_def getFRAMStart_def hasFRAMStart_def)
  define An where "An = mustAnalysis UnknownPolicy (optGeometry Opt) (FRAMLineFillCycles Opt)
      (mapEvents T (optGeometry Opt) Words DataWords (FRAMWaitStates Opt))"
  obtain S where S: "run_MF (cacheAnalysable An) F None None newSolver = Some S"
    and costs: "(\<forall>a. \<not> mf_edge F a 0) \<longrightarrow> no_wrap (worst_charge An) F \<longrightarrow>
     (\<forall>f p. mf_exec (cache_exec An (\<lambda>R. True) (\<lambda>R l. l \<in> R) adversary) F f p \<longrightarrow>
        fst (hd p) = 0 \<longrightarrow> moves_on (cacheAnalysable An) (ws_Graph S) p \<longrightarrow>
        (\<forall>(m, l) \<in> set p. l \<le> unat (nodeCost (ws_Graph S) m)))"
    using unknown_run [OF assms(5,9) An_def, of None None] by blast
  obtain Map' pen where m: "mustCosts UnknownPolicy (optGeometry Opt) (FRAMLineFillCycles Opt)
      (mapEvents T (optGeometry Opt) Words DataWords (FRAMWaitStates Opt)) F (MBBLatencyMap T) = Some (Map', pen)"
    "\<And>m. m < length (mf_blocks F) \<Longrightarrow> Map' (mbb_id (mf_blocks F ! m)) =
       Some (the (MBBLatencyMap T (mbb_id (mf_blocks F ! m))) + nodeCost (ws_Graph S) m)"
    using mustCosts_blocks [OF assms(9) S [unfolded An_def] assms(10)] by blast
  have run: "FRAMCache_run Opt F T = Some (setMBBLatencyMap Map' T, pen, [])"
    using assms w d m(1) by (simp add: FRAMCache_run_def getMBBLatencyMap_def runMustPolicy_def Let_def)
  have "\<forall>(m, l) \<in> set p. \<exists>c. l \<le> unat c \<and> Map' (mbb_id (mf_blocks F ! m)) =
      Some (the (MBBLatencyMap T (mbb_id (mf_blocks F ! m))) + c)"
    if p: "\<forall>a. \<not> mf_edge F a 0" "no_wrap (worst_charge An) F" "fst (hd p) = 0"
      "mf_exec (hw_exec (optGeometry Opt) (unat (FRAMLineFillCycles Opt)) (unat (FRAMWaitStates Opt)) (FRAMStart T) Img) F f p"
      "call_free F p" "moves_on (cacheAnalysable An) (ws_Graph S) p" for f p
  proof -
    have ex: "mf_exec (cache_exec An (\<lambda>R. True) (\<lambda>R l. l \<in> R) adversary) F f p"
      using p(4)
    proof (rule mf_exec_mono)
      fix MI m l c k d
      assume m: "(m, l) \<in> set p" "MI \<in> set (mbb_instrs (mf_blocks F ! m))"
        and h: "hw_exec (optGeometry Opt) (unat (FRAMLineFillCycles Opt)) (unat (FRAMWaitStates Opt)) (FRAMStart T) Img MI c k d"
      have "m < length (mf_blocks F)" using mf_exec_in [OF p(4)] m(1) by force
      then have "MI \<in> set (mf_instrs F)" using m(2) by (auto simp: mf_instrs_def)
      moreover have "\<not> mi_isCall MI" using p(5) m by (force simp: call_free_def list_all_iff)
      ultimately show "cache_exec An (\<lambda>R. True) (\<lambda>R l. l \<in> R) adversary MI c k d"
        unfolding An_def using hw_simulated [OF assms(6,11-13) w d _ _ h] by blast
    qed
    have "\<forall>(m, l) \<in> set p. l \<le> unat (nodeCost (ws_Graph S) m)" using costs p(1-3,6) ex by blast
    moreover have "\<forall>(m, l) \<in> set p. m < length (mf_blocks F)" using mf_exec_in [OF p(4)] by force
    ultimately show ?thesis using m(2) by fast
  qed
  then show ?thesis using run w d S
    by (intro exI [of _ "setMBBLatencyMap Map' T"] exI [of _ pen] exI [of _ Words] exI [of _ DataWords]
        exI [of _ An] exI [of _ S]) (simp add: An_def setMBBLatencyMap_def)
qed

definition fetch_fun :: MachineFunction where
  "fetch_fun = \<lparr>mf_function = 1, mf_name = ''f'', mf_blocks = [demo_block1 7 [demo_jump] []]\<rparr>"

definition fetch_options :: Options where
  "fetch_options = defaultOptions\<lparr>FRAMWaitStates := 1, FRAMCache := True\<rparr>"

definition fetch_results :: TimingAnalysisResults where
  "fetch_results = newTAR\<lparr>ActiveTarget := Some MSP430FR5994Target, FRAMStart := 0x4000,
     FRAMStartSet := True, InstructionAddressMap := [1 \<mapsto> 0x4400],
     MBBLatencyMap := [7 \<mapsto> 2], MBBLatencyMapSet := True\<rparr>"

lemma fetch_words: "computeInstructionWords fetch_fun fetch_results = Some [(1, 1)]"
  "computeDataAccessWords fetch_fun fetch_results = Some []"
  by (simp_all add: computeInstructionWords_def resolvedInstrs_def fetch_fun_def demo_block1_def
      demo_block_def demo_jump_def getTarget_def fetch_results_def getInstructionAddress_def newTAR_def
      computeDataAccessWords_def getFRAMStart_def mf_instrs_def framDataAccessWords_def Let_def)

lemma fetch_geometry: "optGeometry fetch_options = \<lparr>NumSets = 2, Ways = 2, LineBytes = 8\<rparr>"
  by (simp add: optGeometry_def fetch_options_def defaultOptions_def)

lemma fetch_events:
  "mapEvents fetch_results (optGeometry fetch_options) [(1, 1)] [] (FRAMWaitStates fetch_options) demo_jump =
     [Access 0x4400]"
  by (simp add: mapEvents_def fetch_geometry demo_jump_def getInstructionAddress_def fetch_results_def
      lineId_def)

definition fetch_image :: LinkedImage where
  "fetch_image = \<lparr>li_Address = (\<lambda>_. 0x4400), li_Words = (\<lambda>_. 1), li_inFRAM = (\<lambda>_. False)\<rparr>"

lemma fetch_block: "mf_blocks fetch_fun = [demo_block1 7 [demo_jump] []]" "mf_instrs fetch_fun = [demo_jump]"
  "mbb_instrs (demo_block1 7 [demo_jump] []) = [demo_jump]" "mi_id demo_jump = 1" "\<not> mi_isCall demo_jump"
  "mi_memoperands demo_jump = []" "\<not> mi_mayLoad demo_jump" "\<not> mi_mayStore demo_jump"
  by (simp_all add: fetch_fun_def demo_block1_def demo_block_def demo_jump_def mf_instrs_def)

lemma fetch_layout: "image_layout fetch_fun fetch_results (unat (rt_getMaxInstructionWords MSP430FR5994Target)) fetch_image"
proof -
  have "resolvedInstrs fetch_fun fetch_results = [(0x4400, 1)]"
    by (simp add: resolvedInstrs_def fetch_block getInstructionAddress_def fetch_results_def)
  then show ?thesis
    by (simp add: image_layout_def fetch_block fetch_image_def getInstructionAddress_def fetch_results_def
        MSP430FR5994Target_def MSP430Target_def)
qed

lemma fetch_pays:
  "hw_exec (optGeometry fetch_options) 15 1 0x4000 fetch_image demo_jump (\<lambda>_. {}) 15 ((\<lambda>_. {})(0 := {0x4400}))"
proof -
  have f: "fetched (optGeometry fetch_options) 0x4000 fetch_image demo_jump = [0x4400]"
    by (simp add: fetched_def fetch_image_def fetch_geometry lineId_def)
  have "cache_run (optGeometry fetch_options) 15 (\<lambda>R. True) (\<lambda>R l. l \<in> R) adversary (\<lambda>_. {}) [Access 0x4400]
      ((if (0x4400::u64) \<in> {} then 0 else 15) + 0) ((\<lambda>_. {})(0 := {0x4400}))"
    by (rule run_access) (auto simp: adversary_def fetch_geometry setIndex_def intro: run_done)
  then have "cache_run (optGeometry fetch_options) 15 (\<lambda>R. True) (\<lambda>R l. l \<in> R) adversary (\<lambda>_. {})
      (map Access (fetched (optGeometry fetch_options) 0x4000 fetch_image demo_jump)) 15 ((\<lambda>_. {})(0 := {0x4400}))"
    by (simp add: f)
  from hw_exec.intros [OF this, of 0 0 1] show ?thesis by (simp add: data_count_def fetch_block)
qed

theorem fram_cache_pass_witness:
  "\<exists>T' pen c. FRAMCache_run fetch_options fetch_fun fetch_results = Some (T', pen, []) \<and>
     15 \<le> unat c \<and> MBBLatencyMap T' 7 = Some (2 + c)"
proof -
  let ?An = "mustAnalysis UnknownPolicy (optGeometry fetch_options) (FRAMLineFillCycles fetch_options)
      (mapEvents fetch_results (optGeometry fetch_options) [(1, 1)] [] (FRAMWaitStates fetch_options))"
  let ?hw = "hw_exec (optGeometry fetch_options) 15 1 0x4000 fetch_image"
  have opt: "FRAMLineFillCycles fetch_options = 15" "FRAMWaitStates fetch_options = 1"
    by (simp_all add: fetch_options_def defaultOptions_def)
  from block_step [of ?hw, OF fetch_pays block_end]
  have "block_exec ?hw [demo_jump] (\<lambda>_. {}) 15 ((\<lambda>_. {})(0 := {0x4400}))" by simp
  then have ex: "mf_exec ?hw fetch_fun (\<lambda>_. {}) [(0, 15)]"
    by (intro mf_last) (simp_all add: fetch_block)
  have wrap: "no_wrap (worst_charge ?An) fetch_fun"
    by (simp add: no_wrap_def worst_charge_def mustAnalysis_def fetch_block fetch_events opt(1) del: One_nat_def)
  have entry: "\<forall>a. \<not> mf_edge fetch_fun a 0"
    by (auto simp: mf_edge_def fetch_fun_def demo_block1_def demo_block_def)
  have start: "FRAMStart fetch_results = 0x4000" "getTarget fetch_results = Some MSP430FR5994Target"
    by (simp_all add: fetch_results_def getTarget_def)
  have pre: "FRAMCache fetch_options" "FRAMWaitStates fetch_options \<noteq> 0" "\<not> FRAMCacheVerbose fetch_options"
    "FRAMCachePolicy fetch_options = ''unknown''" "isValid (optGeometry fetch_options)"
    "getTarget fetch_results = Some MSP430FR5994Target" "hasFRAMStart fetch_results" "MBBLatencyMapSet fetch_results"
    "mf_wf fetch_fun" "\<forall>B \<in> set (mf_blocks fetch_fun). MBBLatencyMap fetch_results (mbb_id B) \<noteq> None"
    by (simp_all add: fetch_options_def defaultOptions_def optGeometry_def isValid_def isPow2_def getTarget_def
        fetch_results_def hasFRAMStart_def mf_wf_def fetch_fun_def demo_block1_def demo_block_def)
  have "placed (resolveGlobal fetch_results) (FRAMStart fetch_results) (li_inFRAM fetch_image)"
    "charges_fit (unat (FRAMWaitStates fetch_options)) fetch_fun"
    by (simp_all add: placed_def fetch_image_def charges_fit_def fetch_block opt)
  note P = fram_cache_pass [OF pre fetch_layout this, unfolded fetch_words start opt]
  have free: "call_free fetch_fun [(0, 15)]" by (simp add: call_free_def fetch_block)
  have "MBBLatencyMap fetch_results 7 = Some 2" "mbb_id (mf_blocks fetch_fun ! 0) = 7"
    by (simp_all add: fetch_results_def fetch_fun_def demo_block1_def demo_block_def)
  with P entry wrap ex free show ?thesis
    unfolding opt by (fastforce simp: moves_on_def)
qed

subsection \<open>Base latencies and wait states, block by block\<close>

definition timed :: "MachineBasicBlock \<Rightarrow> MachineInstr list" where
  "timed MBB = filter (\<lambda>MI. \<not> mi_isMeta MI) (mbb_instrs MBB)"

lemma blockLatency_eq:
  "blockLatency Target MIs L =
     (if list_all (\<lambda>MI. mi_isMeta MI \<or> rt_getInstructionLatency Target MI \<noteq> None) MIs
      then Some (L + (\<Sum>MI \<leftarrow> filter (\<lambda>MI. \<not> mi_isMeta MI) MIs. the (rt_getInstructionLatency Target MI)))
      else None)"
  by (induction Target MIs L rule: blockLatency.induct) (auto simp: add.assoc split: bind_splits)

definition known :: "RTTarget \<Rightarrow> MachineFunction \<Rightarrow> bool" where
  "known Target F \<longleftrightarrow>
     list_all (\<lambda>MI. mi_isMeta MI \<or> rt_getInstructionLatency Target MI \<noteq> None) (mf_instrs F)"

definition base_latency :: "RTTarget \<Rightarrow> MachineBasicBlock \<Rightarrow> u32" where
  "base_latency Target MBB = (\<Sum>MI \<leftarrow> timed MBB. the (rt_getInstructionLatency Target MI))"

lemma latencyBlocks_eq:
  "latencyBlocks Target MBBs Map =
     (if list_all (\<lambda>MI. mi_isMeta MI \<or> rt_getInstructionLatency Target MI \<noteq> None) (concat (map mbb_instrs MBBs)) \<and>
         distinct (map mbb_id MBBs) \<and> (\<forall>MBB \<in> set MBBs. Map (mbb_id MBB) = None)
      then Some (Map ++ map_of (map (\<lambda>MBB. (mbb_id MBB, base_latency Target MBB)) MBBs))
      else None)"
proof (induction MBBs arbitrary: Map)
  case (Cons MBB MBBs)
  show ?case
  proof (cases "blockLatency Target (mbb_instrs MBB) 0")
    case None
    then show ?thesis by (auto simp: blockLatency_eq split: if_splits)
  next
    case (Some L)
    then have L: "L = base_latency Target MBB"
      "list_all (\<lambda>MI. mi_isMeta MI \<or> rt_getInstructionLatency Target MI \<noteq> None) (mbb_instrs MBB)"
      by (auto simp: blockLatency_eq base_latency_def timed_def split: if_splits)
    have e: "Map(k \<mapsto> v) ++ map_of ps = Map ++ map_of ((k, v) # ps)" if "k \<notin> fst ` set ps"
      for k v and ps :: "(ptr \<times> u32) list"
      using that by (simp add: map_add_upd_left dom_map_of_conv_image_fst)
    show ?thesis
    proof (cases "Map (mbb_id MBB) = None \<and> distinct (map mbb_id (MBB # MBBs))")
      case True
      then show ?thesis
        using L Some e [of "mbb_id MBB" "map (\<lambda>MBB. (mbb_id MBB, base_latency Target MBB)) MBBs"]
        by (auto simp: Cons.IH image_comp comp_def image_iff simp del: map_of.simps fun_upd_apply)
          (auto simp: image_iff split: if_splits)
    next
      case False
      then show ?thesis using Some by (auto simp: Cons.IH image_iff)
    qed
  qed
qed simp

text \<open>C17: The latency pass gives every block of a function the sum of the latencies of its
  instructions, meta instructions left out, and keeps the base latencies of the functions
  before; it fails an assertion exactly when some instruction has no latency or a block is met
  twice. What other passes had added to the shared map is replaced, so their penalties must be
  used before the next function.\<close>

theorem base_latencies:
  assumes "getTarget T = Some Target"
  shows "InstructionLatency_run F (Map, T) =
    (if known Target F \<and> distinct (map mbb_id (mf_blocks F)) \<and>
        list_all (\<lambda>MBB. Map (mbb_id MBB) = None) (mf_blocks F)
     then let Map' = Map ++ map_of (map (\<lambda>MBB. (mbb_id MBB, base_latency Target MBB)) (mf_blocks F))
          in Some (Map', T\<lparr>MBBLatencyMap := Map', MBBLatencyMapSet := True\<rparr>)
     else None)"
  using assms
  by (auto simp: InstructionLatency_run_def latencyBlocks_eq known_def mf_instrs_def setMBBLatencyMap_def
      list_all_iff Let_def)

theorem base_latencies_witness:
  "InstructionLatency_run fetch_fun (\<lambda>_. None, fetch_results) =
     Some ([7 \<mapsto> 2], fetch_results\<lparr>MBBLatencyMap := [7 \<mapsto> 2], MBBLatencyMapSet := True\<rparr>)"
proof -
  have "getTarget fetch_results = Some MSP430FR5994Target" by (simp add: getTarget_def fetch_results_def)
  from base_latencies [OF this, of fetch_fun "\<lambda>_. None"] show ?thesis
    by (simp add: known_def mf_instrs_def fetch_fun_def demo_block1_def demo_block_def demo_jump_def
        MSP430FR5994Target_def MSP430Target_def MSP430_getInstructionLatency_def getMSP430Latency_def
        latency_defs base_latency_def timed_def Let_def)
qed

text \<open>What the wait states add for one instruction.\<close>

definition wait_cost ::
  "u32 \<Rightarrow> TimingAnalysisResults \<Rightarrow> (ptr \<times> u32) list \<Rightarrow> (ptr \<times> u32) list \<Rightarrow> MachineInstr \<Rightarrow> u32" where
  "wait_cost WaitStates T Words DataWords MI =
     WaitStates * omap_get 0 DataWords (mi_id MI) +
     (case getInstructionAddress T (mi_id MI) of
        Some a \<Rightarrow> if a \<ge> FRAMStart T then WaitStates * omap_get 0 Words (mi_id MI) else 0
      | None \<Rightarrow> 0)"

lemma waitPenalty_eq:
  assumes "\<forall>k \<in> dom (map_of Words). getInstructionAddress T k \<noteq> None"
  shows "waitPenalty WS (FRAMStart T) T Words DataWords MIs P =
    Some (P + (\<Sum>MI \<leftarrow> MIs. wait_cost WS T Words DataWords MI))"
proof (induction MIs arbitrary: P)
  case (Cons MI MIs)
  then show ?case
    using assms
    by (auto simp: wait_cost_def omap_get_def Let_def add.assoc split: option.splits)
      force+
qed simp

lemma addPenalty_at:
  "fst st B = Some l \<Longrightarrow> fst (addPenalty B P st) B = Some (l + P)"
  "B' \<noteq> B \<Longrightarrow> fst (addPenalty B P st) B' = fst st B'"
  by (simp_all add: addPenalty_def)

lemma waitBlocks_at:
  assumes "\<forall>k \<in> dom (map_of Words). getInstructionAddress T k \<noteq> None"
  shows "distinct (map mbb_id MBBs) \<Longrightarrow> \<forall>B \<in> set MBBs. fst st (mbb_id B) \<noteq> None \<Longrightarrow>
    \<exists>st'. waitBlocks WS (FRAMStart T) T Words DataWords MBBs st = Some st' \<and>
      (\<forall>B \<in> set MBBs. fst st' (mbb_id B) =
         Some (the (fst st (mbb_id B)) + (\<Sum>MI \<leftarrow> mbb_instrs B. wait_cost WS T Words DataWords MI))) \<and>
      (\<forall>b. b \<notin> mbb_id ` set MBBs \<longrightarrow> fst st' b = fst st b)"
proof (induction MBBs arbitrary: st)
  case (Cons B Bs)
  let ?P = "\<Sum>MI \<leftarrow> mbb_instrs B. wait_cost WS T Words DataWords MI"
  let ?st = "addPenalty (mbb_id B) ?P st"
  obtain l where l: "fst st (mbb_id B) = Some l" using Cons.prems(2) by auto
  have same: "fst ?st (mbb_id C) = fst st (mbb_id C)" if "C \<in> set Bs" for C
    using Cons.prems(1) that by (intro addPenalty_at(2)) (metis distinct.simps(2) image_eqI list.set_map list.simps(9))
  have "\<forall>C \<in> set Bs. fst ?st (mbb_id C) \<noteq> None" using Cons.prems(2) same by simp
  then obtain st' where st': "waitBlocks WS (FRAMStart T) T Words DataWords Bs ?st = Some st'"
    "\<forall>C \<in> set Bs. fst st' (mbb_id C) =
       Some (the (fst st (mbb_id C)) + (\<Sum>MI \<leftarrow> mbb_instrs C. wait_cost WS T Words DataWords MI))"
    "\<forall>b. b \<notin> mbb_id ` set Bs \<longrightarrow> fst st' b = fst ?st b"
    using Cons.IH [of ?st] Cons.prems(1) same by auto
  have "fst st' (mbb_id B) = Some (l + ?P)"
    using st'(3) Cons.prems(1) addPenalty_at(1) [of st "mbb_id B" l ?P] l by auto
  then show ?case
    using st' l addPenalty_at(2) [of _ "mbb_id B" ?P st]
    by (intro exI [of _ st']) (auto simp: waitPenalty_eq [OF assms])
qed simp

text \<open>C16: Without the cache model, the wait-state pass always returns and adds to every block of the
  function exactly the wait states of the words its instructions fetch from FRAM plus those of
  the data accesses that may go to FRAM (sums of machine integers); with no resolved address in
  the function it adds nothing at all.\<close>

theorem wait_states_charged:
  assumes "FRAMWaitStates Opt \<noteq> 0" "\<not> FRAMCache Opt" "getTarget T \<noteq> None" "hasFRAMStart T"
    and "MBBLatencyMapSet T" "mf_wf F" "\<forall>B \<in> set (mf_blocks F). MBBLatencyMap T (mbb_id B) \<noteq> None"
  shows "\<exists>T' pen Words DataWords. FRAMWaitState_run Opt F T = Some (T', pen) \<and>
    computeInstructionWords F T = Some Words \<and> computeDataAccessWords F T = Some DataWords \<and>
    (\<forall>B \<in> set (mf_blocks F). MBBLatencyMap T' (mbb_id B) =
       Some (the (MBBLatencyMap T (mbb_id B)) +
         (if Words = [] then 0
          else \<Sum>MI \<leftarrow> mbb_instrs B. wait_cost (FRAMWaitStates Opt) T Words DataWords MI)))"
proof -
  obtain Target where Target: "getTarget T = Some Target" using assms(3) by blast
  obtain Words where w: "computeInstructionWords F T = Some Words"
    by (simp add: computeInstructionWords_def Target)
  obtain DataWords where d: "computeDataAccessWords F T = Some DataWords"
    using assms(4) by (auto simp: computeDataAccessWords_def getFRAMStart_def hasFRAMStart_def)
  have "dom (map_of Words) = snd ` set (resolvedInstrs F T)"
    using w dom_wordsLoop [of "rt_getMaxInstructionWords Target" "sort_key fst (resolvedInstrs F T)" "[]"]
    by (simp add: computeInstructionWords_def Target)
  moreover have "getInstructionAddress T k \<noteq> None" if "(a, k) \<in> set (resolvedInstrs F T)" for a k
    using that by (auto simp: resolvedInstrs_def split: option.splits dest: sym)
  ultimately have res: "\<forall>k \<in> dom (map_of Words). getInstructionAddress T k \<noteq> None" by force
  have dist: "distinct (map mbb_id (mf_blocks F))" using assms(6) by (simp add: mf_wf_def)
  show ?thesis
  proof (cases "Words = []")
    case True
    then show ?thesis using assms w d
      by (auto simp: FRAMWaitState_run_def getFRAMStart_def hasFRAMStart_def)
  next
    case False
    obtain st' where st': "waitBlocks (FRAMWaitStates Opt) (FRAMStart T) T Words DataWords (mf_blocks F)
        (MBBLatencyMap T, 0) = Some st'"
      "\<forall>B \<in> set (mf_blocks F). fst st' (mbb_id B) = Some (the (MBBLatencyMap T (mbb_id B)) +
         (\<Sum>MI \<leftarrow> mbb_instrs B. wait_cost (FRAMWaitStates Opt) T Words DataWords MI))"
      using waitBlocks_at [OF res dist, of "(MBBLatencyMap T, 0)" "FRAMWaitStates Opt" DataWords] assms(7) by auto
    then have "FRAMWaitState_run Opt F T = Some (setMBBLatencyMap (fst st') T, snd st')"
      using assms(1,2,4,5) w d False
      by (simp add: FRAMWaitState_run_def getFRAMStart_def hasFRAMStart_def getMBBLatencyMap_def case_prod_beta)
    then show ?thesis using w d st'(2) False
      by (intro exI [of _ "setMBBLatencyMap (fst st') T"] exI [of _ "snd st'"] exI [of _ Words]
          exI [of _ DataWords]) (simp add: setMBBLatencyMap_def)
  qed
qed

theorem wait_states_charged_witness:
  "\<exists>T' pen. FRAMWaitState_run (defaultOptions\<lparr>FRAMWaitStates := 1\<rparr>) fetch_fun fetch_results = Some (T', pen) \<and>
     MBBLatencyMap T' 7 = Some 3"
proof -
  have pre: "FRAMWaitStates (defaultOptions\<lparr>FRAMWaitStates := 1\<rparr>) \<noteq> 0"
    "\<not> FRAMCache (defaultOptions\<lparr>FRAMWaitStates := 1\<rparr>)" "getTarget fetch_results \<noteq> None"
    "hasFRAMStart fetch_results" "MBBLatencyMapSet fetch_results" "mf_wf fetch_fun"
    "\<forall>B \<in> set (mf_blocks fetch_fun). MBBLatencyMap fetch_results (mbb_id B) \<noteq> None"
    by (simp_all add: defaultOptions_def getTarget_def fetch_results_def hasFRAMStart_def mf_wf_def fetch_fun_def
        demo_block1_def demo_block_def)
  have b: "mf_blocks fetch_fun = [demo_block1 7 [demo_jump] []]" "MBBLatencyMap fetch_results 7 = Some 2"
    "mbb_id (demo_block1 7 [demo_jump] []) = 7" "mbb_instrs (demo_block1 7 [demo_jump] []) = [demo_jump]"
    by (simp_all add: fetch_fun_def fetch_results_def demo_block1_def demo_block_def)
  have c: "wait_cost 1 fetch_results [(1, 1)] [] demo_jump = 1"
    by (simp add: wait_cost_def demo_jump_def getInstructionAddress_def fetch_results_def omap_get_def)
  show ?thesis
    using wait_states_charged [OF pre] by (auto simp: fetch_words b c simp del: One_nat_def)
qed

end
