(* ===== verification/LoopBounds.thy ===== *)
theory LoopBounds
  imports TimingResults Reach "HOL-Library.List_Lexorder" "HOL-Library.Char_ord"
begin

text \<open>
  \<open>MachineLoopBoundAgregatorPass.cpp\<close>: the trip count of every loop, from scalar evolution, the
  JSON file the clang plugin writes, or the target; and the bounds of irreducible loops, whose
  back edges a depth-first search finds. LLVM's loop analyses, the JSON parser and the path
  library are parameters: what the pass reads of them is the record \<open>LoopEnv\<close>.
\<close>

subsection \<open>Reading the JSON file\<close>

datatype json = JObject "(string \<times> json) list" | JArray "json list" | JString string | JInt int | JOther

definition getArray :: "(string \<times> json) list \<Rightarrow> string \<Rightarrow> json list option" where
  "getArray O' k = (case map_of O' k of Some (JArray A) \<Rightarrow> Some A | _ \<Rightarrow> None)"

definition getString :: "(string \<times> json) list \<Rightarrow> string \<Rightarrow> string option" where
  "getString O' k = (case map_of O' k of Some (JString s) \<Rightarrow> Some s | _ \<Rightarrow> None)"

text \<open>\<open>getInteger\<close> gives a value that fits 64 bits.\<close>

definition getInteger :: "(string \<times> json) list \<Rightarrow> string \<Rightarrow> int option" where
  "getInteger O' k =
     (case map_of O' k of Some (JInt i) \<Rightarrow> if - (2 ^ 63) \<le> i \<and> i < 2 ^ 63 then Some i else None | _ \<Rightarrow> None)"

record JSONLoopBound =
  FileName :: string
  Line :: u32
  Column :: u32
  jb_LowerBound :: u32
  jb_UpperBound :: u32

text \<open>The fields are not initialised: a missing key leaves what was in memory, \<open>junk\<close>. The file
  name is a \<open>std::string\<close>, which starts empty.\<close>

definition parseLoopBound :: "JSONLoopBound \<Rightarrow> (string \<times> json) list \<Rightarrow> JSONLoopBound" where
  "parseLoopBound junk LoopObj =
     \<lparr>FileName = (case getString LoopObj ''file'' of Some f \<Rightarrow> f | None \<Rightarrow> []),
      Line = (case getInteger LoopObj ''line'' of Some i \<Rightarrow> word_of_int i | None \<Rightarrow> Line junk),
      Column = (case getInteger LoopObj ''column'' of Some i \<Rightarrow> word_of_int i | None \<Rightarrow> Column junk),
      jb_LowerBound =
        (case getInteger LoopObj ''lower_bound'' of Some i \<Rightarrow> word_of_int i | None \<Rightarrow> jb_LowerBound junk),
      jb_UpperBound =
        (case getInteger LoopObj ''upper_bound'' of Some i \<Rightarrow> word_of_int i | None \<Rightarrow> jb_UpperBound junk)\<rparr>"

fun parseLoopBounds :: "JSONLoopBound \<Rightarrow> json list \<Rightarrow> JSONLoopBound list" where
  "parseLoopBounds junk [] = []"
| "parseLoopBounds junk (Item # Items) =
     (case Item of
        JObject LoopObj \<Rightarrow> parseLoopBound junk LoopObj # parseLoopBounds junk Items
      | _ \<Rightarrow> parseLoopBounds junk Items)"

text \<open>\<open>readJSON\<close> opens and parses a file; it gives nothing when either fails.\<close>

definition loadLoopBoundsFromJSON ::
  "(string \<Rightarrow> json option) \<Rightarrow> JSONLoopBound \<Rightarrow> string \<Rightarrow> JSONLoopBound list" where
  "loadLoopBoundsFromJSON readJSON junk JSONPath =
     (if JSONPath = [] then []
      else case readJSON JSONPath of
             Some (JObject Root) \<Rightarrow>
               (case getArray Root ''loop_bounds'' of
                  Some Items \<Rightarrow> parseLoopBounds junk Items | None \<Rightarrow> [])
           | _ \<Rightarrow> [])"

fun parseRecursionBounds :: "json list \<Rightarrow> (string \<times> u32) list \<Rightarrow> (string \<times> u32) list" where
  "parseRecursionBounds [] Bounds = Bounds"
| "parseRecursionBounds (Item # Items) Bounds =
     (case Item of
        JObject Obj \<Rightarrow>
          (case (getString Obj ''function'', getInteger Obj ''bound'') of
             (Some Fn, Some Bound) \<Rightarrow>
               parseRecursionBounds Items
                 (if Bound > 0 then omap_put Fn (word_of_int Bound) Bounds else Bounds)
           | _ \<Rightarrow> parseRecursionBounds Items Bounds)
      | _ \<Rightarrow> parseRecursionBounds Items Bounds)"

definition loadRecursionBoundsFromJSON ::
  "(string \<Rightarrow> json option) \<Rightarrow> string \<Rightarrow> (string \<times> u32) list" where
  "loadRecursionBoundsFromJSON readJSON JSONPath =
     (if JSONPath = [] then []
      else case readJSON JSONPath of
             Some (JObject Root) \<Rightarrow>
               (case getArray Root ''recursion_bounds'' of
                  Some Items \<Rightarrow> parseRecursionBounds Items [] | None \<Rightarrow> [])
           | _ \<Rightarrow> [])"

subsection \<open>What the pass reads of LLVM\<close>

type_synonym DebugLoc = "(string \<times> u32) option"

record IRLoop =
  ir_Header :: ptr
  ir_SmallConstantTripCount :: u32
  ir_ConstantMaxBTC :: "u64 option"
  ir_StartLoc :: DebugLoc
  ir_FirstNonPHI :: DebugLoc

record LoopEnv =
  le_MLI :: MachineLoopInfo
  le_LoopsInPreorder :: "MachineLoop list"
  le_BasicBlock :: "ptr \<Rightarrow> ptr option"
  le_LoopFor :: "ptr \<Rightarrow> IRLoop option"
  le_filename :: "string \<Rightarrow> string"

definition locKey :: "LoopEnv \<Rightarrow> string \<Rightarrow> u32 \<Rightarrow> string" where
  "locKey env File L = le_filename env File @ '':'' @ dec_string (unat L)"

fun boundsByLocation ::
  "LoopEnv \<Rightarrow> JSONLoopBound list \<Rightarrow> (string \<rightharpoonup> u32) \<Rightarrow> (string \<rightharpoonup> u32)" where
  "boundsByLocation env [] By = By"
| "boundsByLocation env (B # Bs) By =
     boundsByLocation env Bs (By(locKey env (FileName B) (Line B) \<mapsto> jb_UpperBound B))"

definition tryJSONLookup :: "LoopEnv \<Rightarrow> (string \<rightharpoonup> u32) \<Rightarrow> DebugLoc \<Rightarrow> u32 option" where
  "tryJSONLookup env By DL = (case DL of None \<Rightarrow> None | Some (f, l) \<Rightarrow> By (locKey env f l))"

subsection \<open>Matching source lines of blocks\<close>

fun scanInstrs ::
  "LoopEnv \<Rightarrow> (string \<rightharpoonup> u32) \<Rightarrow> MachineInstr list \<Rightarrow> u32 \<times> u32 \<Rightarrow> u32 \<times> u32" where
  "scanInstrs env By [] st = st"
| "scanInstrs env By (MI # MIs) (BestLine, BestBound) =
     (case mi_debugLoc MI of
        None \<Rightarrow> scanInstrs env By MIs (BestLine, BestBound)
      | Some (f, l) \<Rightarrow>
          (case By (locKey env f l) of
             None \<Rightarrow> scanInstrs env By MIs (BestLine, BestBound)
           | Some b \<Rightarrow>
               scanInstrs env By MIs
                 (if BestLine = 0 \<or> l < BestLine then (l, b) else (BestLine, BestBound))))"

definition blockInstrs :: "MachineFunction \<Rightarrow> ptr \<Rightarrow> MachineInstr list" where
  "blockInstrs F b = (case mf_block F b of Some MBB \<Rightarrow> mbb_instrs MBB | None \<Rightarrow> [])"

fun scanBlocks ::
  "LoopEnv \<Rightarrow> (string \<rightharpoonup> u32) \<Rightarrow> MachineFunction \<Rightarrow> ptr list \<Rightarrow> u32 \<times> u32 \<Rightarrow> u32 \<times> u32" where
  "scanBlocks env By F [] st = st"
| "scanBlocks env By F (MB # MBs) st = scanBlocks env By F MBs (scanInstrs env By (blockInstrs F MB) st)"

text \<open>The blocks of a loop that belong to no loop nested in it.\<close>

definition ownBlocks :: "LoopEnv \<Rightarrow> MachineLoop \<Rightarrow> ptr list" where
  "ownBlocks env ML = filter (\<lambda>MB. le_MLI env MB = Some ML) (ml_blocks ML)"

subsection \<open>The trip count of a loop\<close>

definition cleanIRLoop :: "LoopEnv \<Rightarrow> ptr \<Rightarrow> IRLoop option" where
  "cleanIRLoop env Header =
     (case le_BasicBlock env Header of
        None \<Rightarrow> None
      | Some BB \<Rightarrow>
          (case le_LoopFor env BB of
             Some L \<Rightarrow> if ir_Header L = BB then Some L else None | None \<Rightarrow> None))"

definition irTripCount :: "LoopEnv \<Rightarrow> (string \<rightharpoonup> u32) \<Rightarrow> bool \<Rightarrow> IRLoop \<Rightarrow> u32 \<times> u32" where
  "irTripCount env By HasJSON L =
     (let TripCount = ir_SmallConstantTripCount L;
          MaxBTC = (if TripCount = 0
                    then (case ir_ConstantMaxBTC L of Some c \<Rightarrow> ucast (c + 1) | None \<Rightarrow> 0) else 0)
      in (if TripCount = 0 \<and> HasJSON
          then (case tryJSONLookup env By (ir_StartLoc L) of
                  Some b \<Rightarrow> b
                | None \<Rightarrow> (case tryJSONLookup env By (ir_FirstNonPHI L) of Some b \<Rightarrow> b | None \<Rightarrow> TripCount))
          else TripCount,
          MaxBTC))"

definition loopTripCount ::
  "RTTarget \<Rightarrow> LoopEnv \<Rightarrow> (string \<rightharpoonup> u32) \<Rightarrow> bool \<Rightarrow> MachineFunction \<Rightarrow> MachineLoop \<Rightarrow> u32" where
  "loopTripCount Target env By HasJSON F ML =
     (let (T0, MaxBTC) = (case cleanIRLoop env (ml_header ML) of
                            Some L \<Rightarrow> irTripCount env By HasJSON L | None \<Rightarrow> (0, 0));
          T1 = (if T0 = 0 \<and> HasJSON
                then (let (BestLine, BestBound) = scanBlocks env By F (ownBlocks env ML) (0, 0)
                      in if BestBound > 0 then BestBound else T0)
                else T0);
          T2 = (if T1 = 0 \<and> MaxBTC > 0 then MaxBTC else T1)
      in if T2 = 0
         then (case Option.bind (mf_block F (ml_header ML))
                      (rt_getImplicitLoopBound Target (length (ml_blocks ML))) of
                 Some b \<Rightarrow> b | None \<Rightarrow> 0)
         else T2)"

fun boundLoops ::
  "RTTarget \<Rightarrow> LoopEnv \<Rightarrow> (string \<rightharpoonup> u32) \<Rightarrow> bool \<Rightarrow> MachineFunction \<Rightarrow> MachineLoop list
   \<Rightarrow> (ptr \<rightharpoonup> u32) \<Rightarrow> (ptr \<rightharpoonup> u32)" where
  "boundLoops Target env By HasJSON F [] LoopBounds = LoopBounds"
| "boundLoops Target env By HasJSON F (ML # MLs) LoopBounds =
     (let TripCount = loopTripCount Target env By HasJSON F ML
      in boundLoops Target env By HasJSON F MLs
           (if TripCount > 0 then LoopBounds(ml_header ML \<mapsto> TripCount) else LoopBounds))"

subsection \<open>Irreducible loops\<close>

definition mfSuccs :: "MachineFunction \<Rightarrow> ptr graph" where
  "mfSuccs MF = map (\<lambda>B. (mbb_id B, mbb_succs B)) (mf_blocks MF)"

definition mfPreds :: "MachineFunction \<Rightarrow> ptr graph" where
  "mfPreds MF = map (\<lambda>B. (mbb_id B, mbb_preds B)) (mf_blocks MF)"

definition findBackEdges :: "MachineFunction \<Rightarrow> (ptr \<times> ptr) set" where
  "findBackEdges MF =
     (case mf_blocks MF of
        [] \<Rightarrow> {}
      | Entry # _ \<Rightarrow>
          dfs_stack (mfSuccs MF) [(mbb_id Entry, 0)] ((\<lambda>_. White)(mbb_id Entry := Gray)) {})"

definition computeLoopBody :: "MachineFunction \<Rightarrow> ptr \<Rightarrow> ptr set" where
  "computeLoopBody MF H =
     (let Fwd = search (mfSuccs MF) [H] {}; Bwd = search (mfPreds MF) [H] {}
      in insert H (Fwd \<inter> Bwd))"

fun boundIrreducible ::
  "LoopEnv \<Rightarrow> (string \<rightharpoonup> u32) \<Rightarrow> MachineFunction \<Rightarrow> (ptr \<times> ptr) list
   \<Rightarrow> (ptr \<rightharpoonup> u32) \<times> TimingAnalysisResults \<Rightarrow> (ptr \<rightharpoonup> u32) \<times> TimingAnalysisResults" where
  "boundIrreducible env By F [] st = st"
| "boundIrreducible env By F ((B, H) # Es) (LoopBounds, T) =
     (if (case le_MLI env H of Some HL \<Rightarrow> ml_header HL = H | None \<Rightarrow> False)
      then boundIrreducible env By F Es (LoopBounds, T)
      else if LoopBounds H \<noteq> None then boundIrreducible env By F Es (LoopBounds, T)
      else
        let Body = sorted_list_of_set (computeLoopBody F H);
            (BestLine, BestBound) = scanBlocks env By F Body (0, 0)
        in if BestBound > 0
           then boundIrreducible env By F Es
                  (LoopBounds(H \<mapsto> BestBound), addIrreducibleBackEdge B H T)
           else boundIrreducible env By F Es (LoopBounds, T))"

subsection \<open>The pass\<close>

text \<open>The target is installed before any pass runs, so reading it for the last resort never fails.\<close>

definition LoopBound_run ::
  "(string \<Rightarrow> json option) \<Rightarrow> JSONLoopBound \<Rightarrow> string \<Rightarrow> LoopEnv \<Rightarrow> MachineFunction
   \<Rightarrow> TimingAnalysisResults \<Rightarrow> TimingAnalysisResults option" where
  "LoopBound_run readJSON junk JSONPath env F T = do {
     let JSONBounds = loadLoopBoundsFromJSON readJSON junk JSONPath;
     let T1 = setRecursionBoundMap (loadRecursionBoundsFromJSON readJSON JSONPath) T;
     let By = boundsByLocation env JSONBounds (\<lambda>_. None);
     Target \<leftarrow> getTarget T1;
     let LoopBounds = boundLoops Target env By (JSONBounds \<noteq> []) F (le_LoopsInPreorder env) (\<lambda>_. None);
     let (LoopBounds', T2) =
       (if JSONBounds \<noteq> []
        then boundIrreducible env By F (sorted_list_of_set (findBackEdges F)) (LoopBounds, T1)
        else (LoopBounds, T1));
     Some (setLoopBoundMap (LoopBounds' ++ getLoopBoundMap T2) T2)
   }"

subsection \<open>Every cycle is found\<close>

definition mf_reachable :: "MachineFunction \<Rightarrow> ptr set" where
  "mf_reachable MF =
     (case mf_blocks MF of [] \<Rightarrow> {} | E # _ \<Rightarrow> (edges (mfSuccs MF))\<^sup>* `` {mbb_id E})"

text \<open>C13: The back edges the search finds are edges of the function, and every cycle that can be
  reached from the entry block, of a reducible loop or not, passes through one of them: without
  them nothing reachable repeats.\<close>

theorem back_edges_cut_cycles:
  "findBackEdges MF \<subseteq> edges (mfSuccs MF) \<and>
   acyclic ({(u, v) \<in> edges (mfSuccs MF). u \<in> mf_reachable MF} - findBackEdges MF)"
proof (cases "mf_blocks MF")
  case Nil
  then show ?thesis by (simp add: findBackEdges_def mf_reachable_def acyclic_def)
next
  case (Cons E Bs)
  then show ?thesis
    using dfs_stack_acyclic [where g = "mfSuccs MF" and r = "mbb_id E"]
    by (simp add: findBackEdges_def mf_reachable_def Image_singleton)
qed

text \<open>The body of the loop with a header is the header and every block on a cycle through it:
  reachable from it and reaching it (predecessors and successors of the blocks agree).\<close>

lemma loop_body_spec:
  assumes "edges (mfPreds MF) = (edges (mfSuccs MF))\<inverse>"
  shows "computeLoopBody MF H =
    insert H {B. (H, B) \<in> (edges (mfSuccs MF))\<^sup>+ \<and> (B, H) \<in> (edges (mfSuccs MF))\<^sup>+}"
  unfolding computeLoopBody_def Let_def search_from_empty assms trancl_converse by auto

text \<open>An irreducible loop: the entry block jumps to both blocks of a cycle.\<close>

definition duff_block :: "ptr \<Rightarrow> ptr list \<Rightarrow> ptr list \<Rightarrow> u32 \<Rightarrow> MachineBasicBlock" where
  "duff_block b ss ps l = \<lparr>mbb_id = b, mbb_name = ''bb'',
     mbb_instrs = [demo_jump\<lparr>mi_debugLoc := Some (''a.c'', l)\<rparr>],
     mbb_succs = ss, mbb_preds = ps, mbb_isReturnBlock = False, mbb_fallThrough = None\<rparr>"

definition duff_fun :: MachineFunction where
  "duff_fun = \<lparr>mf_function = 1, mf_name = ''f'',
     mf_blocks = [duff_block 0 [1, 2] [] 3, duff_block 1 [2] [0, 2] 5, duff_block 2 [1] [0, 1] 4]\<rparr>"

lemma duff_graphs: "mfSuccs duff_fun = [(0, [1, 2]), (1, [2]), (2, [1])]"
  "mfPreds duff_fun = [(0, []), (1, [0, 2]), (2, [0, 1])]"
  by (simp_all add: mfSuccs_def mfPreds_def duff_fun_def duff_block_def)

subsection \<open>Which bound a loop gets\<close>

definition matches :: "LoopEnv \<Rightarrow> (string \<rightharpoonup> u32) \<Rightarrow> MachineInstr list \<Rightarrow> (u32 \<times> u32) list" where
  "matches env By MIs =
     List.map_filter (\<lambda>MI. case mi_debugLoc MI of
        None \<Rightarrow> None
      | Some (f, l) \<Rightarrow> map_option (Pair l) (By (locKey env f l))) MIs"

fun best_of :: "(u32 \<times> u32) list \<Rightarrow> u32 \<times> u32 \<Rightarrow> u32 \<times> u32" where
  "best_of [] st = st"
| "best_of ((l, b) # ms) st = best_of ms (if fst st = 0 \<or> l < fst st then (l, b) else st)"

lemma scanInstrs_best: "scanInstrs env By MIs st = best_of (matches env By MIs) st"
  by (induction env By MIs st rule: scanInstrs.induct)
    (auto simp: matches_def map_filter_simps split: option.splits)

lemma best_of_append: "best_of (xs @ ys) st = best_of ys (best_of xs st)"
  by (induction xs st rule: best_of.induct) auto

lemma matches_append: "matches env By (xs @ ys) = matches env By xs @ matches env By ys"
  by (simp add: matches_def List.map_filter_def)

lemma scanBlocks_best:
  "scanBlocks env By F Bs st = best_of (matches env By (concat (map (blockInstrs F) Bs))) st"
  by (induction env By F Bs st rule: scanBlocks.induct)
    (simp_all add: scanInstrs_best matches_append best_of_append, simp add: matches_def map_filter_simps)

lemma best_of_min:
  assumes "\<forall>(l, b) \<in> set ms. l \<noteq> 0"
  shows "fst st \<noteq> 0 \<Longrightarrow> best_of ms st \<in> insert st (set ms) \<and>
    (\<forall>m \<in> insert st (set ms). fst (best_of ms st) \<le> fst m)"
  using assms
proof (induction ms st rule: best_of.induct)
  case (2 l b ms st)
  show ?case
  proof (cases "l < fst st")
    case True
    then show ?thesis using "2.IH" "2.prems" by fastforce
  next
    case False
    then show ?thesis using "2.IH" "2.prems" by fastforce
  qed
qed simp

text \<open>The scan of the blocks of a loop picks the bound of the first source line: when no match
  is on line 0, it returns nothing exactly when no instruction is on a line with a bound, and
  otherwise a matching line that no matching line precedes, with a bound recorded for it.\<close>

lemma scan_picks_first_line:
  assumes "\<forall>(l, b) \<in> set (matches env By (concat (map (blockInstrs F) Bs))). l \<noteq> 0"
  defines "ms \<equiv> matches env By (concat (map (blockInstrs F) Bs))"
  shows "if ms = [] then scanBlocks env By F Bs (0, 0) = (0, 0)
    else scanBlocks env By F Bs (0, 0) \<in> set ms \<and>
      (\<forall>(l, b) \<in> set ms. fst (scanBlocks env By F Bs (0, 0)) \<le> l)"
proof (cases ms)
  case Nil
  then show ?thesis by (simp add: scanBlocks_best flip: ms_def)
next
  case (Cons m ms')
  have "best_of ms (0, 0) = best_of ms' m" using Cons by (cases m) simp
  moreover have "fst m \<noteq> 0" "\<forall>(l, b) \<in> set ms'. l \<noteq> 0"
    using assms(1) Cons by (auto simp flip: ms_def)
  ultimately show ?thesis
    using best_of_min [of ms' m] Cons by (auto simp: scanBlocks_best simp flip: ms_def)
qed

definition duff_env :: LoopEnv where
  "duff_env = \<lparr>le_MLI = (\<lambda>_. None), le_LoopsInPreorder = [], le_BasicBlock = (\<lambda>_. None),
     le_LoopFor = (\<lambda>_. None), le_filename = (\<lambda>f. f)\<rparr>"

definition candidates ::
  "RTTarget \<Rightarrow> LoopEnv \<Rightarrow> (string \<rightharpoonup> u32) \<Rightarrow> bool \<Rightarrow> MachineFunction \<Rightarrow> MachineLoop \<Rightarrow> u32 list" where
  "candidates Target env By HasJSON F ML =
     (let L = cleanIRLoop env (ml_header ML)
      in [case L of Some L \<Rightarrow> ir_SmallConstantTripCount L | None \<Rightarrow> 0,
          case L of
            Some L \<Rightarrow>
              if HasJSON
              then (case tryJSONLookup env By (ir_StartLoc L) of
                      Some b \<Rightarrow> b
                    | None \<Rightarrow> (case tryJSONLookup env By (ir_FirstNonPHI L) of Some b \<Rightarrow> b | None \<Rightarrow> 0))
              else 0
          | None \<Rightarrow> 0,
          if HasJSON then snd (scanBlocks env By F (ownBlocks env ML) (0, 0)) else 0,
          case Option.bind L ir_ConstantMaxBTC of Some c \<Rightarrow> ucast (c + 1) | None \<Rightarrow> 0,
          case Option.bind (mf_block F (ml_header ML))
                 (rt_getImplicitLoopBound Target (length (ml_blocks ML))) of
            Some b \<Rightarrow> b | None \<Rightarrow> 0])"

lemma trip_count_candidates:
  "loopTripCount Target env By HasJSON F ML =
     (case List.find (\<lambda>c. c \<noteq> 0) (candidates Target env By HasJSON F ML) of Some c \<Rightarrow> c | None \<Rightarrow> 0)"
proof -
  have gt: "(0 < w) = (w \<noteq> 0)" for w :: u32
    by (simp add: word_neq_0_conv)
  show ?thesis
  proof (cases "cleanIRLoop env (ml_header ML)")
    case None
    then show ?thesis
      by (auto simp: gt loopTripCount_def candidates_def Let_def case_prod_beta
          split: option.splits)
  next
    case (Some L)
    then show ?thesis
      by (auto simp: gt loopTripCount_def candidates_def irTripCount_def Let_def case_prod_beta
          split: option.splits)
  qed
qed

text \<open>The sources of a bound, as they stand in the program. The IR loop of a machine loop is the one
  whose header is the header's block; a location has a bound when the file and line of the JSON file
  match it; a line of the loop is that of an instruction in a block of the loop that lies in no loop nested
  in it.\<close>

definition ir_loop :: "LoopEnv \<Rightarrow> MachineLoop \<Rightarrow> IRLoop \<Rightarrow> bool" where
  "ir_loop env ML L \<longleftrightarrow>
     le_BasicBlock env (ml_header ML) = Some (ir_Header L) \<and> le_LoopFor env (ir_Header L) = Some L"

definition bound_at :: "LoopEnv \<Rightarrow> (string \<rightharpoonup> u32) \<Rightarrow> DebugLoc \<Rightarrow> u32 \<Rightarrow> bool" where
  "bound_at env By DL b \<longleftrightarrow>
     (\<exists>f l. DL = Some (f, l) \<and> By (le_filename env f @ '':'' @ dec_string (unat l)) = Some b)"

definition own_line ::
  "LoopEnv \<Rightarrow> (string \<rightharpoonup> u32) \<Rightarrow> MachineFunction \<Rightarrow> MachineLoop \<Rightarrow> u32 \<Rightarrow> u32 \<Rightarrow> bool" where
  "own_line env By F ML l b \<longleftrightarrow>
     (\<exists>B MBB MI f. B \<in> set (ml_blocks ML) \<and> le_MLI env B = Some ML \<and> mf_block F B = Some MBB \<and>
        MI \<in> set (mbb_instrs MBB) \<and> mi_debugLoc MI = Some (f, l) \<and> bound_at env By (Some (f, l)) b)"

lemma own_line_matches:
  "(l, b) \<in> set (matches env By (concat (map (blockInstrs F) (ownBlocks env ML)))) \<longleftrightarrow> own_line env By F ML l b"
proof -
  have "(l, b) \<in> set (matches env By MIs) \<longleftrightarrow>
      (\<exists>MI f. MI \<in> set MIs \<and> mi_debugLoc MI = Some (f, l) \<and> bound_at env By (Some (f, l)) b)" for MIs
  proof (induction MIs)
    case (Cons MI MIs)
    then show ?case
      by (cases "mi_debugLoc MI"; cases "By (locKey env (fst (the (mi_debugLoc MI))) (snd (the (mi_debugLoc MI))))")
        (auto simp: matches_def map_filter_simps bound_at_def locKey_def)
  qed (simp add: matches_def map_filter_simps)
  moreover have "MI \<in> set (concat (map (blockInstrs F) (ownBlocks env ML))) \<longleftrightarrow>
      (\<exists>B MBB. B \<in> set (ml_blocks ML) \<and> le_MLI env B = Some ML \<and> mf_block F B = Some MBB \<and> MI \<in> set (mbb_instrs MBB))" for MI
  proof -
    have "MI \<in> set (blockInstrs F B) \<longleftrightarrow> (\<exists>MBB. mf_block F B = Some MBB \<and> MI \<in> set (mbb_instrs MBB))" for B
      by (cases "mf_block F B") (simp_all add: blockInstrs_def)
    then show ?thesis by (auto simp: ownBlocks_def)
  qed
  ultimately show ?thesis unfolding own_line_def by blast
qed

lemma bound_at_lookup: "bound_at env By DL b \<longleftrightarrow> tryJSONLookup env By DL = Some b"
  by (cases DL) (auto simp: bound_at_def tryJSONLookup_def locKey_def)

lemma ir_loop_clean: "cleanIRLoop env (ml_header ML) = Some L \<longleftrightarrow> ir_loop env ML L"
proof (cases "le_BasicBlock env (ml_header ML)")
  case (Some BB)
  then have "cleanIRLoop env (ml_header ML) = Some L \<longleftrightarrow> le_LoopFor env BB = Some L \<and> ir_Header L = BB"
    by (cases "le_LoopFor env BB") (simp_all add: cleanIRLoop_def, blast)
  moreover have "ir_loop env ML L \<longleftrightarrow> le_LoopFor env BB = Some L \<and> ir_Header L = BB"
    unfolding ir_loop_def Some option.inject by blast
  ultimately show ?thesis by simp
qed (simp add: cleanIRLoop_def ir_loop_def)

text \<open>C14: The bound of a loop is the first that is known of, in this order: the exact trip count of
  scalar evolution, the pragma at the loop's own location (its start, else the first instruction of
  its header), the pragma on the first line of the blocks of the loop that lie in no nested loop, the pessimistic maximum
  of scalar evolution, and the bound of the target. A looser source never hides a tighter
  one; no bound is left only when all five know none. No pragma is on line 0.\<close>

theorem trip_count_priority:
  assumes "\<And>l b. own_line env By F ML l b \<Longrightarrow> l \<noteq> 0"
  shows "\<exists>Exact AtLoop FirstLine MaxCount Implicit.
    loopTripCount Target env By HasJSON F ML =
      (if Exact \<noteq> 0 then Exact else if AtLoop \<noteq> 0 then AtLoop else if FirstLine \<noteq> 0 then FirstLine
       else if MaxCount \<noteq> 0 then MaxCount else Implicit) \<and>
    (\<forall>L. ir_loop env ML L \<longrightarrow>
       Exact = ir_SmallConstantTripCount L \<and>
       (if HasJSON \<and> (\<exists>b. bound_at env By (ir_StartLoc L) b) then bound_at env By (ir_StartLoc L) AtLoop
        else if HasJSON \<and> (\<exists>b. bound_at env By (ir_FirstNonPHI L) b) then bound_at env By (ir_FirstNonPHI L) AtLoop
        else AtLoop = 0) \<and>
       MaxCount = (case ir_ConstantMaxBTC L of Some c \<Rightarrow> ucast (c + 1) | None \<Rightarrow> 0)) \<and>
    ((\<nexists>L. ir_loop env ML L) \<longrightarrow> Exact = 0 \<and> AtLoop = 0 \<and> MaxCount = 0) \<and>
    (if HasJSON \<and> (\<exists>l b. own_line env By F ML l b)
     then \<exists>l. own_line env By F ML l FirstLine \<and> (\<forall>l' b'. own_line env By F ML l' b' \<longrightarrow> l \<le> l')
     else FirstLine = 0) \<and>
    Implicit = (case mf_block F (ml_header ML) of
        Some H \<Rightarrow> (case rt_getImplicitLoopBound Target (length (ml_blocks ML)) H of Some b \<Rightarrow> b | None \<Rightarrow> 0)
      | None \<Rightarrow> 0)"
proof -
  let ?ms = "matches env By (concat (map (blockInstrs F) (ownBlocks env ML)))"
  let ?best = "scanBlocks env By F (ownBlocks env ML) (0, 0)"
  define First where "First = (if HasJSON then snd ?best else 0)"
  define AtLoop where "AtLoop = (case cleanIRLoop env (ml_header ML) of
      Some L \<Rightarrow> if HasJSON
        then (case tryJSONLookup env By (ir_StartLoc L) of
                Some b \<Rightarrow> b
              | None \<Rightarrow> (case tryJSONLookup env By (ir_FirstNonPHI L) of Some b \<Rightarrow> b | None \<Rightarrow> 0))
        else 0
    | None \<Rightarrow> 0)"
  have nz: "\<forall>(l, b) \<in> set ?ms. l \<noteq> 0" using assms own_line_matches by blast
  have first: "if HasJSON \<and> (\<exists>l b. own_line env By F ML l b)
     then \<exists>l. own_line env By F ML l First \<and> (\<forall>l' b'. own_line env By F ML l' b' \<longrightarrow> l \<le> l')
     else First = 0"
  proof (cases "HasJSON \<and> ?ms \<noteq> []")
    case True
    then have b: "?best \<in> set ?ms" "\<forall>(l, b) \<in> set ?ms. fst ?best \<le> l"
      using scan_picks_first_line [OF nz] by (auto split: if_splits)
    then have "own_line env By F ML (fst ?best) (snd ?best)" by (simp flip: own_line_matches)
    moreover have "\<forall>l' b'. own_line env By F ML l' b' \<longrightarrow> fst ?best \<le> l'"
      using b(2) by (auto simp flip: own_line_matches)
    ultimately show ?thesis using True unfolding First_def by auto
  next
    case False
    have "First = 0" using False scan_picks_first_line [OF nz] by (auto simp: First_def)
    moreover have "\<not> (HasJSON \<and> (\<exists>l b. own_line env By F ML l b))" using False by (auto simp flip: own_line_matches)
    ultimately show ?thesis by simp
  qed
  have at: "AtLoop = 0" if "\<nexists>L. ir_loop env ML L"
    using that by (auto simp: AtLoop_def ir_loop_clean split: option.split)
  have at': "if HasJSON \<and> (\<exists>b. bound_at env By (ir_StartLoc L) b) then bound_at env By (ir_StartLoc L) AtLoop
        else if HasJSON \<and> (\<exists>b. bound_at env By (ir_FirstNonPHI L) b) then bound_at env By (ir_FirstNonPHI L) AtLoop
        else AtLoop = 0" if L: "ir_loop env ML L" for L
    using L unfolding ir_loop_clean [symmetric] by (auto simp: AtLoop_def bound_at_lookup)
  define Exact where "Exact = (case cleanIRLoop env (ml_header ML) of Some L \<Rightarrow> ir_SmallConstantTripCount L | None \<Rightarrow> 0)"
  define MaxCount where "MaxCount =
    (case Option.bind (cleanIRLoop env (ml_header ML)) ir_ConstantMaxBTC of Some c \<Rightarrow> ucast (c + 1) | None \<Rightarrow> (0 :: u32))"
  define Implicit where "Implicit = (case mf_block F (ml_header ML) of
      Some H \<Rightarrow> (case rt_getImplicitLoopBound Target (length (ml_blocks ML)) H of Some b \<Rightarrow> b | None \<Rightarrow> 0)
    | None \<Rightarrow> 0)"
  have "candidates Target env By HasJSON F ML = [Exact, AtLoop, First, MaxCount, Implicit]"
    unfolding candidates_def Let_def AtLoop_def First_def Exact_def MaxCount_def Implicit_def
    by (cases "mf_block F (ml_header ML)") simp_all
  then have t: "loopTripCount Target env By HasJSON F ML =
      (if Exact \<noteq> 0 then Exact else if AtLoop \<noteq> 0 then AtLoop else if First \<noteq> 0 then First
       else if MaxCount \<noteq> 0 then MaxCount else Implicit)"
    by (simp add: trip_count_candidates)
  have some: "Exact = ir_SmallConstantTripCount L"
      "MaxCount = (case ir_ConstantMaxBTC L of Some c \<Rightarrow> ucast (c + 1) | None \<Rightarrow> 0)" if "ir_loop env ML L" for L
    using that unfolding ir_loop_clean [symmetric] by (simp_all add: Exact_def MaxCount_def)
  have none: "Exact = 0" "MaxCount = 0" if "\<nexists>L. ir_loop env ML L"
  proof -
    have "cleanIRLoop env (ml_header ML) = None" using that by (cases "cleanIRLoop env (ml_header ML)") (auto simp: ir_loop_clean)
    then show "Exact = 0" "MaxCount = 0" by (simp_all add: Exact_def MaxCount_def)
  qed
  show ?thesis
    by (rule exI [of _ Exact], rule exI [of _ AtLoop], rule exI [of _ First], rule exI [of _ MaxCount],
      rule exI [of _ Implicit], intro conjI allI impI t first Implicit_def some none at at')
qed

text \<open>A loop of two blocks: the pragma of line 4, in its second block, comes before that of line 5 in its
  header.\<close>

definition pair_loop :: MachineLoop where
  "pair_loop = \<lparr>ml_header = 1, ml_blocks = [1, 2]\<rparr>"

definition pair_env :: LoopEnv where
  "pair_env = duff_env\<lparr>le_MLI := [1 \<mapsto> pair_loop, 2 \<mapsto> pair_loop]\<rparr>"

definition pair_bounds :: "string \<rightharpoonup> u32" where
  "pair_bounds = [''a.c:4'' \<mapsto> 9, ''a.c:5'' \<mapsto> 7]"

lemma pair_lines: "own_line pair_env pair_bounds duff_fun pair_loop l b \<longleftrightarrow> l = 5 \<and> b = 7 \<or> l = 4 \<and> b = 9"
proof -
  have k: "dec_string 5 = ''5''" "dec_string 4 = ''4''" by code_simp+
  have b: "mf_block duff_fun 1 = Some (duff_block 1 [2] [0, 2] 5)" "mf_block duff_fun 2 = Some (duff_block 2 [1] [0, 1] 4)"
    by (simp_all add: mf_block_def duff_fun_def duff_block_def)
  show ?thesis
    by (auto simp: own_line_def bound_at_def pair_loop_def pair_env_def pair_bounds_def duff_env_def b duff_block_def k simp del: One_nat_def)
      (rule exI [of _ 2], simp)
qed

theorem trip_count_priority_witness:
  "loopTripCount MSP430FR5994Target pair_env pair_bounds True duff_fun pair_loop = 9"
proof -
  have "\<nexists>L. ir_loop pair_env pair_loop L" by (simp add: ir_loop_def pair_env_def duff_env_def)
  moreover have "own_line pair_env pair_bounds duff_fun pair_loop l b \<Longrightarrow> l \<noteq> 0" for l b
    by (auto simp: pair_lines)
  ultimately obtain First M where
    t: "loopTripCount MSP430FR5994Target pair_env pair_bounds True duff_fun pair_loop = (if First \<noteq> 0 then First else M)"
    and f: "if True \<and> (\<exists>l b. own_line pair_env pair_bounds duff_fun pair_loop l b)
     then \<exists>l. own_line pair_env pair_bounds duff_fun pair_loop l First \<and>
       (\<forall>l' b'. own_line pair_env pair_bounds duff_fun pair_loop l' b' \<longrightarrow> l \<le> l') else First = 0"
    using trip_count_priority [of pair_env pair_bounds duff_fun pair_loop MSP430FR5994Target True] by auto
  have "\<exists>l b. own_line pair_env pair_bounds duff_fun pair_loop l b" by (auto simp: pair_lines)
  then obtain l where "own_line pair_env pair_bounds duff_fun pair_loop l First"
    "\<forall>l' b'. own_line pair_env pair_bounds duff_fun pair_loop l' b' \<longrightarrow> l \<le> l'" using f by auto
  then have "First = 9" by (auto simp: pair_lines)
  then show ?thesis using t by simp
qed

end
