(* ===== verification/LoopBoundPlugin.thy ===== *)
theory LoopBoundPlugin
  imports LoopBounds
begin

text \<open>
  \<open>clang-plugin/LoopBoundPlugin.cpp\<close>: the Clang plugin that reads \<open>#pragma loop_bound(l, u)\<close> and
  \<open>#pragma recursion_bound(n)\<close>, gives every loop and function the nearest pragma before it, and
  writes the bounds to the JSON file the aggregator pass loads. Clang is a parameter: the tokens
  of a directive, the offsets, files and lines of its source locations, the nodes of the syntax
  tree in the order the visitor meets them. Messages are not modelled, the diagnostic of a
  malformed directive is.
\<close>

subsection \<open>State\<close>

record LoopBoundInfo =
  li_LowerBound :: u32
  li_UpperBound :: u32

record LoopBoundExport =
  ex_FileName :: string
  ex_Line :: u32
  ex_Column :: u32
  ex_LowerBound :: u32
  ex_UpperBound :: u32

record RecursionBoundExport =
  rx_FunctionName :: string
  rx_Bound :: u32

text \<open>The global pointers are null until the constructor of a handler makes what they point to.\<close>

record PluginState =
  pl_LoopBoundMap :: "(u32 \<times> LoopBoundInfo) list option"
  pl_LoopBoundsToExport :: "LoopBoundExport list option"
  pl_RecursionBoundMap :: "(u32 \<times> u32) list option"
  pl_RecursionBoundsToExport :: "RecursionBoundExport list option"
  pl_VerboseOutput :: bool

definition newPlugin :: PluginState where
  "newPlugin = \<lparr>pl_LoopBoundMap = None, pl_LoopBoundsToExport = None, pl_RecursionBoundMap = None,
     pl_RecursionBoundsToExport = None, pl_VerboseOutput = False\<rparr>"

definition RecursionBoundPragmaHandler :: "PluginState \<Rightarrow> PluginState" where
  "RecursionBoundPragmaHandler S =
     S\<lparr>pl_RecursionBoundMap := (case pl_RecursionBoundMap S of None \<Rightarrow> Some [] | M \<Rightarrow> M),
       pl_RecursionBoundsToExport := (case pl_RecursionBoundsToExport S of None \<Rightarrow> Some [] | X \<Rightarrow> X)\<rparr>"

definition LoopBoundPragmaHandler :: "PluginState \<Rightarrow> PluginState" where
  "LoopBoundPragmaHandler S =
     S\<lparr>pl_LoopBoundMap := (case pl_LoopBoundMap S of None \<Rightarrow> Some [] | M \<Rightarrow> M),
       pl_LoopBoundsToExport := (case pl_LoopBoundsToExport S of None \<Rightarrow> Some [] | X \<Rightarrow> X)\<rparr>"

definition CreateASTConsumer :: "PluginState \<Rightarrow> PluginState" where
  "CreateASTConsumer S = RecursionBoundPragmaHandler (LoopBoundPragmaHandler S)"

fun ParseArgs :: "string list \<Rightarrow> PluginState \<Rightarrow> PluginState" where
  "ParseArgs [] S = S"
| "ParseArgs (arg # args) S =
     ParseArgs args (if arg = ''verbose'' \<or> arg = ''-v'' then S\<lparr>pl_VerboseOutput := True\<rparr> else S)"

subsection \<open>What Clang provides\<close>

text \<open>A location is its identifier, 0 the invalid one; an invalid spelling is \<^term>\<open>None\<close>.\<close>

type_synonym SourceLocation = nat

datatype TokenKind = tok_l_paren | tok_r_paren | tok_comma | tok_numeric_constant | tok_eod | tok_other

record Token =
  tok_kind :: TokenKind
  tok_spelling :: "string option"

record Clang =
  cl_getFileOffset :: "SourceLocation \<Rightarrow> u32"
  cl_getFilename :: "SourceLocation \<Rightarrow> string"
  cl_getSpellingLineNumber :: "SourceLocation \<Rightarrow> u32"
  cl_getSpellingColumnNumber :: "SourceLocation \<Rightarrow> u32"
  cl_getAsInteger :: "string \<Rightarrow> u32 option"
  cl_MainFileName :: string
  cl_canOpen :: "string \<Rightarrow> bool"

record LabelStmt =
  ls_Decl :: ptr
  ls_BeginLoc :: SourceLocation
  ls_SubStmt :: "SourceLocation option"

record GotoStmt =
  gs_Label :: ptr
  gs_GotoLoc :: SourceLocation

datatype AstNode =
  ForStmt SourceLocation | WhileStmt SourceLocation | DoStmt SourceLocation
| FunctionDecl string SourceLocation bool | LabelNode LabelStmt | GotoNode GotoStmt | OtherNode

subsection \<open>The directives\<close>

datatype Expected = Expected_lparen | Expected_number | Expected_comma | Expected_rparen

text \<open>The preprocessor ends a directive with \<open>eod\<close> and stays there.\<close>

fun Lex :: "Token list \<Rightarrow> Token \<times> Token list" where
  "Lex [] = (\<lparr>tok_kind = tok_eod, tok_spelling = Some []\<rparr>, [])"
| "Lex (Tok # Toks) = (Tok, Toks)"

definition readNumber :: "Clang \<Rightarrow> Token \<Rightarrow> Expected + u32" where
  "readNumber env Tok =
     (if tok_kind Tok \<noteq> tok_numeric_constant then Inl Expected_number
      else case tok_spelling Tok of
        None \<Rightarrow> Inl Expected_number
      | Some Spelling \<Rightarrow>
          (case cl_getAsInteger env Spelling of None \<Rightarrow> Inl Expected_number | Some n \<Rightarrow> Inr n))"

definition parseRecursionBound :: "Clang \<Rightarrow> Token list \<Rightarrow> Expected + u32" where
  "parseRecursionBound env Toks =
     (let (Tok1, Toks1) = Lex Toks
      in if tok_kind Tok1 \<noteq> tok_l_paren then Inl Expected_lparen
         else let (Tok2, Toks2) = Lex Toks1
              in case readNumber env Tok2 of
                   Inl e \<Rightarrow> Inl e
                 | Inr Bound \<Rightarrow>
                     let (Tok3, Toks3) = Lex Toks2
                     in if tok_kind Tok3 \<noteq> tok_r_paren then Inl Expected_rparen else Inr Bound)"

definition parseLoopBoundPragma :: "Clang \<Rightarrow> Token list \<Rightarrow> Expected + LoopBoundInfo" where
  "parseLoopBoundPragma env Toks =
     (let (Tok1, Toks1) = Lex Toks
      in if tok_kind Tok1 \<noteq> tok_l_paren then Inl Expected_lparen
         else let (Tok2, Toks2) = Lex Toks1
              in case readNumber env Tok2 of
                   Inl e \<Rightarrow> Inl e
                 | Inr LowerBound \<Rightarrow>
                     let (Tok3, Toks3) = Lex Toks2
                     in if tok_kind Tok3 \<noteq> tok_comma then Inl Expected_comma
                        else let (Tok4, Toks4) = Lex Toks3
                             in case readNumber env Tok4 of
                                  Inl e \<Rightarrow> Inl e
                                | Inr UpperBound \<Rightarrow>
                                    let (Tok5, Toks5) = Lex Toks4
                                    in if tok_kind Tok5 \<noteq> tok_r_paren then Inl Expected_rparen
                                       else Inr \<lparr>li_LowerBound = LowerBound, li_UpperBound = UpperBound\<rparr>)"

text \<open>A handler gives the new state and what it expected where it gave up. It exists only after its
  constructor, so the map it writes to is there.\<close>

definition RecursionBound_HandlePragma ::
  "Clang \<Rightarrow> SourceLocation \<Rightarrow> Token list \<Rightarrow> PluginState \<Rightarrow> PluginState \<times> Expected option" where
  "RecursionBound_HandlePragma env PragmaLoc Toks S =
     (case parseRecursionBound env Toks of
        Inl e \<Rightarrow> (S, Some e)
      | Inr Bound \<Rightarrow>
          (S\<lparr>pl_RecursionBoundMap :=
               map_option (omap_put (cl_getFileOffset env PragmaLoc) Bound) (pl_RecursionBoundMap S)\<rparr>, None))"

definition LoopBound_HandlePragma ::
  "Clang \<Rightarrow> SourceLocation \<Rightarrow> Token list \<Rightarrow> PluginState \<Rightarrow> PluginState \<times> Expected option" where
  "LoopBound_HandlePragma env PragmaLoc Toks S =
     (case parseLoopBoundPragma env Toks of
        Inl e \<Rightarrow> (S, Some e)
      | Inr Info \<Rightarrow>
          (S\<lparr>pl_LoopBoundMap :=
               map_option (omap_put (cl_getFileOffset env PragmaLoc) Info) (pl_LoopBoundMap S)\<rparr>, None))"

subsection \<open>The visitor\<close>

definition AttachLoopMetadata ::
  "Clang \<Rightarrow> u32 \<Rightarrow> u32 \<Rightarrow> SourceLocation \<Rightarrow> PluginState \<Rightarrow> PluginState" where
  "AttachLoopMetadata env Lower Upper Loc S =
     S\<lparr>pl_LoopBoundsToExport :=
         map_option (\<lambda>X. X @ [\<lparr>ex_FileName = cl_getFilename env Loc,
             ex_Line = cl_getSpellingLineNumber env Loc, ex_Column = cl_getSpellingColumnNumber env Loc,
             ex_LowerBound = Lower, ex_UpperBound = Upper\<rparr>]) (pl_LoopBoundsToExport S)\<rparr>"

fun nearestPragma ::
  "u32 \<Rightarrow> (u32 \<times> LoopBoundInfo) list \<Rightarrow> u32 \<times> LoopBoundInfo option \<Rightarrow> u32 \<times> LoopBoundInfo option" where
  "nearestPragma LoopOffset [] best = best"
| "nearestPragma LoopOffset ((PragmaOffset, Info) # Entries) (BestOffset, BoundInfo) =
     nearestPragma LoopOffset Entries
       (if PragmaOffset < LoopOffset \<and> LoopOffset - PragmaOffset < 200 \<and> PragmaOffset > BestOffset
        then (PragmaOffset, Some Info) else (BestOffset, BoundInfo))"

definition ProcessLoop ::
  "Clang \<Rightarrow> SourceLocation \<Rightarrow> SourceLocation \<Rightarrow> PluginState \<Rightarrow> PluginState" where
  "ProcessLoop env Loc ExportLoc S =
     (case pl_LoopBoundMap S of
        None \<Rightarrow> S
      | Some M \<Rightarrow>
          let (BestOffset, BoundInfo) = nearestPragma (cl_getFileOffset env Loc) M (0, None)
          in case BoundInfo of
               None \<Rightarrow> S
             | Some Info \<Rightarrow>
                 (AttachLoopMetadata env (li_LowerBound Info) (li_UpperBound Info)
                    (if ExportLoc \<noteq> 0 then ExportLoc else Loc) S)
                 \<lparr>pl_LoopBoundMap := Some (omap_del BestOffset M)\<rparr>)"

fun nearestRecursion ::
  "u32 \<Rightarrow> (u32 \<times> u32) list \<Rightarrow> (u32 \<times> u32) option \<Rightarrow> (u32 \<times> u32) option" where
  "nearestRecursion FuncOffset [] best = best"
| "nearestRecursion FuncOffset ((PragmaOffset, B) # Entries) best =
     nearestRecursion FuncOffset Entries
       (if PragmaOffset < FuncOffset \<and> FuncOffset - PragmaOffset < 200 \<and>
           (case best of None \<Rightarrow> True | Some (BestOffset, Bound) \<Rightarrow> PragmaOffset > BestOffset)
        then Some (PragmaOffset, B) else best)"

definition VisitFunctionDecl :: "Clang \<Rightarrow> string \<Rightarrow> SourceLocation \<Rightarrow> bool \<Rightarrow> PluginState \<Rightarrow> PluginState" where
  "VisitFunctionDecl env Name Loc HasBody S =
     (case pl_RecursionBoundMap S of
        None \<Rightarrow> S
      | Some M \<Rightarrow>
          if \<not> HasBody then S
          else case (nearestRecursion (cl_getFileOffset env Loc) M None, pl_RecursionBoundsToExport S) of
            (Some (BestOffset, Bound), Some X) \<Rightarrow>
              S\<lparr>pl_RecursionBoundsToExport := Some (X @ [\<lparr>rx_FunctionName = Name, rx_Bound = Bound\<rparr>]),
                pl_RecursionBoundMap := Some (omap_del BestOffset M)\<rparr>
          | _ \<Rightarrow> S)"

record VisitorState =
  vs_Plugin :: PluginState
  vs_Labels :: "LabelStmt list"
  vs_Gotos :: "GotoStmt list"

fun VisitNode :: "Clang \<Rightarrow> AstNode \<Rightarrow> VisitorState \<Rightarrow> VisitorState" where
  "VisitNode env (ForStmt Loc) V = V\<lparr>vs_Plugin := ProcessLoop env Loc 0 (vs_Plugin V)\<rparr>"
| "VisitNode env (WhileStmt Loc) V = V\<lparr>vs_Plugin := ProcessLoop env Loc 0 (vs_Plugin V)\<rparr>"
| "VisitNode env (DoStmt Loc) V = V\<lparr>vs_Plugin := ProcessLoop env Loc 0 (vs_Plugin V)\<rparr>"
| "VisitNode env (FunctionDecl Name Loc HasBody) V =
     V\<lparr>vs_Plugin := VisitFunctionDecl env Name Loc HasBody (vs_Plugin V)\<rparr>"
| "VisitNode env (LabelNode L) V = V\<lparr>vs_Labels := vs_Labels V @ [L]\<rparr>"
| "VisitNode env (GotoNode G) V = V\<lparr>vs_Gotos := vs_Gotos V @ [G]\<rparr>"
| "VisitNode env OtherNode V = V"

definition isGotoLoopHeader :: "Clang \<Rightarrow> GotoStmt list \<Rightarrow> LabelStmt \<Rightarrow> bool" where
  "isGotoLoopHeader env Gotos L \<longleftrightarrow>
     list_ex (\<lambda>G. gs_Label G = ls_Decl L \<and>
       cl_getFileOffset env (gs_GotoLoc G) > cl_getFileOffset env (ls_BeginLoc L)) Gotos"

definition ProcessGotoLoops :: "Clang \<Rightarrow> VisitorState \<Rightarrow> PluginState" where
  "ProcessGotoLoops env V =
     (if pl_LoopBoundMap (vs_Plugin V) = None then vs_Plugin V
      else fold (\<lambda>L S. if isGotoLoopHeader env (vs_Gotos V) L
                       then ProcessLoop env (ls_BeginLoc L)
                              (case ls_SubStmt L of Some B \<Rightarrow> B | None \<Rightarrow> ls_BeginLoc L) S
                       else S)
             (vs_Labels V) (vs_Plugin V))"

subsection \<open>The JSON file\<close>

definition LoopObj :: "LoopBoundExport \<Rightarrow> json" where
  "LoopObj LB =
     JObject [(''file'', JString (ex_FileName LB)), (''line'', JInt (uint (ex_Line LB))),
       (''column'', JInt (uint (ex_Column LB))), (''lower_bound'', JInt (uint (ex_LowerBound LB))),
       (''upper_bound'', JInt (uint (ex_UpperBound LB)))]"

definition RecursionObj :: "RecursionBoundExport \<Rightarrow> json" where
  "RecursionObj RB =
     JObject [(''function'', JString (rx_FunctionName RB)), (''bound'', JInt (uint (rx_Bound RB)))]"

definition pl_loops :: "PluginState \<Rightarrow> LoopBoundExport list" where
  "pl_loops S = (case pl_LoopBoundsToExport S of Some X \<Rightarrow> X | None \<Rightarrow> [])"

definition pl_recursions :: "PluginState \<Rightarrow> RecursionBoundExport list" where
  "pl_recursions S = (case pl_RecursionBoundsToExport S of Some X \<Rightarrow> X | None \<Rightarrow> [])"

text \<open>The file that is written, if any, and the value in it.\<close>

definition ExportLoopBoundsJSON :: "Clang \<Rightarrow> PluginState \<Rightarrow> (string \<times> json) option" where
  "ExportLoopBoundsJSON env S =
     (if pl_loops S = [] \<and> pl_recursions S = [] then None
      else
        let Root = JObject [(''loop_bounds'', JArray (map LoopObj (pl_loops S))),
                            (''recursion_bounds'', JArray (map RecursionObj (pl_recursions S)))];
            OutputFileName = cl_MainFileName env @ ''.loop_bounds.json''
        in if \<not> cl_canOpen env OutputFileName then None else Some (OutputFileName, Root))"

text \<open>The consumer runs when the whole file is parsed, after every directive was handled.\<close>

definition HandleTranslationUnit ::
  "Clang \<Rightarrow> AstNode list \<Rightarrow> PluginState \<Rightarrow> PluginState \<times> (string \<times> json) option" where
  "HandleTranslationUnit env Visited S =
     (let V = fold (VisitNode env) Visited \<lparr>vs_Plugin = S, vs_Labels = [], vs_Gotos = []\<rparr>;
          S' = ProcessGotoLoops env V
      in (S', ExportLoopBoundsJSON env S'))"

subsection \<open>Well-formed directives\<close>

definition number :: "Clang \<Rightarrow> Token \<Rightarrow> u32 option" where
  "number env Tok =
     (if tok_kind Tok = tok_numeric_constant then Option.bind (tok_spelling Tok) (cl_getAsInteger env) else None)"

lemma readNumber_number:
  "readNumber env Tok = (case number env Tok of Some n \<Rightarrow> Inr n | None \<Rightarrow> Inl Expected_number)"
  by (auto simp: readNumber_def number_def split: option.splits)

text \<open>The shape of a directive, read off its tokens at once.\<close>

fun loop_directive :: "Clang \<Rightarrow> Token list \<Rightarrow> LoopBoundInfo option" where
  "loop_directive env (t1 # t2 # t3 # t4 # t5 # rest) =
     (if map tok_kind [t1, t3, t5] = [tok_l_paren, tok_comma, tok_r_paren] then
        (case (number env t2, number env t4) of
           (Some l, Some u) \<Rightarrow> Some \<lparr>li_LowerBound = l, li_UpperBound = u\<rparr>
         | _ \<Rightarrow> None)
      else None)"
| "loop_directive env _ = None"

lemma parseLoopBoundPragma_directive:
  "case loop_directive env Toks of
     Some Info \<Rightarrow> parseLoopBoundPragma env Toks = Inr Info
   | None \<Rightarrow> \<exists>e. parseLoopBoundPragma env Toks = Inl e"
  by (cases "(env, Toks)" rule: loop_directive.cases)
    (auto simp: parseLoopBoundPragma_def readNumber_number number_def Let_def split: option.splits)

text \<open>C29: A \<open>loop_bound\<close> directive is accepted exactly when it starts with an opening parenthesis, a
  decimal number that fits 32 bits, a comma, a second such number and a closing parenthesis; the
  bounds are then these numbers, stored under the offset of the directive, whatever tokens follow.
  Any other directive is reported and leaves the state of the plugin as it is.\<close>

theorem loop_pragma_accepted:
  "case loop_directive env Toks of
     Some Info \<Rightarrow> LoopBound_HandlePragma env Loc Toks S =
       (S\<lparr>pl_LoopBoundMap := map_option (omap_put (cl_getFileOffset env Loc) Info) (pl_LoopBoundMap S)\<rparr>, None)
   | None \<Rightarrow> \<exists>e. LoopBound_HandlePragma env Loc Toks S = (S, Some e)"
  using parseLoopBoundPragma_directive [of env Toks]
  by (auto simp: LoopBound_HandlePragma_def split: option.splits)

subsection \<open>The nearest directive\<close>

definition near :: "u32 \<Rightarrow> u32 \<Rightarrow> bool" where
  "near off p \<longleftrightarrow> 0 < unat p \<and> unat p < unat off \<and> unat off < unat p + 200"

lemma near_word: "p < off \<and> off - p < 200 \<and> p > b \<longleftrightarrow> near off p \<and> b < p" for b :: u32
  by (auto simp: near_def word_less_nat_alt unat_sub_if' split: if_splits)

lemma nearestPragma_spec:
  "nearestPragma off M (b, I) = (B, J) \<Longrightarrow>
   (\<forall>p \<in> fst ` set M. near off p \<longrightarrow> p \<le> B) \<and> b \<le> B \<and>
   ((B, J) = (b, I) \<or> (\<exists>i. J = Some i \<and> (B, i) \<in> set M \<and> near off B \<and> b < B))"
proof (induction M arbitrary: b I)
  case (Cons e M)
  obtain p i where e: "e = (p, i)" by force
  have step: "nearestPragma off (e # M) (b, I) =
      nearestPragma off M (if near off p \<and> b < p then (p, Some i) else (b, I))"
    by (simp only: e nearestPragma.simps near_word)
  show ?case
  proof (cases "near off p \<and> b < p")
    case True
    then have "nearestPragma off M (p, Some i) = (B, J)" using Cons.prems by (simp only: step if_True simp_thms)
    from Cons.IH [OF this] True show ?thesis by (auto simp: e)
  next
    case False
    then have "nearestPragma off M (b, I) = (B, J)" using Cons.prems by (simp only: step if_False)
    from Cons.IH [OF this] False show ?thesis by (auto simp: e)
  qed
qed simp

definition candidates_at :: "u32 \<Rightarrow> (u32 \<times> 'v) list \<Rightarrow> u32 set" where
  "candidates_at off M = {p \<in> fst ` set M. near off p}"

lemma candidates_Max: "candidates_at off M \<noteq> {} \<Longrightarrow> Max (candidates_at off M) \<in> candidates_at off M"
  by (rule Max_in) (simp_all add: candidates_at_def)

lemma candidates_lookup:
  "omap_ok M \<Longrightarrow> candidates_at off M \<noteq> {} \<Longrightarrow> \<exists>i. map_of M (Max (candidates_at off M)) = Some i"
  using candidates_Max [of off M] by (auto simp: candidates_at_def omap_ok_map_of)

lemma nearestPragma_Max:
  assumes "omap_ok M"
  shows "nearestPragma off M (0, None) =
    (if candidates_at off M = {} then (0, None)
     else (Max (candidates_at off M), map_of M (Max (candidates_at off M))))"
proof -
  obtain B J where n: "nearestPragma off M (0, None) = (B, J)" by force
  note s = nearestPragma_spec [OF this]
  have fin: "finite (candidates_at off M)" by (simp add: candidates_at_def)
  show ?thesis
  proof (cases "(B, J) = (0, None)")
    case True
    have "\<not> near off p" if "p \<in> fst ` set M" for p
      using s that True by (auto simp: near_def)
    then show ?thesis using True n by (auto simp: candidates_at_def)
  next
    case False
    then obtain i where i: "J = Some i" "(B, i) \<in> set M" "near off B" using s by blast
    then have "B \<in> candidates_at off M" by (force simp: candidates_at_def)
    moreover have "Max (candidates_at off M) = B"
      using s calculation by (intro Max_eqI [OF fin]) (auto simp: candidates_at_def)
    ultimately show ?thesis using n i assms by (auto simp: omap_ok_map_of)
  qed
qed

text \<open>C27: A loop takes the nearest directive that is still unused: of those that start before the loop,
  by fewer than 200 bytes, the last; its bounds are exported at the location of the loop (of the
  labelled statement, for a loop made of gotos) and the directive is used up. With no such
  directive nothing happens.\<close>

theorem nearest_pragma:
  fixes env Loc
  assumes "pl_LoopBoundMap S = Some M" "omap_ok M"
  defines "C \<equiv> candidates_at (cl_getFileOffset env Loc) M"
  shows "ProcessLoop env Loc ExportLoc S =
    (if C = {} then S
     else let Info = the (map_of M (Max C))
          in (AttachLoopMetadata env (li_LowerBound Info) (li_UpperBound Info)
                (if ExportLoc = 0 then Loc else ExportLoc) S)\<lparr>pl_LoopBoundMap := Some (omap_del (Max C) M)\<rparr>)"
proof (cases "C = {}")
  case False
  then obtain i where "map_of M (Max C) = Some i" using candidates_lookup assms(2) unfolding C_def by blast
  then show ?thesis
    using False assms(1,2) by (simp add: ProcessLoop_def nearestPragma_Max C_def)
qed (use assms(1,2) in \<open>simp add: ProcessLoop_def nearestPragma_Max C_def\<close>)


text \<open>Clang on one file whose locations are their offsets, ten bytes to a line.\<close>

definition demo_clang :: Clang where
  "demo_clang = \<lparr>cl_getFileOffset = word_of_nat, cl_getFilename = (\<lambda>_. ''a.c''),
     cl_getSpellingLineNumber = (\<lambda>l. word_of_nat (l div 10)), cl_getSpellingColumnNumber = (\<lambda>_. 1),
     cl_getAsInteger = (\<lambda>_. Some 7), cl_MainFileName = ''a.c'', cl_canOpen = (\<lambda>_. True)\<rparr>"

definition demo_plugin :: "(u32 \<times> LoopBoundInfo) list \<Rightarrow> PluginState" where
  "demo_plugin M = (CreateASTConsumer newPlugin)\<lparr>pl_LoopBoundMap := Some M\<rparr>"

definition info :: "u32 \<Rightarrow> u32 \<Rightarrow> LoopBoundInfo" where
  "info l u = \<lparr>li_LowerBound = l, li_UpperBound = u\<rparr>"

lemmas plugin_defs = demo_plugin_def demo_clang_def CreateASTConsumer_def RecursionBoundPragmaHandler_def
  LoopBoundPragmaHandler_def newPlugin_def info_def

theorem nearest_pragma_witness:
  "pl_loops (ProcessLoop demo_clang 60 0 (demo_plugin [(20, info 1 5), (50, info 2 9)])) =
     [\<lparr>ex_FileName = ''a.c'', ex_Line = 6, ex_Column = 1, ex_LowerBound = 2, ex_UpperBound = 9\<rparr>]"
proof -
  have "candidates_at (cl_getFileOffset demo_clang 60) [(20, info 1 5), (50, info 2 9)] = {20, 50}"
    by (auto simp: candidates_at_def near_def demo_clang_def)
  then show ?thesis
    using nearest_pragma [of "demo_plugin [(20, info 1 5), (50, info 2 9)]" "[(20, info 1 5), (50, info 2 9)]"
        demo_clang 60 0]
    by (simp add: plugin_defs omap_ok_def AttachLoopMetadata_def pl_loops_def)
qed

text \<open>The loops made of gotos come last: a directive meant for a label, with a backward goto to it, goes
  to a \<open>for\<close> loop further down when that one starts within its reach.\<close>

lemma goto_pragma_taken:
  "pl_loops (fst (HandleTranslationUnit demo_clang
       [LabelNode \<lparr>ls_Decl = 1, ls_BeginLoc = 40, ls_SubStmt = Some 50\<rparr>, ForStmt 60,
        GotoNode \<lparr>gs_Label = 1, gs_GotoLoc = 90\<rparr>]
       (demo_plugin [(20, info 0 5)]))) =
     [\<lparr>ex_FileName = ''a.c'', ex_Line = 6, ex_Column = 1, ex_LowerBound = 0, ex_UpperBound = 5\<rparr>]"
  by (simp add: HandleTranslationUnit_def Let_def ProcessLoop_def AttachLoopMetadata_def ProcessGotoLoops_def
      isGotoLoopHeader_def omap_del_def pl_loops_def plugin_defs)

subsection \<open>Every directive is used at most once\<close>

text \<open>The state the constructors of the handlers leave.\<close>

definition plugin_ok :: "PluginState \<Rightarrow> bool" where
  "plugin_ok S \<longleftrightarrow>
     (\<exists>M R X Y. pl_LoopBoundMap S = Some M \<and> pl_RecursionBoundMap S = Some R \<and> omap_ok M \<and> omap_ok R \<and>
        pl_LoopBoundsToExport S = Some X \<and> pl_RecursionBoundsToExport S = Some Y)"

definition loop_bounds :: "PluginState \<Rightarrow> (u32 \<times> u32) multiset" where
  "loop_bounds S =
     mset (map (\<lambda>E. (ex_LowerBound E, ex_UpperBound E)) (pl_loops S)) +
     mset (map (\<lambda>(p, I). (li_LowerBound I, li_UpperBound I)) (case pl_LoopBoundMap S of Some M \<Rightarrow> M | None \<Rightarrow> []))"

definition recursion_bounds :: "PluginState \<Rightarrow> u32 multiset" where
  "recursion_bounds S =
     mset (map rx_Bound (pl_recursions S)) +
     mset (map snd (case pl_RecursionBoundMap S of Some R \<Rightarrow> R | None \<Rightarrow> []))"

definition conserves :: "PluginState \<Rightarrow> PluginState \<Rightarrow> bool" where
  "conserves S S' \<longleftrightarrow>
     plugin_ok S' \<and> loop_bounds S' = loop_bounds S \<and> recursion_bounds S' = recursion_bounds S"

lemma conserves_refl: "plugin_ok S \<Longrightarrow> conserves S S"
  by (simp add: conserves_def)

lemma conserves_trans: "conserves S S' \<Longrightarrow> conserves S' S'' \<Longrightarrow> conserves S S''"
  by (simp add: conserves_def)

lemma mset_omap_del:
  "omap_ok m \<Longrightarrow> map_of m k = Some v \<Longrightarrow> mset m = add_mset (k, v) (mset (omap_del k m))"
proof (induction m)
  case (Cons e m)
  have ok: "omap_ok m" using Cons.prems(1) by (simp add: omap_ok_def)
  show ?case
  proof (cases "fst e = k")
    case True
    have "k \<notin> fst ` set m" using omap_ok_distinct [OF Cons.prems(1)] True by auto
    then have "omap_del k m = m" by (force simp: omap_del_def filter_id_conv)
    then show ?thesis using True Cons.prems(2) by (cases e) (auto simp: omap_del_def)
  next
    case False
    then show ?thesis using Cons.IH [OF ok] Cons.prems(2) by (cases e) (auto simp: omap_del_def)
  qed
qed simp

lemma ProcessLoop_conserves: "plugin_ok S \<Longrightarrow> conserves S (ProcessLoop env Loc ExportLoc S)"
proof -
  assume ok: "plugin_ok S"
  then obtain M R X Y where S: "pl_LoopBoundMap S = Some M" "pl_RecursionBoundMap S = Some R" "omap_ok M"
      "omap_ok R" "pl_LoopBoundsToExport S = Some X" "pl_RecursionBoundsToExport S = Some Y"
    by (auto simp: plugin_ok_def)
  let ?C = "candidates_at (cl_getFileOffset env Loc) M"
  show ?thesis
  proof (cases "?C = {}")
    case True
    then show ?thesis using conserves_refl [OF ok] S(1,3) by (simp add: ProcessLoop_def nearestPragma_Max)
  next
    case False
    then obtain i where i: "map_of M (Max ?C) = Some i" using candidates_lookup S(3) by blast
    show ?thesis
      using S False i mset_omap_del [OF S(3) i]
      by (simp add: conserves_def plugin_ok_def loop_bounds_def recursion_bounds_def ProcessLoop_def
          nearestPragma_Max AttachLoopMetadata_def pl_loops_def pl_recursions_def)
  qed
qed

lemma nearestRecursion_mem:
  "nearestRecursion off M best = Some (B, b) \<Longrightarrow> best = Some (B, b) \<or> (B, b) \<in> set M"
  by (induction off M best rule: nearestRecursion.induct) (auto split: if_splits)

lemma VisitFunctionDecl_conserves:
  "plugin_ok S \<Longrightarrow> conserves S (VisitFunctionDecl env Name Loc HasBody S)"
proof -
  assume ok: "plugin_ok S"
  then obtain M R X Y where S: "pl_LoopBoundMap S = Some M" "pl_RecursionBoundMap S = Some R" "omap_ok M"
      "omap_ok R" "pl_LoopBoundsToExport S = Some X" "pl_RecursionBoundsToExport S = Some Y"
    by (auto simp: plugin_ok_def)
  show ?thesis
  proof (cases "HasBody \<and> nearestRecursion (cl_getFileOffset env Loc) R None \<noteq> None")
    case True
    then obtain B b where n: "nearestRecursion (cl_getFileOffset env Loc) R None = Some (B, b)" by auto
    then have i: "map_of R B = Some b" using nearestRecursion_mem S(4) by (fastforce simp: omap_ok_map_of)
    show ?thesis
      using S True n mset_omap_del [OF S(4) i]
      by (simp add: conserves_def plugin_ok_def loop_bounds_def recursion_bounds_def VisitFunctionDecl_def
          pl_loops_def pl_recursions_def)
  next
    case False
    then show ?thesis using conserves_refl [OF ok] S by (auto simp: VisitFunctionDecl_def split: option.splits)
  qed
qed

lemma VisitNode_conserves: "plugin_ok (vs_Plugin V) \<Longrightarrow> conserves (vs_Plugin V) (vs_Plugin (VisitNode env N V))"
  by (cases N) (simp_all add: ProcessLoop_conserves VisitFunctionDecl_conserves conserves_refl)

lemma fold_conserves:
  assumes "\<And>x s. plugin_ok (g s) \<Longrightarrow> conserves (g s) (g (f x s))"
  shows "plugin_ok (g s) \<Longrightarrow> conserves (g s) (g (fold f xs s))"
proof (induction xs arbitrary: s)
  case (Cons x xs)
  have c: "conserves (g s) (g (f x s))" using assms Cons.prems .
  then have "plugin_ok (g (f x s))" by (simp add: conserves_def)
  from conserves_trans [OF c Cons.IH [OF this]] show ?case by simp
qed (simp add: conserves_refl)

lemma ProcessGotoLoops_conserves:
  "plugin_ok (vs_Plugin V) \<Longrightarrow> conserves (vs_Plugin V) (ProcessGotoLoops env V)"
  unfolding ProcessGotoLoops_def
  using fold_conserves [of "\<lambda>S. S" "\<lambda>L S. if isGotoLoopHeader env (vs_Gotos V) L
      then ProcessLoop env (ls_BeginLoc L) (case ls_SubStmt L of Some B \<Rightarrow> B | None \<Rightarrow> ls_BeginLoc L) S else S"
      "vs_Plugin V" "vs_Labels V"]
  by (simp add: ProcessLoop_conserves conserves_refl)

text \<open>C28: No annotation is invented, duplicated or dropped by the visitor: whatever the syntax tree,
  the exported bounds together with the directives still unused are exactly the directives there
  were, for loops and for recursion; so a directive bounds at most one loop.\<close>

theorem pragmas_used_once:
  assumes "plugin_ok S"
  shows "conserves S (fst (HandleTranslationUnit env Visited S))"
proof -
  let ?V = "fold (VisitNode env) Visited \<lparr>vs_Plugin = S, vs_Labels = [], vs_Gotos = []\<rparr>"
  have "conserves S (vs_Plugin ?V)"
    using fold_conserves [of vs_Plugin "VisitNode env" "\<lparr>vs_Plugin = S, vs_Labels = [], vs_Gotos = []\<rparr>"]
      VisitNode_conserves assms by simp
  then show ?thesis
    using conserves_trans ProcessGotoLoops_conserves [of ?V env]
    by (simp add: HandleTranslationUnit_def Let_def conserves_def)
qed

lemma CreateASTConsumer_ok: "plugin_ok (CreateASTConsumer newPlugin)"
  by (simp add: plugin_ok_def CreateASTConsumer_def RecursionBoundPragmaHandler_def LoopBoundPragmaHandler_def
      newPlugin_def)

theorem pragmas_used_once_witness:
  "loop_bounds (fst (HandleTranslationUnit demo_clang [WhileStmt 60, DoStmt 70] (demo_plugin [(20, info 1 5)]))) =
     {#(1, 5)#}"
proof -
  have ok: "plugin_ok (demo_plugin [(20, info 1 5)])"
    by (simp add: plugin_ok_def plugin_defs omap_ok_def)
  have "loop_bounds (demo_plugin [(20, info 1 5)]) = {#(1, 5)#}"
    by (simp add: loop_bounds_def pl_loops_def plugin_defs)
  then show ?thesis
    using pragmas_used_once [OF ok, of demo_clang "[WhileStmt 60, DoStmt 70]"] by (simp add: conserves_def)
qed

subsection \<open>The aggregator reads what the plugin wrote\<close>

definition asJSONLoopBound :: "LoopBoundExport \<Rightarrow> JSONLoopBound" where
  "asJSONLoopBound E = \<lparr>FileName = ex_FileName E, Line = ex_Line E, Column = ex_Column E,
     jb_LowerBound = ex_LowerBound E, jb_UpperBound = ex_UpperBound E\<rparr>"

lemma uint_fits: "- (2 ^ 63) \<le> uint w \<and> uint w < 2 ^ 63" for w :: u32
proof -
  have "uint w < 4294967296" using uint_lt2p [of w] by simp
  moreover have "- (2 ^ 63) \<le> (0 :: int)" "(4294967296 :: int) < 2 ^ 63" by simp_all
  ultimately show ?thesis using uint_ge_0 [of w] by (meson order_trans less_trans)
qed

lemma parseLoopBounds_LoopObj: "parseLoopBounds junk (map LoopObj Es) = map asJSONLoopBound Es"
  by (induction Es)
    (simp_all add: LoopObj_def parseLoopBound_def getString_def getInteger_def asJSONLoopBound_def
      uint_fits [simplified])

lemma parseRecursionBounds_RecursionObj:
  "parseRecursionBounds (map RecursionObj Rs) B =
   foldl (\<lambda>B R. if rx_Bound R = 0 then B else omap_put (rx_FunctionName R) (rx_Bound R) B) B Rs"
proof -
  have "0 < uint w \<longleftrightarrow> w \<noteq> 0" for w :: u32
    by (metis order.strict_iff_order uint_0_iff uint_ge_0)
  then show ?thesis
    by (induction Rs arbitrary: B)
      (auto simp: RecursionObj_def getString_def getInteger_def uint_fits [simplified])
qed

text \<open>C26: What the plugin exports is what the analysis loads: reading the file the plugin wrote gives
  the aggregator pass every exported loop bound, in order, with its file, line, column and both
  bounds intact, whatever uninitialised memory holds; of the recursion bounds it gets the last
  one of each function, a bound of zero being dropped.\<close>

theorem export_load_roundtrip:
  assumes "ExportLoopBoundsJSON env S = Some (JSONPath, Root)" "readJSON JSONPath = Some Root"
  shows "loadLoopBoundsFromJSON readJSON junk JSONPath = map asJSONLoopBound (pl_loops S) \<and>
    loadRecursionBoundsFromJSON readJSON JSONPath =
      foldl (\<lambda>B R. if rx_Bound R = 0 then B else omap_put (rx_FunctionName R) (rx_Bound R) B) []
        (pl_recursions S)"
  using assms
  by (auto simp: ExportLoopBoundsJSON_def Let_def loadLoopBoundsFromJSON_def loadRecursionBoundsFromJSON_def
      getArray_def parseLoopBounds_LoopObj parseRecursionBounds_RecursionObj split: if_splits)

definition demo_export :: LoopBoundExport where
  "demo_export = \<lparr>ex_FileName = ''a.c'', ex_Line = 6, ex_Column = 1, ex_LowerBound = 2, ex_UpperBound = 9\<rparr>"

definition demo_exported :: PluginState where
  "demo_exported = (demo_plugin [])\<lparr>pl_LoopBoundsToExport := Some [demo_export],
     pl_RecursionBoundsToExport := Some [\<lparr>rx_FunctionName = ''f'', rx_Bound = 3\<rparr>]\<rparr>"

theorem export_load_roundtrip_witness:
  "let (path, Root) = the (ExportLoopBoundsJSON demo_clang demo_exported)
   in loadLoopBoundsFromJSON [path \<mapsto> Root] undefined path = [asJSONLoopBound demo_export] \<and>
      loadRecursionBoundsFromJSON [path \<mapsto> Root] path = [(''f'', 3)]"
proof -
  obtain path Root where x: "ExportLoopBoundsJSON demo_clang demo_exported = Some (path, Root)"
    by (simp add: ExportLoopBoundsJSON_def Let_def pl_loops_def demo_exported_def plugin_defs)
  have "pl_loops demo_exported = [demo_export]"
    "pl_recursions demo_exported = [\<lparr>rx_FunctionName = ''f'', rx_Bound = 3\<rparr>]"
    by (simp_all add: pl_loops_def pl_recursions_def demo_exported_def)
  then show ?thesis using export_load_roundtrip [OF x, of "[path \<mapsto> Root]" undefined] by (simp add: x)
qed

end
