(* ===== verification/GraphPasses.thy ===== *)
theory GraphPasses
  imports FinalizeProps TimingResults AbstractStateGraph
    "HOL-Library.List_Lexorder" "HOL-Library.Char_ord"
begin

text \<open>
  The choice of the function the analysis starts at (\<open>StartFunction.cpp\<close>), the pass that fills
  the program graph function by function and finalises it with the last one
  (\<open>FillMuGraphPass.cpp\<close>), and the conversion of an abstract state graph back into a program
  graph (\<open>GraphAdapter.cpp\<close>). LLVM's call graph is the list of its entries in the order it is
  walked in, each with its function (null for the external node) and its number of references.
\<close>

subsection \<open>The start function\<close>

type_synonym CallGraph = "(ptr option \<times> u32) list"

record StartChoice =
  sc_Override :: "ptr option"
  sc_Main :: "ptr option"
  sc_MinRef :: "ptr option"
  sc_MinNumRef :: u32

definition startStep ::
  "(ptr \<Rightarrow> string) \<Rightarrow> string \<Rightarrow> ptr option \<times> u32 \<Rightarrow> StartChoice \<Rightarrow> StartChoice" where
  "startStep getName Opt Entry S =
     (case fst Entry of
        None \<Rightarrow> S
      | Some F \<Rightarrow>
          let NumRef = snd Entry;
              S1 = (if Opt \<noteq> [] \<and> getName F = Opt then S\<lparr>sc_Override := Some F\<rparr> else S);
              S2 = (if getName F = ''main'' then S1\<lparr>sc_Main := Some F\<rparr> else S1)
          in if (case sc_MinRef S2 of
                   None \<Rightarrow> True
                 | Some M \<Rightarrow> NumRef < sc_MinNumRef S2 \<or>
                     NumRef = sc_MinNumRef S2 \<and> getName F < getName M)
             then S2\<lparr>sc_MinRef := Some F, sc_MinNumRef := NumRef\<rparr>
             else S2)"

definition findStartFunction :: "(ptr \<Rightarrow> string) \<Rightarrow> string \<Rightarrow> CallGraph \<Rightarrow> ptr option" where
  "findStartFunction getName Opt CG =
     (let S = fold (startStep getName Opt) CG
                \<lparr>sc_Override = None, sc_Main = None, sc_MinRef = None, sc_MinNumRef = - 1\<rparr>
      in if sc_Override S \<noteq> None then sc_Override S
         else if sc_Main S \<noteq> None then sc_Main S
         else sc_MinRef S)"

subsection \<open>Filling the graph, function by function\<close>

text \<open>The state the pass keeps from one function to the next; the call graph it caches is the
  module's and the same for all.\<close>

record FillState =
  FoundStartingFunction :: bool
  StartingFunction :: "ptr option"

definition newFillState :: FillState where
  "newFillState = \<lparr>FoundStartingFunction = False, StartingFunction = None\<rparr>"

text \<open>What it asks of LLVM: names and declarations of the functions, the functions of the module
  in order, and the call graph.\<close>

record ModuleInfo =
  mod_Functions :: FunctionInfo
  mod_FunctionList :: "ptr list"
  mod_CallGraph :: CallGraph

definition lastDefined :: "ModuleInfo \<Rightarrow> ptr option" where
  "lastDefined M =
     fold (\<lambda>Func LastF. if \<not> fn_isDeclaration (mod_Functions M) Func then Some Func else LastF)
       (mod_FunctionList M) None"

definition isEntryFunction :: "Options \<Rightarrow> MachineFunction \<Rightarrow> FillState \<Rightarrow> bool" where
  "isEntryFunction Opt F S =
     (if StartFunctionName Opt \<noteq> [] then mf_name F = StartFunctionName Opt
      else StartingFunction S = Some (mf_function F))"

definition FillMuGraph_run ::
  "Options \<Rightarrow> ModuleInfo \<Rightarrow> MachineFunction \<Rightarrow> MachineLoopInfo \<Rightarrow> FillState \<times> TimingAnalysisResults
   \<Rightarrow> (FillState \<times> TimingAnalysisResults) option" where
  "FillMuGraph_run Opt M F MLI st =
     (let (S, TAR) = st;
          S1 = (if StartFunctionName Opt \<noteq> [] then S\<lparr>FoundStartingFunction := True\<rparr> else S);
          S2 = (if \<not> FoundStartingFunction S1
                then S1\<lparr>StartingFunction :=
                       findStartFunction (fn_name (mod_Functions M)) (StartFunctionName Opt) (mod_CallGraph M)\<rparr>
                else S1)
      in do {
        Lat \<leftarrow> getMBBLatencyMap TAR;
        G \<leftarrow> fillGraphWithFunction F (isEntryFunction Opt F S2) Lat (getLoopBoundMap TAR) (Some MLI)
               (set (getIrreducibleBackEdges TAR)) (MASG TAR);
        if lastDefined M = Some (mf_function F) then do {
          Target \<leftarrow> getTarget TAR;
          G' \<leftarrow> finalize (mod_Functions M) (Some (rt_getExternalCallCost Target))
                  (map_of (getRecursionBoundMap TAR)) G;
          Some (S2, TAR\<lparr>MASG := G'\<rparr>)
        }
        else Some (S2, TAR\<lparr>MASG := G\<rparr>)
      })"

subsection \<open>From an abstract state graph back to a program graph\<close>

text \<open>The function a block belongs to comes from LLVM. The map from the old to the new ids is
  filled as the nodes are made.\<close>

definition captureCallee :: "nat \<Rightarrow> MachineInstr \<Rightarrow> ProgramGraph \<Rightarrow> ProgramGraph option" where
  "captureCallee PGNodeId MI PG =
     (if \<not> mi_isCall MI then Some PG
      else case mi_operands MI of
        [] \<Rightarrow> None
      | MO_GlobalAddress (GV_Function F) # _ \<Rightarrow>
          Some (PG\<lparr>CallSites := CallSites PG @
            [\<lparr>CallNode = PGNodeId, Callee = F, LandingNode = 0, HasLanding = False\<rparr>]\<rparr>)
      | _ \<Rightarrow> Some PG)"

fun captureCallees :: "nat \<Rightarrow> MachineInstr list \<Rightarrow> ProgramGraph \<Rightarrow> ProgramGraph option" where
  "captureCallees PGNodeId [] PG = Some PG"
| "captureCallees PGNodeId (MI # MIs) PG =
     do { PG' \<leftarrow> captureCallee PGNodeId MI PG; captureCallees PGNodeId MIs PG' }"

definition convertBlock ::
  "(ptr \<Rightarrow> MachineFunction option) \<Rightarrow> nat \<Rightarrow> MachineBasicBlock \<Rightarrow> ProgramGraph \<Rightarrow> ProgramGraph option" where
  "convertBlock getParent PGNodeId MBB PG =
     (let PG1 =
        (case getParent (mbb_id MBB) of
           None \<Rightarrow> PG
         | Some MF \<Rightarrow>
             let P = (case mf_blocks MF of
                        [] \<Rightarrow> PG
                      | B # _ \<Rightarrow>
                          if mbb_id MBB = mbb_id B
                          then PG\<lparr>FunctionToEntryNodeMap :=
                                 omap_put (mf_function MF) PGNodeId (FunctionToEntryNodeMap PG)\<rparr>
                          else PG)
             in if mbb_isReturnBlock MBB
                then P\<lparr>FunctionToReturnNodesMap :=
                       omap_put (mf_function MF)
                         (omap_get [] (FunctionToReturnNodesMap P) (mf_function MF) @ [PGNodeId])
                         (FunctionToReturnNodesMap P)\<rparr>
                else P)
      in captureCallees PGNodeId (mbb_instrs MBB) PG1)"

fun convertNodes ::
  "('s \<Rightarrow> string) \<Rightarrow> (ptr \<Rightarrow> MachineFunction option) \<Rightarrow> (nat \<times> 's ASGNode) list
   \<Rightarrow> (nat \<times> nat) list \<Rightarrow> ProgramGraph \<Rightarrow> ((nat \<times> nat) list \<times> ProgramGraph) option" where
  "convertNodes toString getParent [] M PG = Some (M, PG)"
| "convertNodes toString getParent ((ASGNodeId, N) # Ns) M PG =
     do {
       let State = \<lparr>MinCycles = Cost N, MaxCycles = Cost N, DebugInfo = toString (asg_State N)\<rparr>;
       (PGNodeId, PG1) \<leftarrow> addNode State (map_option mbb_id (asg_MBB N)) PG;
       PG2 \<leftarrow> (case asg_MBB N of None \<Rightarrow> Some PG1 | Some MBB \<Rightarrow> convertBlock getParent PGNodeId MBB PG1);
       convertNodes toString getParent Ns (omap_put ASGNodeId PGNodeId M) PG2
     }"

fun convertSuccs ::
  "(nat \<times> nat) list \<Rightarrow> nat \<Rightarrow> EdgeSet \<Rightarrow> ProgramGraph \<Rightarrow> ProgramGraph option" where
  "convertSuccs M FromPGNode [] PG = Some PG"
| "convertSuccs M FromPGNode (Edge # Es) PG =
     (case map_of M (fst Edge) of
        None \<Rightarrow> convertSuccs M FromPGNode Es PG
      | Some ToPGNode \<Rightarrow> do { PG' \<leftarrow> addEdge FromPGNode ToPGNode PG; convertSuccs M FromPGNode Es PG' })"

fun convertEdges ::
  "'s AbstractStateGraph \<Rightarrow> (nat \<times> nat) list \<Rightarrow> (nat \<times> 's ASGNode) list \<Rightarrow> ProgramGraph
   \<Rightarrow> ProgramGraph option" where
  "convertEdges ASG M [] PG = Some PG"
| "convertEdges ASG M ((ASGNodeId, N) # Ns) PG =
     do {
       PG' \<leftarrow> convertSuccs M (omap_get 0 M ASGNodeId) (asg_getSuccessors ASG ASGNodeId) PG;
       convertEdges ASG M Ns PG'
     }"

definition convert ::
  "('s \<Rightarrow> string) \<Rightarrow> (ptr \<Rightarrow> MachineFunction option) \<Rightarrow> 's AbstractStateGraph
   \<Rightarrow> (nat \<times> nat) list \<Rightarrow> ((nat \<times> nat) list \<times> ProgramGraph) option" where
  "convert toString getParent ASG NewNodesMap =
     do {
       (M, PG) \<leftarrow> convertNodes toString getParent (asg_Nodes ASG) NewNodesMap emptyPG;
       PG' \<leftarrow> convertEdges ASG M (asg_Nodes ASG) PG;
       Some (M, PG')
     }"

subsection \<open>Which function is chosen\<close>

lemma startStep_None [simp]: "startStep getName Opt (None, n) S = S"
  by (simp add: startStep_def)

lemma pair_less: "((n :: u32, a :: string) < (m, b)) = (n < m \<or> n = m \<and> a < b)"
  by auto

lemma startStep_sel:
  "sc_Override (startStep getName Opt (Some F, n) S) =
     (if Opt \<noteq> [] \<and> getName F = Opt then Some F else sc_Override S)"
  "sc_Main (startStep getName Opt (Some F, n) S) =
     (if getName F = ''main'' then Some F else sc_Main S)"
  "(sc_MinRef (startStep getName Opt (Some F, n) S), sc_MinNumRef (startStep getName Opt (Some F, n) S)) =
     (if case sc_MinRef S of None \<Rightarrow> True | Some M \<Rightarrow> (n, getName F) < (sc_MinNumRef S, getName M)
      then (Some F, n) else (sc_MinRef S, sc_MinNumRef S))"
proof -
  let ?c = "case sc_MinRef S of None \<Rightarrow> True
    | Some M \<Rightarrow> n < sc_MinNumRef S \<or> n = sc_MinNumRef S \<and> getName F < getName M"
  define a where "a = (Opt \<noteq> [] \<and> getName F = Opt)"
  define b where "b = (getName F = ''main'')"
  define S2 where "S2 = (let S1 = if a then S\<lparr>sc_Override := Some F\<rparr> else S in
    if b then S1\<lparr>sc_Main := Some F\<rparr> else S1)"
  have S2: "sc_Override S2 = (if a then Some F else sc_Override S)" "sc_Main S2 = (if b then Some F else sc_Main S)"
    "sc_MinRef S2 = sc_MinRef S" "sc_MinNumRef S2 = sc_MinNumRef S"
    by (simp_all add: S2_def)
  have step: "startStep getName Opt (Some F, n) S =
      (if ?c then S2\<lparr>sc_MinRef := Some F, sc_MinNumRef := n\<rparr> else S2)"
    unfolding S2 [symmetric] by (simp only: startStep_def S2_def a_def b_def Let_def fst_conv snd_conv option.case)
  show "sc_Override (startStep getName Opt (Some F, n) S) =
      (if Opt \<noteq> [] \<and> getName F = Opt then Some F else sc_Override S)"
    "sc_Main (startStep getName Opt (Some F, n) S) = (if getName F = ''main'' then Some F else sc_Main S)"
    using S2 by (simp_all add: step a_def b_def)
  show "(sc_MinRef (startStep getName Opt (Some F, n) S), sc_MinNumRef (startStep getName Opt (Some F, n) S)) =
     (if case sc_MinRef S of None \<Rightarrow> True | Some M \<Rightarrow> (n, getName F) < (sc_MinNumRef S, getName M)
      then (Some F, n) else (sc_MinRef S, sc_MinNumRef S))"
    unfolding step pair_less using S2 by simp
qed

definition named :: "(ptr \<Rightarrow> string) \<Rightarrow> CallGraph \<Rightarrow> string \<Rightarrow> ptr set" where
  "named getName CG s = {F. Some F \<in> fst ` set CG \<and> getName F = s}"

text \<open>One of a set of functions is remembered, if there is any.\<close>

definition picks :: "ptr option \<Rightarrow> ptr set \<Rightarrow> bool" where
  "picks o' A \<longleftrightarrow> (case o' of Some F \<Rightarrow> F \<in> A | None \<Rightarrow> A = {})"

definition least :: "(ptr \<Rightarrow> string) \<Rightarrow> CallGraph \<Rightarrow> ptr option \<times> u32 \<Rightarrow> bool" where
  "least getName CG m \<longleftrightarrow>
     (case fst m of
        Some F \<Rightarrow> m \<in> set CG \<and> (\<forall>H n. (Some H, n) \<in> set CG \<longrightarrow> (snd m, getName F) \<le> (n, getName H))
      | None \<Rightarrow> fst ` set CG \<subseteq> {None})"

lemma named_snoc:
  "named getName (CG @ [(None, n)]) s = named getName CG s"
  "named getName (CG @ [(Some F, n)]) s = named getName CG s \<union> (if getName F = s then {F} else {})"
  by (auto simp: named_def image_iff)

lemma picks_if: "picks o' A \<Longrightarrow> picks (if c then Some F else o') (A \<union> (if c then {F} else {}))"
  by (auto simp: picks_def split: option.splits)

lemma least_step:
  assumes "least getName CG (M, m)"
  shows "least getName (CG @ [(Some F, n)])
     (if case M of None \<Rightarrow> True | Some M' \<Rightarrow> (n, getName F) < (m, getName M') then (Some F, n) else (M, m))"
proof (cases M)
  case None
  then have "(Some H, k) \<notin> set CG" for H k using assms by (force simp: least_def)
  then show ?thesis using None by (simp add: least_def)
next
  case (Some M')
  have M: "(Some M', m) \<in> set CG" "\<And>H k. (Some H, k) \<in> set CG \<Longrightarrow> (m, getName M') \<le> (k, getName H)"
    using assms by (auto simp: least_def Some)
  show ?thesis
  proof (cases "(n, getName F) < (m, getName M')")
    case True
    then have "(n, getName F) \<le> (k, getName H)" if "(Some H, k) \<in> set CG" for H k
      using M(2) [OF that] by order
    then show ?thesis using True Some by (simp add: least_def)
  next
    case False
    then have "(m, getName M') \<le> (n, getName F)" by order
    then show ?thesis using False Some M by (auto simp: least_def)
  qed
qed

lemma start_loop:
  fixes getName Opt
  defines "S \<equiv> \<lambda>CG. fold (startStep getName Opt) CG
    \<lparr>sc_Override = None, sc_Main = None, sc_MinRef = None, sc_MinNumRef = - 1\<rparr>"
  shows "picks (sc_Override (S CG)) (if Opt = [] then {} else named getName CG Opt) \<and>
    picks (sc_Main (S CG)) (named getName CG ''main'') \<and>
    least getName CG (sc_MinRef (S CG), sc_MinNumRef (S CG))"
proof (induction CG rule: rev_induct)
  case Nil
  then show ?case by (simp add: S_def picks_def named_def least_def)
next
  case (snoc E CG)
  obtain f n where E: "E = (f, n)" by force
  have S: "S (CG @ [E]) = startStep getName Opt E (S CG)" "S (CG @ [(f, n)]) = startStep getName Opt (f, n) (S CG)"
    by (simp_all add: S_def)
  show ?case
  proof (cases f)
    case None
    have "least getName (CG @ [(None, n)]) m = least getName CG m" for m
      by (auto simp: least_def split: option.splits)
    moreover have "S (CG @ [E]) = S CG" unfolding S(1) by (simp only: E None startStep_None)
    ultimately show ?thesis using snoc by (cases "Opt = []") (simp_all add: E None named_snoc)
  next
    case (Some F)
    note l = least_step [OF conjunct2 [OF conjunct2 [OF snoc]], of F n]
    have "picks (sc_Override (S (CG @ [E]))) (if Opt = [] then {} else named getName (CG @ [E]) Opt)"
      using picks_if [OF conjunct1 [OF snoc], of "Opt \<noteq> [] \<and> getName F = Opt" F]
      by (cases "Opt = []") (simp_all add: S(2) [unfolded Some] E Some startStep_sel named_snoc)
    moreover have "picks (sc_Main (S (CG @ [E]))) (named getName (CG @ [E]) ''main'')"
      unfolding E Some S(2) [unfolded Some] startStep_sel named_snoc
      by (rule picks_if) (use snoc in blast)
    moreover have "least getName (CG @ [E]) (sc_MinRef (S (CG @ [E])), sc_MinNumRef (S (CG @ [E])))"
      using l unfolding E Some S(2) [unfolded Some] startStep_sel(3) .
    ultimately show ?thesis by blast
  qed
qed



subsection \<open>What the conversion keeps\<close>

lemma same_nodes_pg:
  assumes "Nodes G' = Nodes G" "NextNodeId G' = NextNodeId G"
  shows "node_at G' = node_at G" "pg_wf G' = pg_wf G" "node_ids G' = node_ids G"
proof -
  show n: "node_at G' = node_at G" using assms by (simp add: node_at_def fun_eq_iff)
  show "pg_wf G' = pg_wf G" "node_ids G' = node_ids G"
    unfolding pg_wf_def node_at_edges(1,2,4) [OF n] n using assms by simp_all
qed

definition operands_ok :: "MachineInstr list \<Rightarrow> bool" where
  "operands_ok MIs \<longleftrightarrow> (\<forall>MI \<in> set MIs. mi_isCall MI \<longrightarrow> mi_operands MI \<noteq> [])"

lemma captureCallees_spec:
  "operands_ok MIs \<Longrightarrow> \<exists>G'. captureCallees i MIs G = Some G' \<and> Nodes G' = Nodes G \<and> NextNodeId G' = NextNodeId G"
proof (induction MIs arbitrary: G)
  case (Cons MI MIs)
  have "\<exists>G1. captureCallee i MI G = Some G1 \<and> Nodes G1 = Nodes G \<and> NextNodeId G1 = NextNodeId G"
    using Cons.prems
    by (auto simp: captureCallee_def operands_ok_def split: list.splits MachineOperand.splits GlobalValue.splits)
  then obtain G1 where "captureCallee i MI G = Some G1" "Nodes G1 = Nodes G" "NextNodeId G1 = NextNodeId G"
    by blast
  then show ?case using Cons.IH [of G1] Cons.prems by (auto simp: operands_ok_def)
qed simp

lemma convertBlock_spec:
  assumes "operands_ok (mbb_instrs B)"
  shows "\<exists>G'. convertBlock gp i B G = Some G' \<and> Nodes G' = Nodes G \<and> NextNodeId G' = NextNodeId G"
proof -
  define G1 where "G1 = (case gp (mbb_id B) of
           None \<Rightarrow> G
         | Some MF \<Rightarrow>
             let P = (case mf_blocks MF of
                        [] \<Rightarrow> G
                      | B' # _ \<Rightarrow>
                          if mbb_id B = mbb_id B'
                          then G\<lparr>FunctionToEntryNodeMap :=
                                 omap_put (mf_function MF) i (FunctionToEntryNodeMap G)\<rparr>
                          else G)
             in if mbb_isReturnBlock B
                then P\<lparr>FunctionToReturnNodesMap :=
                       omap_put (mf_function MF)
                         (omap_get [] (FunctionToReturnNodesMap P) (mf_function MF) @ [i])
                         (FunctionToReturnNodesMap P)\<rparr>
                else P)"
  have "Nodes G1 = Nodes G \<and> NextNodeId G1 = NextNodeId G"
    by (auto simp: G1_def Let_def split: option.splits list.splits)
  then show ?thesis
    using captureCallees_spec [OF assms, of i G1] by (simp add: convertBlock_def G1_def [symmetric])
qed

definition convState :: "('s \<Rightarrow> string) \<Rightarrow> 's ASGNode \<Rightarrow> MuArchState" where
  "convState toString N = \<lparr>MinCycles = Cost N, MaxCycles = Cost N, DebugInfo = toString (asg_State N)\<rparr>"

definition blocks_ok :: "(nat \<times> 's ASGNode) list \<Rightarrow> bool" where
  "blocks_ok Ns \<longleftrightarrow> (\<forall>p \<in> set Ns. \<forall>B. asg_MBB (snd p) = Some B \<longrightarrow> operands_ok (mbb_instrs B))"

definition conv_nodes ::
  "('s \<Rightarrow> string) \<Rightarrow> (nat \<times> 's ASGNode) list \<Rightarrow> (nat \<times> nat) list \<Rightarrow> ProgramGraph
   \<Rightarrow> (nat \<times> nat) list \<Rightarrow> ProgramGraph \<Rightarrow> bool" where
  "conv_nodes toString Ns M G M' G' \<longleftrightarrow>
     pg_wf G' \<and> NextNodeId G' = NextNodeId G + length Ns \<and>
     (\<forall>k < length Ns. map_of M' (fst (Ns ! k)) = Some (NextNodeId G + k)) \<and>
     (\<forall>i. i \<notin> fst ` set Ns \<longrightarrow> map_of M' i = map_of M i) \<and>
     (\<forall>j. node_at G' j =
        (if NextNodeId G \<le> j \<and> j < NextNodeId G + length Ns
         then Some (newNode j (convState toString (snd (Ns ! (j - NextNodeId G))))) else node_at G j))"

lemma convertNodes_spec:
  assumes "pg_wf G" "NextNodeId G + length Ns < 2 ^ 32" "distinct (map fst Ns)" "blocks_ok Ns"
  shows "\<exists>M' G'. convertNodes toString gp Ns M G = Some (M', G') \<and> conv_nodes toString Ns M G M' G'"
  using assms
proof (induction Ns arbitrary: M G)
  case Nil
  then show ?case by (auto simp: conv_nodes_def)
next
  case (Cons p Ns)
  obtain i N where p: "p = (i, N)" by force
  let ?n = "NextNodeId G" and ?St = "convState toString N"
  have room: "?n + 1 < 2 ^ 32" using Cons.prems(2) by simp
  obtain G1 where G1: "addNode ?St (map_option mbb_id (asg_MBB N)) G = Some (?n, G1)"
    using addNode_ok [OF room] by blast
  note a = addNode_spec [OF Cons.prems(1) room G1]
  obtain G2 where G2: "(case asg_MBB N of None \<Rightarrow> Some G1 | Some MBB \<Rightarrow> convertBlock gp ?n MBB G1) = Some G2"
    "Nodes G2 = Nodes G1" "NextNodeId G2 = NextNodeId G1"
  proof (cases "asg_MBB N")
    case (Some B)
    then have "operands_ok (mbb_instrs B)" using Cons.prems(4) by (simp add: blocks_ok_def p)
    then show ?thesis using convertBlock_spec [of B gp ?n G1] Some that by auto
  qed (use that in auto)
  note s = same_nodes_pg [OF G2(2,3)]
  have n2: "NextNodeId G2 = ?n + 1" using G2(3) a(2) by simp
  obtain M' G' where r: "convertNodes toString gp Ns (omap_put i ?n M) G2 = Some (M', G')"
    "conv_nodes toString Ns (omap_put i ?n M) G2 M' G'"
    using Cons.IH [of G2 "omap_put i ?n M"] Cons.prems a(5) s(2) n2 by (auto simp: blocks_ok_def)
  note c = r(2) [unfolded conv_nodes_def n2]
  have "conv_nodes toString (p # Ns) M G M' G'"
    unfolding conv_nodes_def
  proof (intro conjI allI impI)
    fix k assume "k < length (p # Ns)"
    then show "map_of M' (fst ((p # Ns) ! k)) = Some (?n + k)"
      using c Cons.prems(3) by (cases k) (auto simp: p)
  next
    fix j
    have "node_at G j = None" if "?n \<le> j"
      using pg_wf_ids_less [OF Cons.prems(1), of j] that by (cases "node_at G j") (auto simp: node_ids_def)
    then show "node_at G' j = (if ?n \<le> j \<and> j < ?n + length (p # Ns)
        then Some (newNode j (convState toString (snd ((p # Ns) ! (j - ?n))))) else node_at G j)"
      using c a(3) s(1) by (cases "j = ?n") (auto simp: p nth_Cons' Suc_le_eq)
  qed (use c in \<open>auto simp: p\<close>)
  then show ?case
    using G1 G2(1) r(1) by (auto simp: p convState_def Let_def)
qed


definition newEdges :: "(nat \<times> nat) list \<Rightarrow> nat \<Rightarrow> EdgeSet \<Rightarrow> (nat \<times> nat) set" where
  "newEdges M i Es = {(i, b) | b. \<exists>e \<in> set Es. map_of M (fst e) = Some b}"

lemma newEdges_simps:
  "newEdges M i [] = {}"
  "newEdges M i (e # Es) = (case map_of M (fst e) of Some t \<Rightarrow> {(i, t)} | None \<Rightarrow> {}) \<union> newEdges M i Es"
  by (auto simp: newEdges_def split: option.splits)

lemma convertSuccs_spec:
  "pg_wf G \<Longrightarrow> i \<in> node_ids G \<Longrightarrow> ran (map_of M) \<subseteq> node_ids G \<Longrightarrow>
   \<exists>G'. convertSuccs M i Es G = Some G' \<and> grown G (newEdges M i Es) {} G'"
proof (induction Es arbitrary: G)
  case Nil
  then show ?case using grown_refl by (auto simp: newEdges_simps)
next
  case (Cons e Es)
  show ?case
  proof (cases "map_of M (fst e)")
    case None
    then show ?thesis using Cons.IH [OF Cons.prems] by (simp add: newEdges_simps)
  next
    case (Some t)
    then have "t \<in> node_ids G" using Cons.prems(3) by (auto intro: ranI)
    then obtain G1 where G1: "addEdge i t G = Some G1" "grown G {(i, t)} {} G1"
      using addEdge_grown [of G i t] Cons.prems by blast
    note g = grownD [OF G1(2)]
    obtain G2 where "convertSuccs M i Es G1 = Some G2" "grown G1 (newEdges M i Es) {} G2"
      using Cons.IH [of G1] Cons.prems g(1,3) by auto
    then show ?thesis using G1(1) grown_trans [OF G1(2)] Some by (fastforce simp: newEdges_simps)
  qed
qed

lemma convertEdges_spec:
  "pg_wf G \<Longrightarrow> \<forall>p \<in> set Ns. omap_get 0 M (fst p) \<in> node_ids G \<Longrightarrow> ran (map_of M) \<subseteq> node_ids G \<Longrightarrow>
   \<exists>G'. convertEdges A M Ns G = Some G' \<and>
     grown G (\<Union>p \<in> set Ns. newEdges M (omap_get 0 M (fst p)) (asg_getSuccessors A (fst p))) {} G'"
proof (induction Ns arbitrary: G)
  case Nil
  then show ?case using grown_refl by auto
next
  case (Cons p Ns)
  obtain i N where p: "p = (i, N)" by force
  let ?E = "newEdges M (omap_get 0 M i) (asg_getSuccessors A i)"
  have "omap_get 0 M i \<in> node_ids G" using Cons.prems(2) by (simp add: p)
  then obtain G1 where G1: "convertSuccs M (omap_get 0 M i) (asg_getSuccessors A i) G = Some G1" "grown G ?E {} G1"
    using convertSuccs_spec Cons.prems by blast
  note g = grownD [OF G1(2)]
  obtain G2 where "convertEdges A M Ns G1 = Some G2"
    "grown G1 (\<Union>p \<in> set Ns. newEdges M (omap_get 0 M (fst p)) (asg_getSuccessors A (fst p))) {} G2"
    using Cons.IH [of G1] Cons.prems g(1,3) by auto
  then show ?case using G1(1) grown_trans [OF G1(2)] by (fastforce simp: p)
qed

lemma node_bodyD:
  "node_body N = node_body P \<Longrightarrow> nd_State N = nd_State P \<and> nd_Name N = nd_Name P \<and>
     IsLoop N = IsLoop P \<and> UpperLoopBound N = UpperLoopBound P"
  by (cases N; cases P; simp add: node_body_def)

definition converted ::
  "('s \<Rightarrow> string) \<Rightarrow> 's AbstractStateGraph \<Rightarrow> (nat \<times> nat) list \<Rightarrow> ProgramGraph \<Rightarrow> bool" where
  "converted toString G M PG \<longleftrightarrow>
     (let m = omap_get 0 M; ids = fst ` set (asg_Nodes G) in
      pg_wf PG \<and> inj_on m ids \<and> node_ids PG = m ` ids \<and>
      (\<forall>i N. asg_getNode G i = Some N \<longrightarrow>
         succs PG (m i) = m ` {j \<in> ids. asg_edge G i j} \<and>
         (\<exists>P. node_at PG (m i) = Some P \<and> nd_State P = convState toString N \<and>
            nd_Name P = [] \<and> \<not> IsLoop P \<and> UpperLoopBound P = None \<and> BackEdgePredecessors P = [])))"

lemma image_of_keys: "{b. \<exists>e \<in> E. fst e \<in> A \<and> f (fst e) = b} = f ` {j \<in> A. j \<in> fst ` E}"
  by (auto intro!: imageI)

text \<open>C23: The conversion of an abstract state graph into a program graph succeeds and copies it under
  an injective renumbering: the nodes with their cost as both bounds, and the edges between
  nodes; no loop header, loop bound, back edge, entry or exit mark survives, so the converted
  graph alone gives no bound for a loop. The graph has fewer than \<open>2 ^ 32\<close> nodes, so that the counter of
  the ids does not wrap around, and every call instruction in its
  blocks has an operand (\<open>blocks_ok\<close>), which the conversion reads without asking.\<close>

theorem convert_copies:
  assumes "asg_wf G" "blocks_ok (asg_Nodes G)" "length (asg_Nodes G) < 2 ^ 32"
  shows "\<exists>M PG. convert toString getParent G [] = Some (M, PG) \<and> converted toString G M PG"
proof -
  let ?Ns = "asg_Nodes G"
  have d: "distinct (map fst ?Ns)" using assms(1) omap_ok_distinct by (auto simp: asg_wf_def)
  have z: "NextNodeId emptyPG = 0" "node_at emptyPG j = None" for j by (simp_all add: emptyPG_def node_at_def)
  obtain M PG where n: "convertNodes toString getParent ?Ns [] emptyPG = Some (M, PG)"
    "conv_nodes toString ?Ns [] emptyPG M PG"
    using convertNodes_spec [of emptyPG ?Ns toString getParent "[]"] assms(2,3) d z(1) by auto
  note c = n(2) [unfolded conv_nodes_def]
  have m: "map_of M (fst (?Ns ! k)) = Some k" if "k < length ?Ns" for k using c that by (simp add: z)
  have ids: "node_ids PG = {..<length ?Ns}" using c by (auto simp: node_ids_def z)
  have inM: "t < length ?Ns \<and> i = fst (?Ns ! t)" if "map_of M i = Some t" for i t
  proof -
    have "i \<in> fst ` set ?Ns" using c that by (metis map_of.simps(1) option.distinct(1))
    then obtain k where "k < length ?Ns" "i = fst (?Ns ! k)" by (auto simp: in_set_conv_nth)
    then show ?thesis using m [of k] that by simp
  qed
  have get: "omap_get 0 M (fst (?Ns ! k)) = k" if "k < length ?Ns" for k
    using m [OF that] by (simp add: omap_get_def)
  have elem: "\<exists>k < length ?Ns. i = fst (?Ns ! k) \<and> omap_get 0 M i = k" if i: "i \<in> fst ` set ?Ns" for i
  proof -
    obtain q where q: "q \<in> set ?Ns" "i = fst q" using i by auto
    then obtain k where "k < length ?Ns" "q = ?Ns ! k" by (auto simp: in_set_conv_nth)
    then show ?thesis using q(2) get by blast
  qed
  have at: "\<forall>p \<in> set ?Ns. omap_get 0 M (fst p) \<in> node_ids PG"
    using get ids by (metis in_set_conv_nth lessThan_iff)
  have "ran (map_of M) \<subseteq> node_ids PG" using inM by (auto simp: ids ran_def)
  then obtain PG' where e: "convertEdges G M ?Ns PG = Some PG'"
    "grown PG (\<Union>p \<in> set ?Ns. newEdges M (omap_get 0 M (fst p)) (asg_getSuccessors G (fst p))) {} PG'"
    using convertEdges_spec [of PG ?Ns M G] c at by blast
  note g = grownD [OF e(2)]
  have node: "succs PG' k = {b. \<exists>e \<in> set (asg_getSuccessors G (fst (?Ns ! k))). map_of M (fst e) = Some b} \<and>
      (\<exists>P. node_at PG' k = Some P \<and> nd_State P = convState toString (snd (?Ns ! k)) \<and>
         nd_Name P = [] \<and> \<not> IsLoop P \<and> UpperLoopBound P = None \<and> BackEdgePredecessors P = [])"
    if k: "k < length ?Ns" for k
  proof
    have n0: "node_at PG k = Some (newNode k (convState toString (snd (?Ns ! k))))" using c k by (simp add: z)
    have "map_option node_body (node_at PG' k) = map_option node_body (node_at PG k)" "backs PG' k = backs PG k"
      using e(2) by (simp_all add: grown_def)
    then show "\<exists>P. node_at PG' k = Some P \<and> nd_State P = convState toString (snd (?Ns ! k)) \<and>
         nd_Name P = [] \<and> \<not> IsLoop P \<and> UpperLoopBound P = None \<and> BackEdgePredecessors P = []"
      by (auto simp: n0 backs_def newNode_def dest!: node_bodyD)
    have "(k, b) \<in> (\<Union>p \<in> set ?Ns. newEdges M (omap_get 0 M (fst p)) (asg_getSuccessors G (fst p))) \<longleftrightarrow>
      (\<exists>e \<in> set (asg_getSuccessors G (fst (?Ns ! k))). map_of M (fst e) = Some b)" for b
    proof -
      have "p = ?Ns ! k" if p: "p \<in> set ?Ns" "k = omap_get 0 M (fst p)" for p
      proof -
        obtain l where "l < length ?Ns" "p = ?Ns ! l" using p(1) by (auto simp: in_set_conv_nth)
        then show ?thesis using p(2) get by simp
      qed
      moreover have "?Ns ! k \<in> set ?Ns" "k = omap_get 0 M (fst (?Ns ! k))" using k get by simp_all
      ultimately show ?thesis by (auto simp: newEdges_def)
    qed
    moreover have "succs PG k = {}" by (simp add: succs_def n0 newNode_def)
    ultimately show "succs PG' k = {b. \<exists>e \<in> set (asg_getSuccessors G (fst (?Ns ! k))). map_of M (fst e) = Some b}"
      using e(2) by (simp add: grown_def)
  qed
  have "converted toString G M PG'"
    unfolding converted_def Let_def
  proof (intro conjI allI impI)
    show "pg_wf PG'" by (rule g(1))
    show "inj_on (omap_get 0 M) (fst ` set ?Ns)"
      by (rule inj_onI) (metis elem)
    show "node_ids PG' = omap_get 0 M ` fst ` set ?Ns"
    proof (intro set_eqI iffI)
      fix k assume "k \<in> node_ids PG'"
      then have "k < length ?Ns" by (simp add: g(3) ids)
      then show "k \<in> omap_get 0 M ` fst ` set ?Ns" using get by (metis imageI nth_mem)
    next
      fix k assume "k \<in> omap_get 0 M ` fst ` set ?Ns"
      then show "k \<in> node_ids PG'" using elem by (fastforce simp: g(3) ids)
    qed
  next
    fix i N assume "asg_getNode G i = Some N"
    then have "(i, N) \<in> set ?Ns" by (simp add: asg_getNode_def map_of_SomeD)
    then obtain k where k: "k < length ?Ns" "?Ns ! k = (i, N)" by (auto simp: in_set_conv_nth)
    have mk: "omap_get 0 M i = k" using get [OF k(1)] k(2) by simp
    show "\<exists>P. node_at PG' (omap_get 0 M i) = Some P \<and> nd_State P = convState toString N \<and>
            nd_Name P = [] \<and> \<not> IsLoop P \<and> UpperLoopBound P = None \<and> BackEdgePredecessors P = []"
      using node [OF k(1)] mk k(2) by simp
    have "map_of M j = Some b \<longleftrightarrow> j \<in> fst ` set ?Ns \<and> omap_get 0 M j = b" for j b
    proof
      assume "map_of M j = Some b"
      then have "b < length ?Ns" "j = fst (?Ns ! b)" using inM by blast+
      then show "j \<in> fst ` set ?Ns \<and> omap_get 0 M j = b" using get by simp
    next
      assume "j \<in> fst ` set ?Ns \<and> omap_get 0 M j = b"
      then show "map_of M j = Some b" using elem [of j] m by auto
    qed
    then show "succs PG' (omap_get 0 M i) = omap_get 0 M ` {j \<in> fst ` set ?Ns. asg_edge G i j}"
    proof -
      assume eq: "\<And>j b. (map_of M j = Some b) = (j \<in> fst ` set ?Ns \<and> omap_get 0 M j = b)"
      have "succs PG' (omap_get 0 M i) =
          {b. \<exists>e \<in> set (asg_getSuccessors G i). fst e \<in> fst ` set ?Ns \<and> omap_get 0 M (fst e) = b}"
        using node [OF k(1)] mk k(2) by (simp only: eq fst_conv)
      also have "\<dots> = omap_get 0 M ` {j \<in> fst ` set ?Ns. j \<in> fst ` set (asg_getSuccessors G i)}"
        by (rule image_of_keys)
      finally show ?thesis by (simp only: asg_edge_def)
    qed
  qed
  then show ?thesis using n(1) e(1) by (simp add: convert_def)
qed


definition conv_demo :: "unit AbstractStateGraph" where
  "conv_demo = asg_addEdge 0 1 False (snd (asg_addNode () (Some \<lparr>mbb_id = 7, mbb_name = ''b'',
     mbb_instrs = [], mbb_succs = [], mbb_preds = [], mbb_isReturnBlock = True, mbb_fallThrough = None\<rparr>)
       (snd (asg_addNode () None emptyASG))))"

theorem convert_copies_witness:
  "\<exists>M PG. convert (\<lambda>_. ''s'') (\<lambda>_. None) conv_demo [] = Some (M, PG) \<and> converted (\<lambda>_. ''s'') conv_demo M PG"
proof -
  have n: "asg_Nodes conv_demo = [(0, newASGNode 0 () None), (1, newASGNode 1 () (Some \<lparr>mbb_id = 7, mbb_name = ''b'',
     mbb_instrs = [], mbb_succs = [], mbb_preds = [], mbb_isReturnBlock = True, mbb_fallThrough = None\<rparr>))]"
    by (simp add: conv_demo_def asg_defs emptyASG_def Let_def)
  have "asg_wf conv_demo"
    unfolding conv_demo_def by (intro wf_intros)
  moreover have "blocks_ok (asg_Nodes conv_demo)"
    by (simp add: n blocks_ok_def newASGNode_def operands_ok_def)
  ultimately show ?thesis
    using convert_copies [of conv_demo "\<lambda>_. ''s''" "\<lambda>_. None"] n by simp
qed

end
