(* ===== verification/PathAnalysis.thy ===== *)
theory PathAnalysis
  imports ILPPaths ProgramSolver TimingResults
begin

text \<open>
  \<open>PathAnalysisPass::doFinalization\<close>: the solver on the finished program graph, the integer
  program on the graph it leaves, and the report. Building the program with or without HiGHS
  (\<open>ENABLE_HIGHS\<close>) is the choice of a solver or none; what goes to \<open>outs()\<close> is the report. The
  printed value is the objective rounded to the nearest integer and cast to 32 bits.
\<close>

subsection \<open>The pass\<close>

datatype Report =
  NoILPSolver
| ReportWCET u32 "string set" "string set"
| ReportFailed string

definition llround :: "rat \<Rightarrow> int" where
  "llround x = (if x \<ge> 0 then \<lfloor>x + 1 / 2\<rfloor> else \<lceil>x - 1 / 2\<rceil>)"

definition PathAnalysis_finish ::
  "IndetBounds \<Rightarrow> (HighsModel \<Rightarrow> HighsAnswer) option \<Rightarrow> TimingAnalysisResults \<Rightarrow> Report option" where
  "PathAnalysis_finish Indet Solver TAR =
     do {
       Target \<leftarrow> getTarget TAR;
       AnalysisWorker \<leftarrow> run_PG (rt_getPipeline Target) Indet (MASG TAR) newSolver;
       Some (case Solver of
               None \<Rightarrow> NoILPSolver
             | Some highs \<Rightarrow>
                 let Result = solveWCET highs (ws_Graph AnalysisWorker)
                 in if WCET Result > 0
                    then ReportWCET (word_of_int (llround (WCET Result))) (getUnsoundReasons TAR)
                           (UnsoundExternalCallees (MASG TAR))
                    else ReportFailed (ilp_Status Result))
     }"

subsection \<open>Executions of the program graph\<close>

text \<open>The same notions as on the abstract state graph, read off the program graph itself: the
  calls that have a landing node and the edges they take, the loop bound at each header that has
  a back edge (\<open>Indet\<close> where none was set), the cycles of the nodes.\<close>

definition pg_sites :: "ProgramGraph \<Rightarrow> CallSite list" where
  "pg_sites PG =
     filter (\<lambda>CS. HasLanding CS \<and> CallNode CS \<in> node_ids PG \<and> LandingNode CS \<in> node_ids PG) (CallSites PG)"

definition pg_callEdges :: "ProgramGraph \<Rightarrow> CallSite \<Rightarrow> (nat \<times> nat) list" where
  "pg_callEdges PG CS =
     (case map_of (FunctionToEntryNodeMap PG) (Callee CS) of
        Some n \<Rightarrow> if n \<in> node_ids PG then [(CallNode CS, n)] else []
      | None \<Rightarrow> [])"

definition pg_returnEdges :: "ProgramGraph \<Rightarrow> CallSite \<Rightarrow> (nat \<times> nat) list" where
  "pg_returnEdges PG CS =
     map (\<lambda>R. (R, LandingNode CS))
       (filter (\<lambda>n. n \<in> node_ids PG) (omap_get [] (FunctionToReturnNodesMap PG) (Callee CS)))"

definition pg_can_return :: "ProgramGraph \<Rightarrow> CallSite \<Rightarrow> bool" where
  "pg_can_return PG CS \<longleftrightarrow> list_ex (\<lambda>(a, b). b \<in> succs PG a) (pg_returnEdges PG CS)"

definition pg_calls_matched :: "ProgramGraph \<Rightarrow> nat list \<Rightarrow> bool" where
  "pg_calls_matched PG p \<longleftrightarrow>
     (case matched (pg_callEdges PG) (pg_returnEdges PG) (pg_sites PG) [] (steps p) of
        Some stk \<Rightarrow> list_all (\<lambda>CS. \<not> pg_can_return PG CS) stk
      | None \<Rightarrow> False)"

definition pg_bound :: "IndetBounds \<Rightarrow> Node \<Rightarrow> u32" where
  "pg_bound Indet P = (case UpperLoopBound P of Some b \<Rightarrow> b | None \<Rightarrow> Indet (nd_Id P))"

definition pg_loops_bounded :: "IndetBounds \<Rightarrow> ProgramGraph \<Rightarrow> nat list \<Rightarrow> bool" where
  "pg_loops_bounded Indet PG p \<longleftrightarrow>
     (\<forall>h P. node_at PG h = Some P \<and> BackEdgePredecessors P \<noteq> [] \<and> pg_bound Indet P > 0 \<longrightarrow>
        within_bound (\<lambda>a. backFlag PG a h) h (unat (pg_bound Indet P)) 0 (steps p))"

definition pg_is_exit :: "ProgramGraph \<Rightarrow> nat \<Rightarrow> bool" where
  "pg_is_exit PG i \<longleftrightarrow>
     (case node_at PG i of Some P \<Rightarrow> nd_Name P = ''Exit'' \<or> Successors P = [] | None \<Rightarrow> False)"

definition pg_execution :: "IndetBounds \<Rightarrow> ProgramGraph \<Rightarrow> nat list \<Rightarrow> bool" where
  "pg_execution Indet PG p \<longleftrightarrow>
     p \<noteq> [] \<and> set p \<subseteq> node_ids PG \<and> (\<forall>(a, b) \<in> set (steps p). b \<in> succs PG a) \<and>
     hd p = EntryNodeId PG \<and> pg_is_exit PG (last p) \<and>
     pg_loops_bounded Indet PG p \<and> pg_calls_matched PG p"

definition pg_cost :: "ProgramGraph \<Rightarrow> nat list \<Rightarrow> int" where
  "pg_cost PG p =
     (\<Sum>i \<leftarrow> p. case node_at PG i of Some P \<Rightarrow> uint (MaxCycles (nd_State P)) | None \<Rightarrow> 0)"

text \<open>What the analysis expects of the graph: one entry, which nothing leads to and which alone
  is marked by its name or by having no predecessor, and call sites that share no edge.\<close>

definition pg_ready :: "ProgramGraph \<Rightarrow> bool" where
  "pg_ready PG \<longleftrightarrow>
     pg_wf PG \<and> maps_ok PG \<and> EntryNodeId PG \<in> node_ids PG \<and> preds PG (EntryNodeId PG) = {} \<and>
     (\<forall>i P. node_at PG i = Some P \<and> (nd_Name P = ''Entry'' \<or> Predecessors P = []) \<longrightarrow>
        i = EntryNodeId PG) \<and>
     distinct (concat (map (\<lambda>CS. pg_callEdges PG CS @ pg_returnEdges PG CS) (pg_sites PG)))"

subsection \<open>Renumbering\<close>

lemma find_map: "List.find P (map f xs) = map_option f (List.find (\<lambda>x. P (f x)) xs)"
  by (induction xs) simp_all

lemma steps_map: "steps (map m p) = map (map_prod m m) (steps p)"
  by (simp add: steps_def map_tl [symmetric] zip_map_map map_prod_def)

lemma steps_set: "set (steps p) \<subseteq> set p \<times> set p"
  by (cases p) (auto simp: steps_def dest: set_zip_leftD set_zip_rightD)

lemma find_cong_set: "(\<And>x. x \<in> set xs \<Longrightarrow> P x = Q x) \<Longrightarrow> List.find P xs = List.find Q xs"
  by (induction xs) auto

lemma map_prod_mem:
  assumes "inj_on m I" "e \<in> I \<times> I" "set E \<subseteq> I \<times> I"
  shows "map_prod m m e \<in> set (map (map_prod m m) E) \<longleftrightarrow> e \<in> set E"
  unfolding set_map by (rule inj_on_image_mem_iff [OF map_prod_inj_on [OF assms(1,1)] assms(2,3)])

lemma matched_map:
  assumes inj: "inj_on m I"
    and ce: "\<And>CS. CS \<in> set Cs \<Longrightarrow> ce' (f CS) = map (map_prod m m) (ce CS) \<and> set (ce CS) \<subseteq> I \<times> I"
    and re: "\<And>CS. CS \<in> set Cs \<Longrightarrow> re' (f CS) = map (map_prod m m) (re CS) \<and> set (re CS) \<subseteq> I \<times> I"
  shows "set es \<subseteq> I \<times> I \<Longrightarrow> set stk \<subseteq> set Cs \<Longrightarrow>
    matched ce' re' (map f Cs) (map f stk) (map (map_prod m m) es) =
    map_option (map f) (matched ce re Cs stk es)"
proof (induction es arbitrary: stk)
  case (Cons e es)
  note IH = Cons.IH and prems = Cons.prems(2)
  let ?e = "map_prod m m e"
  have e: "e \<in> I \<times> I" "set es \<subseteq> I \<times> I" using Cons.prems(1) by auto
  have c: "?e \<in> set (ce' (f CS)) \<longleftrightarrow> e \<in> set (ce CS)" if "CS \<in> set Cs" for CS
    using map_prod_mem [OF inj e(1)] ce [OF that] by metis
  have r: "?e \<in> set (re' (f CS)) \<longleftrightarrow> e \<in> set (re CS)" if "CS \<in> set Cs" for CS
    using map_prod_mem [OF inj e(1)] re [OF that] by metis
  have find: "List.find (\<lambda>CS. ?e \<in> set (ce' CS)) (map f Cs) = map_option f (List.find (\<lambda>CS. e \<in> set (ce CS)) Cs)"
    unfolding find_map using find_cong_set [of Cs "\<lambda>CS. ?e \<in> set (ce' (f CS))" "\<lambda>CS. e \<in> set (ce CS)"] c by simp
  have ex: "list_ex (\<lambda>CS. ?e \<in> set (re' CS)) (map f Cs) = list_ex (\<lambda>CS. e \<in> set (re CS)) Cs"
    using r by (auto simp: list_ex_iff)
  show ?case
  proof (cases "List.find (\<lambda>CS. e \<in> set (ce CS)) Cs")
    case (Some C)
    then have "C \<in> set Cs" by (auto simp: find_Some_iff)
    then show ?thesis using IH [OF e(2), of "C # stk"] prems Some find by simp
  next
    case None
    show ?thesis
    proof (cases stk)
      case Nil
      then show ?thesis using IH [OF e(2), of "[]"] None find ex by simp
    next
      case (Cons C stk1)
      then have "C \<in> set Cs" "set stk1 \<subseteq> set Cs" using Cons.prems(2) by auto
      then show ?thesis
        using IH [OF e(2), of stk] IH [OF e(2), of stk1] prems Cons None find ex r by simp
    qed
  qed
qed simp

lemma within_bound_map:
  assumes inj: "inj_on m I" and h: "h \<in> I"
  shows "set es \<subseteq> I \<times> I \<Longrightarrow> (\<And>a. (a, h) \<in> set es \<Longrightarrow> bk' (m a) = bk a) \<Longrightarrow>
    within_bound bk' (m h) B r (map (map_prod m m) es) = within_bound bk h B r es"
proof (induction es arbitrary: r)
  case (Cons e es)
  obtain a b where e: "e = (a, b)" by force
  then have "m b = m h \<longleftrightarrow> b = h" using Cons.prems(1) h inj_onD [OF inj, of b h] by auto
  moreover have "b = h \<Longrightarrow> bk' (m a) = bk a" using Cons.prems(2) e by auto
  ultimately show ?case using Cons.IH Cons.prems by (simp add: e)
qed simp

subsection \<open>The copy of an execution\<close>

lemma steps_in: "set p \<subseteq> I \<Longrightarrow> set (steps p) \<subseteq> I \<times> I"
  using steps_set [of p] by blast

lemma unique_filter:
  assumes "distinct xs" "{x \<in> set xs. P x} = {y}"
  shows "filter P xs = [y]"
proof -
  have s: "set (filter P xs) = {y}" using assms(2) by simp
  have "length (filter P xs) = 1" using distinct_card [OF distinct_filter [OF assms(1)], of P] s by simp
  then obtain z where "filter P xs = [z]" by (auto simp: length_Suc_conv)
  then show ?thesis using s by simp
qed

text \<open>A call site of the program graph, as the solver copies it.\<close>

definition site_copy :: "(nat \<Rightarrow> nat) \<Rightarrow> CallSite \<Rightarrow> ASGCallSite" where
  "site_copy m CS = \<lparr>CallNodeId = m (CallNode CS), ReturnNodeId = m (LandingNode CS), asg_Callee = Callee CS\<rparr>"

lemma pg_copyD:
  assumes "pg_copy PG Indet m G"
  shows "asg_wf G" "inj_on m (node_ids PG)" "asg_ids G = m ` node_ids PG"
    "\<And>i P. node_at PG i = Some P \<Longrightarrow> \<exists>N. asg_getNode G (m i) = Some N \<and> copied_node Indet P N"
    "\<And>a b. asg_edge G a b \<longleftrightarrow> (\<exists>i j. a = m i \<and> b = m j \<and> j \<in> succs PG i)"
    "\<And>i e. i \<in> node_ids PG \<Longrightarrow> e \<in> set (asg_getSuccessors G (m i)) \<Longrightarrow>
       \<exists>j \<in> node_ids PG. fst e = m j \<and> snd e = backFlag PG i j"
    "\<And>F. map_of (FunctionEntries G) F = (case map_of (FunctionToEntryNodeMap PG) F of
           Some n \<Rightarrow> if n \<in> node_ids PG then Some (m n) else None | None \<Rightarrow> None)"
    "\<And>F. omap_get [] (FunctionReturns G) F =
        map m (filter (\<lambda>n. n \<in> node_ids PG) (omap_get [] (FunctionToReturnNodesMap PG) F))"
    "asg_CallSites G = map (site_copy m) (pg_sites PG)"
  using assms unfolding pg_copy_def pg_sites_def site_copy_def by blast+

lemma site_edges:
  assumes "pg_copy PG Indet m G" "CS \<in> set (pg_sites PG)"
  shows "callEdges G (site_copy m CS) = map (map_prod m m) (pg_callEdges PG CS)"
    "returnEdges G (site_copy m CS) = map (map_prod m m) (pg_returnEdges PG CS)"
    "set (pg_callEdges PG CS) \<subseteq> node_ids PG \<times> node_ids PG"
    "set (pg_returnEdges PG CS) \<subseteq> node_ids PG \<times> node_ids PG"
  using assms(2) pg_copyD(7,8) [OF assms(1)]
  by (auto simp: callEdges_def returnEdges_def pg_callEdges_def pg_returnEdges_def site_copy_def pg_sites_def
      split: option.splits)

lemma copied_edge:
  assumes c: "pg_copy PG Indet m G" and wf: "pg_wf PG" and a: "a \<in> node_ids PG"
  shows "b \<in> node_ids PG \<Longrightarrow> asg_edge G (m a) (m b) \<longleftrightarrow> b \<in> succs PG a"
    and "b \<in> succs PG a \<Longrightarrow> isBackInto G (m b) (m a) = backFlag PG a b"
proof -
  note d = pg_copyD [OF c]
  have eq: "m i = m j \<longleftrightarrow> i = j" if "i \<in> node_ids PG" "j \<in> node_ids PG" for i j
    using d(2) that by (auto dest: inj_onD)
  show edge: "asg_edge G (m a) (m b) \<longleftrightarrow> b \<in> succs PG a" if "b \<in> node_ids PG" for b
    unfolding d(5) using pg_wf_succs_exist [OF wf] a that eq by metis
  show "isBackInto G (m b) (m a) = backFlag PG a b" if b: "b \<in> succs PG a"
  proof -
    have bi: "b \<in> node_ids PG" using pg_wf_succs_exist [OF wf b] by blast
    have flag: "snd e = backFlag PG a b" if "e \<in> set (asg_getSuccessors G (m a))" "fst e = m b" for e
      using d(6) [OF a that(1)] that(2) eq [OF _ bi] by metis
    obtain e where "e \<in> set (asg_getSuccessors G (m a))" "fst e = m b"
      using edge [OF bi] b by (auto simp: asg_edge_def)
    moreover from this have "snd e = backFlag PG a b" using flag by blast
    ultimately show ?thesis using flag unfolding isBackInto_def list_ex_iff by metis
  qed
qed

lemma map_single: "(\<Sum>i \<leftarrow> map m p. f i) = (\<Sum>i \<leftarrow> p. f (m i))"
  by (simp add: comp_def)

lemma copied_cost:
  assumes c: "pg_copy PG Indet m G" and p: "set p \<subseteq> node_ids PG"
  shows "path_cost G (map m p) = pg_cost PG p"
proof -
  have "(case asg_getNode G (m i) of Some N \<Rightarrow> uint (Cost N) | None \<Rightarrow> 0) =
      (case node_at PG i of Some P \<Rightarrow> uint (MaxCycles (nd_State P)) | None \<Rightarrow> 0)"
    if "i \<in> set p" for i
  proof -
    have "i \<in> node_ids PG" using p that by blast
    then obtain P where P: "node_at PG i = Some P" by (auto simp: node_ids_def)
    then show ?thesis using pg_copyD(4) [OF c P] by (auto simp: copied_node_def)
  qed
  then have "map (\<lambda>i. case asg_getNode G (m i) of Some N \<Rightarrow> uint (Cost N) | None \<Rightarrow> 0) p =
      map (\<lambda>i. case node_at PG i of Some P \<Rightarrow> uint (MaxCycles (nd_State P)) | None \<Rightarrow> 0) p"
    by (rule map_cong [OF refl])
  then show ?thesis by (simp only: path_cost_def pg_cost_def map_single)
qed

lemma copied_single_entry:
  assumes c: "pg_copy PG Indet m G" and r: "pg_ready PG"
  shows "single_entry G" "node_holds IsEntry G (m (EntryNodeId PG))"
proof -
  note d = pg_copyD [OF c]
  let ?e = "EntryNodeId PG"
  have wf: "pg_wf PG" and en: "?e \<in> node_ids PG" and np: "preds PG ?e = {}" using r by (simp_all add: pg_ready_def)
  obtain E where E: "node_at PG ?e = Some E" using en by (auto simp: node_ids_def)
  obtain N where N: "asg_getNode G (m ?e) = Some N" "copied_node Indet E N" using d(4) [OF E] by blast
  have "Predecessors E = []" using np E by (simp add: preds_def)
  then have ie: "IsEntry N" using N(2) by (simp add: copied_node_def)
  then show "node_holds IsEntry G (m ?e)" using N(1) by (simp add: node_holds_def)
  have dist: "distinct (map fst (asg_Nodes G))" and ok: "omap_ok (asg_Nodes G)"
    using d(1) omap_ok_distinct by (auto simp: asg_wf_def)
  have mem: "(u, M) \<in> set (asg_Nodes G) \<longleftrightarrow> asg_getNode G u = Some M" for u M
    using omap_ok_map_of [OF ok] by (simp add: asg_getNode_def)
  have only: "u = m ?e" if u: "asg_getNode G u = Some M" "IsEntry M" for u M
  proof -
    have "u \<in> m ` node_ids PG" using u(1) d(3) by (auto simp: asg_ids_def)
    then obtain i P where i: "u = m i" "node_at PG i = Some P" by (auto simp: node_ids_def)
    then have "copied_node Indet P M" using d(4) [OF i(2)] u(1) by auto
    then show ?thesis using r i u(2) by (auto simp: copied_node_def pg_ready_def)
  qed
  have "x = (m ?e, N)" if "x \<in> set (asg_Nodes G)" "case x of (u, N) \<Rightarrow> IsEntry N" for x
    using that only [of "fst x" "snd x"] mem [of "fst x" "snd x"] N(1) by (cases x) auto
  moreover have "(m ?e, N) \<in> set (asg_Nodes G)" using mem N(1) by blast
  ultimately have "{x \<in> set (asg_Nodes G). case x of (u, N) \<Rightarrow> IsEntry N} = {(m ?e, N)}"
    using ie by blast
  then have "filter (\<lambda>(u, N). IsEntry N) (asg_Nodes G) = [(m ?e, N)]"
    using unique_filter [of "asg_Nodes G" "\<lambda>(u, N). IsEntry N"] dist by (simp add: distinct_map)
  moreover have "asg_getPredecessors G (m ?e) = []"
  proof -
    have "a \<notin> set (asg_getPredecessors G (m ?e))" for a
    proof
      assume "a \<in> set (asg_getPredecessors G (m ?e))"
      then have "asg_edge G a (m ?e)" using d(1) by (simp add: asg_wf_def)
      then obtain i j where j: "m ?e = m j" "j \<in> succs PG i" using d(5) by blast
      then have "j = ?e" using d(2) en pg_wf_succs_exist [OF wf j(2)] by (auto dest: inj_onD)
      then show False using j(2) np pg_wf_sym [OF wf] by blast
    qed
    then show ?thesis by (cases "asg_getPredecessors G (m ?e)") auto
  qed
  ultimately show "single_entry G" by (simp add: single_entry_def)
qed

lemma copied_sites:
  assumes c: "pg_copy PG Indet m G" and r: "pg_ready PG"
  shows "sites_separate G"
proof -
  note d = pg_copyD [OF c]
  let ?E = "\<lambda>CS. pg_callEdges PG CS @ pg_returnEdges PG CS"
  have "map (\<lambda>CS. callEdges G CS @ returnEdges G CS) (asg_CallSites G) = map (map (map_prod m m)) (map ?E (pg_sites PG))"
    using site_edges [OF c] by (simp add: d(9))
  then have "concat (map (\<lambda>CS. callEdges G CS @ returnEdges G CS) (asg_CallSites G)) =
      map (map_prod m m) (concat (map ?E (pg_sites PG)))"
    by (simp only: map_concat)
  moreover have "inj_on (map_prod m m) (set (concat (map ?E (pg_sites PG))))"
    using site_edges(3,4) [OF c] by (intro inj_on_subset [OF map_prod_inj_on [OF d(2,2)]]) fastforce
  ultimately show ?thesis using r by (simp add: sites_separate_def distinct_map pg_ready_def)
qed

lemma matched_stack:
  "matched ce re Cs stk es = Some stk' \<Longrightarrow> set stk \<subseteq> set Cs \<Longrightarrow> set stk' \<subseteq> set Cs"
proof (induction es arbitrary: stk)
  case (Cons e es)
  show ?case
  proof (cases "List.find (\<lambda>CS. e \<in> set (ce CS)) Cs")
    case (Some C)
    then have "C \<in> set Cs" by (auto simp: find_Some_iff)
    then show ?thesis using Cons.IH [of "C # stk"] Cons.prems Some by simp
  next
    case None
    then show ?thesis using Cons.IH Cons.prems by (auto split: if_splits list.splits)
  qed
qed simp

lemma copied_calls:
  assumes c: "pg_copy PG Indet m G" and wf: "pg_wf PG"
    and p: "set p \<subseteq> node_ids PG" and calls: "pg_calls_matched PG p"
  shows "calls_matched G (map m p)"
proof -
  note d = pg_copyD [OF c]
  obtain stk where stk: "matched (pg_callEdges PG) (pg_returnEdges PG) (pg_sites PG) [] (steps p) = Some stk"
    "list_all (\<lambda>CS. \<not> pg_can_return PG CS) stk"
    using calls by (auto simp: pg_calls_matched_def split: option.splits)
  have "call_run G [] (steps (map m p)) = Some (map (site_copy m) stk)"
    using matched_map [OF d(2), of "pg_sites PG" "callEdges G" "site_copy m" "pg_callEdges PG" "returnEdges G"
        "pg_returnEdges PG" "steps p" "[]"] site_edges [OF c] steps_in [OF p] stk(1)
    by (simp add: d(9) steps_map)
  moreover have "can_return G (site_copy m CS) = pg_can_return PG CS" if "CS \<in> set stk" for CS
  proof -
    have "CS \<in> set (pg_sites PG)" using matched_stack [OF stk(1)] that by auto
    note e = site_edges(2,4) [OF c this]
    have "(asg_getNode G (m a) \<noteq> None \<and> asg_edge G (m a) (m b)) = (b \<in> succs PG a)"
      if "(a, b) \<in> set (pg_returnEdges PG CS)" for a b
    proof -
      have ab: "a \<in> node_ids PG" "b \<in> node_ids PG" using e(2) that by auto
      then have "m a \<in> asg_ids G" using d(3) by blast
      then show ?thesis using copied_edge(1) [OF c wf ab] by (simp add: asg_ids_def)
    qed
    then show ?thesis by (auto simp: can_return_def pg_can_return_def e(1) list_ex_iff) force+
  qed
  ultimately show ?thesis using stk(2) by (simp add: calls_matched_def list_all_iff)
qed

lemma copied_loops:
  assumes c: "pg_copy PG Indet m G" and wf: "pg_wf PG"
    and p: "set p \<subseteq> node_ids PG" "\<forall>(a, b) \<in> set (steps p). b \<in> succs PG a"
    and loops: "pg_loops_bounded Indet PG p"
  shows "loops_bounded G (map m p)"
  unfolding loops_bounded_def list_all_iff
proof (intro ballI, clarify)
  fix h' N assume h': "(h', N) \<in> set (asg_Nodes G)"
  note d = pg_copyD [OF c]
  have "omap_ok (asg_Nodes G)" using d(1) by (simp add: asg_wf_def)
  then have "asg_getNode G h' = Some N" using h' omap_ok_map_of by (metis asg_getNode_def)
  moreover from this obtain h P where h: "h' = m h" "node_at PG h = Some P"
    using d(3) by (force simp: asg_ids_def node_ids_def)
  ultimately have N: "copied_node Indet P N" using d(4) [OF h(2)] by auto
  have hi: "h \<in> node_ids PG" using h(2) by (simp add: node_ids_def)
  show "if IsLoopHeader N \<and> 0 < asg_UpperLoopBound N
      then within_bound (isBackInto G h') h' (unat (asg_UpperLoopBound N)) 0 (steps (map m p)) else True"
  proof (cases "IsLoopHeader N \<and> 0 < asg_UpperLoopBound N")
    case True
    then have b: "BackEdgePredecessors P \<noteq> []" "asg_UpperLoopBound N = pg_bound Indet P"
      using N by (auto simp: copied_node_def pg_bound_def split: if_splits)
    then have w: "within_bound (\<lambda>a. backFlag PG a h) h (unat (pg_bound Indet P)) 0 (steps p)"
      using loops h(2) True by (simp add: pg_loops_bounded_def)
    have "isBackInto G (m h) (m a) = backFlag PG a h" if "(a, h) \<in> set (steps p)" for a
      using copied_edge(2) [OF c wf, of a h] p steps_in [OF p(1)] that by auto
    then show ?thesis
      using True w within_bound_map [OF d(2) hi steps_in [OF p(1)], of "isBackInto G (m h)"]
      by (simp add: b(2) h(1) steps_map)
  next
    case False
    show ?thesis unfolding if_not_P [OF False] by (rule TrueI)
  qed
qed

lemma copied_execution:
  assumes c: "pg_copy PG Indet m G" and r: "pg_ready PG" and e: "pg_execution Indet PG p"
  shows "execution G (map m p)"
proof -
  note d = pg_copyD [OF c]
  have wf: "pg_wf PG" using r by (simp add: pg_ready_def)
  have p: "p \<noteq> []" "set p \<subseteq> node_ids PG" "\<forall>(a, b) \<in> set (steps p). b \<in> succs PG a"
    "hd p = EntryNodeId PG" "pg_is_exit PG (last p)" "pg_loops_bounded Indet PG p" "pg_calls_matched PG p"
    using e by (simp_all add: pg_execution_def)
  have "asg_getNode G (m u) \<noteq> None" if "u \<in> set p" for u
  proof -
    have "m u \<in> asg_ids G" using p(2) that d(3) by blast
    then show ?thesis by (simp add: asg_ids_def)
  qed
  moreover have "asg_edge G (m a) (m b)" if "(a, b) \<in> set (steps p)" for a b
    using copied_edge(1) [OF c wf, of a b] steps_in [OF p(2)] p(3) that by auto
  ultimately have path: "is_path G (map m p)"
    using p(1) by (auto simp: is_path_def list_all_iff steps_map)
  have "node_holds IsEntry G (hd (map m p))"
    using copied_single_entry(2) [OF c r] p(1,4) by (simp add: hd_map)
  moreover have "node_holds IsExit G (last (map m p))"
  proof -
    obtain P where P: "node_at PG (last p) = Some P" "nd_Name P = ''Exit'' \<or> Successors P = []"
      using p(5) by (auto simp: pg_is_exit_def split: option.splits)
    then show ?thesis using d(4) [OF P(1)] p(1) by (auto simp: node_holds_def copied_node_def last_map)
  qed
  ultimately show ?thesis
    using path copied_calls [OF c wf p(2,7)] copied_loops [OF c wf p(2,3,6)]
    by (simp add: execution_def)
qed

subsection \<open>The reported value\<close>

text \<open>What is assumed of HiGHS: an answer it calls optimal is exceeded by no feasible point of the
  model by more than a share \<open>g\<close> of the value (its relative gap) and an error below one half, what the
  code expects of the double it reads. Without a gap the answer is sound; it is exact when
  the value is also attained up to that error.\<close>

definition solver_within :: "rat \<Rightarrow> (HighsModel \<Rightarrow> HighsAnswer) \<Rightarrow> bool" where
  "solver_within g highs \<longleftrightarrow>
     (\<forall>M. kOptimal (highs M) \<longrightarrow>
        (\<exists>e < 1 / 2. mip_optimal (g * \<bar>getObjectiveValue (highs M)\<bar> + e) M (highs M)))"

definition solver_sound :: "(HighsModel \<Rightarrow> HighsAnswer) \<Rightarrow> bool" where
  "solver_sound highs \<longleftrightarrow>
     (\<forall>M. kOptimal (highs M) \<longrightarrow> (\<exists>e < 1 / 2. mip_optimal e M (highs M)))"

definition solver_exact :: "(HighsModel \<Rightarrow> HighsAnswer) \<Rightarrow> bool" where
  "solver_exact highs \<longleftrightarrow>
     (\<forall>M. kOptimal (highs M) \<longrightarrow> (\<exists>e < 1 / 2. mip_optimal e M (highs M) \<and> mip_attained e M (highs M)))"

lemma solver_sound_within: "solver_sound highs \<longleftrightarrow> solver_within 0 highs"
  by (simp add: solver_sound_def solver_within_def)

lemma solver_sound_gap:
  assumes "solver_sound highs" "0 \<le> g" shows "solver_within g highs"
  unfolding solver_within_def
proof (intro allI impI)
  fix M assume "kOptimal (highs M)"
  then obtain e where "e < 1 / 2" "mip_optimal e M (highs M)" using assms(1) by (auto simp: solver_sound_def)
  then show "\<exists>e < 1 / 2. mip_optimal (g * \<bar>getObjectiveValue (highs M)\<bar> + e) M (highs M)"
    using assms(2) by (intro exI [of _ e]) (auto intro: mip_optimal_mono)
qed

lemma llround_bounds: "0 \<le> x \<Longrightarrow> of_int (llround x) \<le> x + 1 / 2 \<and> x < of_int (llround x) + 1 / 2"
  unfolding llround_def by (simp; linarith)

lemma llround_near:
  assumes "0 \<le> x" "\<bar>x - of_int n\<bar> < 1 / 2" shows "llround x = n"
proof -
  have "of_int n \<le> x + 1 / 2" "x + 1 / 2 < of_int n + 1" using assms(2) by linarith+
  then show ?thesis using assms(1) by (simp add: llround_def floor_eq_iff)
qed

lemma llround_small: "0 \<le> x \<Longrightarrow> x < of_int n \<Longrightarrow> 0 \<le> llround x \<and> llround x \<le> n"
  by (simp add: llround_def floor_le_iff zero_le_floor)

text \<open>A reported number is the rounded optimum of the model of the solved graph.\<close>

lemma reportD:
  assumes target: "getTarget TAR = Some MSP430FR5994Target"
    and run: "PathAnalysis_finish Indet (Some highs) TAR = Some (ReportWCET w rs cs)"
    and S: "run_PG MSP430Pipeline Indet (MASG TAR) newSolver = Some S"
    and fits: "WCET (solveWCET highs (ws_Graph S)) < 2 ^ 32 - 1"
  shows "WCET (solveWCET highs (ws_Graph S)) > 0" "uint w = llround (WCET (solveWCET highs (ws_Graph S)))"
    "kOptimal (highs (wcetModel (ws_Graph S)))"
    "WCET (solveWCET highs (ws_Graph S)) = getObjectiveValue (highs (wcetModel (ws_Graph S)))"
proof -
  let ?W = "WCET (solveWCET highs (ws_Graph S))"
  have "rt_getPipeline MSP430FR5994Target = MSP430Pipeline"
    by (simp add: MSP430FR5994Target_def MSP430Target_def)
  then have w: "?W > 0" "w = word_of_int (llround ?W)"
    using run by (auto simp: PathAnalysis_finish_def target S Let_def split: if_splits)
  then show "?W > 0" "kOptimal (highs (wcetModel (ws_Graph S)))" "?W = getObjectiveValue (highs (wcetModel (ws_Graph S)))"
    by (auto simp: solveWCET_def Let_def split: if_splits)
  have "?W < of_int (2 ^ 32 - 1)" using fits by simp
  then have "0 \<le> llround ?W \<and> llround ?W \<le> 2 ^ 32 - 1" using llround_small w(1) less_imp_le by blast
  then show "uint w = llround ?W" by (simp add: w(2) uint_word_of_int)
qed

lemma report_gap:
  assumes ready: "pg_ready (MASG TAR)" and target: "getTarget TAR = Some MSP430FR5994Target"
    and sound: "solver_within g highs" and g: "0 \<le> g"
    and run: "PathAnalysis_finish Indet (Some highs) TAR = Some (ReportWCET w rs cs)"
    and fits: "\<forall>S. run_PG MSP430Pipeline Indet (MASG TAR) newSolver = Some S \<longrightarrow>
      WCET (solveWCET highs (ws_Graph S)) < 2 ^ 32 - 1"
    and ex: "pg_execution Indet (MASG TAR) p"
  shows "rat_of_int (pg_cost (MASG TAR) p) < of_int (uint w) + 1 + g * (of_int (uint w) + 1 / 2)"
proof -
  let ?PG = "MASG TAR"
  have wf: "pg_wf ?PG" "maps_ok ?PG" using ready by (simp_all add: pg_ready_def)
  obtain S m where S: "run_PG MSP430Pipeline Indet ?PG newSolver = Some S" and c: "pg_copy ?PG Indet m (ws_Graph S)"
    using run_PG_copies [OF wf, of Indet] by blast
  let ?G = "ws_Graph S" and ?W = "WCET (solveWCET highs (ws_Graph S))"
  note w = reportD [OF target run S fits [rule_format, OF S]]
  obtain e where e: "e < 1 / 2" "mip_optimal (g * \<bar>?W\<bar> + e) (wcetModel ?G) (highs (wcetModel ?G))"
    using sound w(3,4) by (auto simp: solver_within_def)
  have "rat_of_int (path_cost ?G (map m p)) \<le> ?W + (g * \<bar>?W\<bar> + e)"
    using wcet_bounds [of ?G _ highs, OF pg_copyD(1) [OF c] copied_single_entry(1) [OF c ready] copied_sites [OF c ready] e(2)]
      copied_execution [OF c ready ex] by blast
  moreover have "path_cost ?G (map m p) = pg_cost ?PG p"
    using copied_cost [OF c] ex by (simp add: pg_execution_def)
  moreover have b: "?W < of_int (uint w) + 1 / 2" using llround_bounds [of ?W] w(1,2) by simp
  moreover have "g * \<bar>?W\<bar> \<le> g * (of_int (uint w) + 1 / 2)" using g b w(1) by (intro mult_left_mono) auto
  ultimately show ?thesis using e(1) by linarith
qed

lemma report_bounds:
  assumes "pg_ready (MASG TAR)" "getTarget TAR = Some MSP430FR5994Target" "solver_sound highs"
    and "PathAnalysis_finish Indet (Some highs) TAR = Some (ReportWCET w rs cs)"
    and "\<forall>S. run_PG MSP430Pipeline Indet (MASG TAR) newSolver = Some S \<longrightarrow>
      WCET (solveWCET highs (ws_Graph S)) < 2 ^ 32 - 1"
    and "pg_execution Indet (MASG TAR) p"
  shows "pg_cost (MASG TAR) p \<le> uint w"
proof -
  have "rat_of_int (pg_cost (MASG TAR) p) < of_int (uint w + 1)"
    using report_gap [of TAR 0 highs, OF assms(1,2) _ _ assms(4-6)] assms(3) by (simp add: solver_sound_within)
  then show ?thesis unfolding of_int_less_iff by simp
qed

text \<open>C2: The number the tool prints bounds the program: when the pass reports a WCET on a program
  graph in the shape the graph pass leaves, every execution of that graph -- from the entry to an
  exit, within the loop bounds, returning to the pending call sites -- costs at most the printed
  number. The double read from HiGHS may be off by anything below one half, the rounding makes up for it;
  the optimum has to fit 32 bits (the cast to \<open>unsigned\<close> drops higher bits without a warning).\<close>

theorem reported_wcet:
  assumes "pg_ready (MASG TAR)" "getTarget TAR = Some MSP430FR5994Target" "solver_sound highs"
    and "PathAnalysis_finish Indet (Some highs) TAR = Some (ReportWCET w rs cs)"
    and "\<forall>S. run_PG MSP430Pipeline Indet (MASG TAR) newSolver = Some S \<longrightarrow>
      WCET (solveWCET highs (ws_Graph S)) < 2 ^ 32 - 1"
    and "pg_execution Indet (MASG TAR) p"
  shows "pg_cost (MASG TAR) p \<le> uint w"
  using assms by (rule report_bounds)



text \<open>An entry that goes straight to the exit.\<close>

definition tiny_graph :: ProgramGraph where
  "tiny_graph = emptyPG\<lparr>
     Nodes := [(0, (newNode 0 (newMuArchState 3 3))\<lparr>nd_Name := ''Entry'', Successors := [1]\<rparr>),
               (1, (newNode 1 (newMuArchState 4 4))\<lparr>nd_Name := ''Exit'', Predecessors := [0]\<rparr>)],
     HasEntryNode := True, EntryNodeId := 0, NextNodeId := 2\<rparr>"


definition tiny_asg :: "StageState list AbstractStateGraph" where
  "tiny_asg =
  \<lparr>asg_NextNodeId = 2,
     asg_Nodes =
       [(0, \<lparr>asg_Id = 0,
               asg_State = [SimpleStageState 0, InstructionCacheState 0],
               asg_MBB = None, IsEntry = True, IsExit = False,
               IsLoopHeader = False, asg_UpperLoopBound = 0, Cost = 3\<rparr>),
        (1, \<lparr>asg_Id = 1,
               asg_State = [SimpleStageState 0, InstructionCacheState 0],
               asg_MBB = None, IsEntry = False, IsExit = True,
               IsLoopHeader = False, asg_UpperLoopBound = 0, Cost = 4\<rparr>)],
     AdjacencyList = [(0, [(1, False)])], asg_Predecessors = [(1, [0])],
     FunctionEntries = [], FunctionReturns = [], asg_CallSites = []\<rparr>"

lemma tiny_run: "map_option ws_Graph (run_PG MSP430Pipeline (\<lambda>_. 0) tiny_graph newSolver) = Some tiny_asg"
  by code_simp


definition tiny_model :: HighsModel where
  "tiny_model = \<lparr>sense = kMaximize, num_col = 3, col_cost = [3, 4, 0], col_lower = [0, 0, 0], col_upper = [None, None, None],
     integrality = [kInteger, kInteger, kInteger],
     hm_rows = [\<lparr>row_lower = 0, row_upper = Some 0, row_coeffs = [(0, 1), (2, - 1)]\<rparr>,
       \<lparr>row_lower = 1, row_upper = Some 1, row_coeffs = [(0, 1)]\<rparr>,
       \<lparr>row_lower = 0, row_upper = Some 0, row_coeffs = [(1, 1), (2, - 1)]\<rparr>]\<rparr>"

definition tiny_highs :: "HighsModel \<Rightarrow> HighsAnswer" where
  "tiny_highs M = (if M = tiny_model
     then \<lparr>kOptimal = True, modelStatusToString = ''Optimal'', getObjectiveValue = 69999 / 10000, col_value = [1, 1, 1]\<rparr>
     else \<lparr>kOptimal = False, modelStatusToString = ''Unknown'', getObjectiveValue = 0, col_value = []\<rparr>)"

definition tiny_results :: TimingAnalysisResults where
  "tiny_results = newTAR\<lparr>ActiveTarget := Some MSP430FR5994Target, MASG := tiny_graph\<rparr>"

lemma tiny_wcetModel: "wcetModel tiny_asg = tiny_model"
  by (simp add: wcetModel_def buildColumns_def tiny_asg_def emptyModel_def addCol_def nodeRows_def flowInRow_def
    flowOutRow_def entryRow_def asg_getSuccessors_def asg_getPredecessors_def omap_get_def addRow_def tiny_model_def Let_def)

text \<open>The solver of the example answers 6.9999 for 7, like the one the code describes.\<close>

lemma tiny_points:
  "feasible tiny_model x \<longleftrightarrow> x 0 = 1 \<and> x 1 = 1 \<and> x 2 = 1" "objective tiny_model x = 3 * x 0 + 4 * x 1"
proof -
  show "objective tiny_model x = 3 * x 0 + 4 * x 1"
    by (simp add: objective_def tiny_model_def numeral_3_eq_3 lessThan_Suc)
  have "(\<forall>c < 3. P c) \<longleftrightarrow> P 0 \<and> P 1 \<and> P 2" for P :: "nat \<Rightarrow> bool" by (auto simp: numeral_eq_Suc All_less_Suc)
  note c = this
  have "feasible tiny_model x \<longleftrightarrow>
      (\<forall>c < 3. 0 \<le> x c \<and> x c \<in> \<int>) \<and> x 0 - x 2 = 0 \<and> x 0 = 1 \<and> x 1 - x 2 = 0"
  proof -
    have "col_lower tiny_model ! c = 0 \<and> col_upper tiny_model ! c = None \<and> integrality tiny_model ! c = kInteger"
      if "c < 3" for c
      using that by (auto simp: tiny_model_def numeral_3_eq_3 less_Suc_eq)
    moreover have "num_col tiny_model = 3" by (simp add: tiny_model_def)
    moreover have "list_all (row_holds x) (hm_rows tiny_model) \<longleftrightarrow> x 0 - x 2 = 0 \<and> x 0 = 1 \<and> x 1 - x 2 = 0"
      by (auto simp: tiny_model_def row_holds_def row_value_def)
    ultimately show ?thesis unfolding feasible_def by auto
  qed
  also have "\<dots> \<longleftrightarrow> x 0 = 1 \<and> x 1 = 1 \<and> x 2 = 1" unfolding c by auto
  finally show "feasible tiny_model x \<longleftrightarrow> x 0 = 1 \<and> x 1 = 1 \<and> x 2 = 1" .
qed

lemma tiny_exact: "solver_exact tiny_highs"
  unfolding solver_exact_def
proof (intro allI impI)
  fix M assume k: "kOptimal (tiny_highs M)"
  then have M: "M = tiny_model" by (simp add: tiny_highs_def split: if_splits)
  have "sense tiny_model = kMaximize" by (simp add: tiny_model_def)
  then have "mip_optimal (1 / 10) tiny_model (tiny_highs tiny_model)"
    by (simp add: mip_optimal_def tiny_points tiny_highs_def)
  moreover have "mip_attained (1 / 10) tiny_model (tiny_highs tiny_model)"
    unfolding mip_attained_def by (rule exI [of _ "\<lambda>_. 1"]) (simp add: tiny_points tiny_highs_def)
  ultimately show "\<exists>e < 1 / 2. mip_optimal e M (tiny_highs M) \<and> mip_attained e M (tiny_highs M)"
    unfolding M by (intro exI [of _ "1 / 10"]) simp
qed

lemma tiny_sound: "solver_sound tiny_highs"
  using tiny_exact by (auto simp: solver_exact_def solver_sound_def)

lemma tiny_finish: "PathAnalysis_finish (\<lambda>_. 0) (Some tiny_highs) tiny_results = Some (ReportWCET 7 {} {})"
proof -
  have "llround (69999 / 10000) = 7" by (simp add: llround_def floor_eq_iff)
  moreover obtain S where "run_PG MSP430Pipeline (\<lambda>_. 0) tiny_graph newSolver = Some S" "ws_Graph S = tiny_asg"
    using tiny_run by auto
  moreover have "UnsoundExternalCallees tiny_graph = {}" by (simp add: tiny_graph_def emptyPG_def)
  ultimately show ?thesis
    by (simp add: PathAnalysis_finish_def tiny_results_def getTarget_def newTAR_def MSP430FR5994Target_def MSP430Target_def
      solveWCET_def tiny_wcetModel tiny_highs_def Let_def getUnsoundReasons_def)
qed

lemma tiny_nodes: "node_at tiny_graph = (\<lambda>i. if i = 0 then Some ((newNode 0 (newMuArchState 3 3))\<lparr>nd_Name := ''Entry'', Successors := [1]\<rparr>)
   else if i = 1 then Some ((newNode 1 (newMuArchState 4 4))\<lparr>nd_Name := ''Exit'', Predecessors := [0]\<rparr>) else None)"
  by (auto simp: tiny_graph_def node_at_def fun_eq_iff)

lemma tiny_ready: "pg_ready tiny_graph"
proof -
  have "pg_wf tiny_graph"
    unfolding pg_wf_def
    by (auto simp: tiny_nodes succs_def preds_def newNode_def node_ok_def oset_ok_def split: if_splits)
      (auto simp: tiny_graph_def omap_ok_def)
  moreover have "pg_sites tiny_graph = []" by (simp add: pg_sites_def tiny_graph_def emptyPG_def)
  moreover have "maps_ok tiny_graph" "EntryNodeId tiny_graph = 0" by (simp_all add: maps_ok_def tiny_graph_def emptyPG_def)
  ultimately show ?thesis
    by (auto simp: pg_ready_def tiny_nodes node_ids_def preds_def newNode_def split: if_splits)
qed

lemma tiny_results: "MASG tiny_results = tiny_graph" "getTarget tiny_results = Some MSP430FR5994Target"
  by (simp_all add: tiny_results_def getTarget_def)

lemma tiny_execution: "pg_execution (\<lambda>_. 0) tiny_graph [0, 1]"
proof -
  have "EntryNodeId tiny_graph = 0" "pg_sites tiny_graph = []"
    by (simp_all add: tiny_graph_def pg_sites_def emptyPG_def)
  then show ?thesis
    by (auto simp: pg_execution_def node_ids_def tiny_nodes steps_def succs_def pg_is_exit_def pg_loops_bounded_def
      pg_calls_matched_def newNode_def split: if_splits)
qed

lemma tiny_cost: "pg_cost tiny_graph [0, 1] = 7"
  by (simp add: pg_cost_def tiny_nodes newNode_def newMuArchState_def)

lemma tiny_fits: "WCET (solveWCET tiny_highs (ws_Graph (S :: StageState list WorklistSolver))) < 2 ^ 32 - 1"
  by (simp add: solveWCET_def tiny_highs_def Let_def)

theorem reported_wcet_witness: "pg_cost tiny_graph [0, 1] = 7 \<and> pg_cost tiny_graph [0, 1] \<le> uint (7 :: u32)"
  using reported_wcet [OF _ tiny_results(2) tiny_sound tiny_finish, of "[0, 1]"] tiny_ready tiny_cost
    tiny_execution tiny_fits
  by (simp add: tiny_results(1))



end
