(* ===== verification/AddressResolver.thy ===== *)
theory AddressResolver
  imports MemoryWords GraphPasses
begin

text \<open>
  \<open>AdressResolverPass\<close>: the addresses of the machine instructions, from the linked image. The
  symbols and the decoded instructions of the image are collected once; the instructions of a
  function are then matched with the decoded ones in order, an encoding that differs moving the
  cursor to the next entry with the same bytes within a window. LLVM's object reader, its
  disassembler and its code emitter are parameters; opening the file, the MC objects and
  building the disassembler are one step that gives the image or nothing. Messages are not
  modelled, the counters of the coverage report are.
\<close>

type_synonym u8 = "8 word"

definition ResyncWindow :: nat where
  "ResyncWindow = 32"

record DumpInstruction =
  di_Address :: u64
  di_Bytes :: "u8 list"
  di_MachineCode :: string
  di_AssemblerCode :: string
  di_TargetAddress :: u64
  di_HasTarget :: bool

datatype SectionClass = SecCode | SecData | SecIgnore | SecUnknown

record Coverage =
  cov_Functions :: u32
  cov_FunctionsNoDumpEntry :: u32
  cov_CodeMIs :: u64
  cov_ResolvedMIs :: u64
  cov_BranchTargets :: u64
  cov_ResyncEvents :: u32
  cov_MismatchEvents :: u32
  cov_LeftoverEvents :: u32

record ResolverState =
  DumpInstructions :: "DumpInstruction list"
  FunctionEntryAddr :: "(string \<times> u64) list"
  SortedEntryAddrs :: "u64 list"
  rs_DataObjects :: "DataObject list"
  AllSymbolAddrs :: "u64 list"
  AnalyzedComputed :: bool
  AnalyzeAll :: bool
  AnalyzedFunctions :: "ptr set"
  EncoderReady :: bool
  EncoderUsable :: bool
  Parsed :: bool
  Cov :: Coverage

definition newResolver :: ResolverState where
  "newResolver =
     \<lparr>DumpInstructions = [], FunctionEntryAddr = [], SortedEntryAddrs = [], rs_DataObjects = [],
      AllSymbolAddrs = [], AnalyzedComputed = False, AnalyzeAll = False, AnalyzedFunctions = {},
      EncoderReady = False, EncoderUsable = False, Parsed = False,
      Cov = \<lparr>cov_Functions = 0, cov_FunctionsNoDumpEntry = 0, cov_CodeMIs = 0, cov_ResolvedMIs = 0,
        cov_BranchTargets = 0, cov_ResyncEvents = 0, cov_MismatchEvents = 0, cov_LeftoverEvents = 0\<rparr>\<rparr>"

subsection \<open>What LLVM provides\<close>

text \<open>A symbol of the image; an error of the reader is \<^term>\<open>None\<close>. The section name is empty when
  the symbol has none.\<close>

datatype SymbolType = ST_Function | ST_Other

record ElfSymbol =
  sym_Undefined :: "bool option"
  sym_Name :: "string option"
  sym_Address :: "u64 option"
  sym_Section :: "string option"
  sym_Type :: "SymbolType option"

record ElfSection =
  sec_Name :: "string option"
  sec_Contents :: "u8 list option"
  sec_Address :: u64

record ElfImage =
  elf_symbols :: "ElfSymbol list"
  elf_sections :: "ElfSection list"

datatype MCOperand = MCReg Reg | MCImm int

text \<open>The disassembler gives a success flag and a size for the bytes from an address on, the emitter the bytes and
  whether there are fixups.\<close>

record ResolverEnv =
  re_openElf :: "string \<Rightarrow> ElfImage option"
  re_getInstruction :: "u8 list \<Rightarrow> u64 \<Rightarrow> bool \<times> nat"
  re_encoderUsable :: bool
  re_encodeInstruction :: "Opcode \<Rightarrow> MCOperand list \<Rightarrow> u8 list \<times> bool"
  re_getAsInteger :: "string \<Rightarrow> u64 option"
  re_CallGraph :: CallGraph
  re_Callees :: "(ptr \<times> ptr option list) list"
  re_getName :: "ptr \<Rightarrow> string"

subsection \<open>Sections and symbols\<close>

definition starts_with :: "string \<Rightarrow> string \<Rightarrow> bool" where
  "starts_with Name p \<longleftrightarrow> take (length p) Name = p"

definition classifySection :: "string \<Rightarrow> SectionClass" where
  "classifySection Name =
     (if Name = ''.text'' \<or> starts_with Name ''__reset_vector'' \<or> starts_with Name ''__interrupt_vector''
      then SecCode
      else if starts_with Name ''.debug'' \<or> Name = ''.comment'' \<or> Name = ''.MSP430.attributes'' \<or>
        Name = ''.symtab'' \<or> Name = ''.strtab'' \<or> Name = ''.shstrtab''
      then SecIgnore
      else SecData)"

definition parseSymbol :: "ElfSymbol \<Rightarrow> ResolverState \<Rightarrow> ResolverState" where
  "parseSymbol Sym S =
     (if sym_Undefined Sym \<noteq> Some False then S
      else case (sym_Name Sym, sym_Address Sym) of
        (Some Name, Some Addr) \<Rightarrow>
          if Name = [] then S
          else
            let SecName = (case sym_Section Sym of Some n \<Rightarrow> n | None \<Rightarrow> []);
                S1 = S\<lparr>AllSymbolAddrs := AllSymbolAddrs S @ [Addr]\<rparr>
            in if sym_Type Sym = Some ST_Function
               then S1\<lparr>FunctionEntryAddr := omap_insert Name Addr (FunctionEntryAddr S1)\<rparr>
               else if classifySection SecName = SecData
               then S1\<lparr>rs_DataObjects := rs_DataObjects S1 @
                      [\<lparr>do_Name = Name, do_Address = Addr, do_Size = 0, do_Section = SecName\<rparr>]\<rparr>
               else S1
      | _ \<Rightarrow> S)"

definition hexDigit :: "nat \<Rightarrow> char" where
  "hexDigit d = (if d < 10 then char_of (48 + d) else char_of (87 + d))"

fun toHex :: "u8 list \<Rightarrow> string" where
  "toHex [] = []"
| "toHex [b] = [hexDigit (unat b div 16), hexDigit (unat b mod 16)]"
| "toHex (b # c # bs) = hexDigit (unat b div 16) # hexDigit (unat b mod 16) # CHR '' '' # toHex (c # bs)"

text \<open>The loop over a code section; a failed decode steps one instruction width. The bytes of an instruction are
  copied without a look at what is left of the section: a size beyond it reads out of bounds, \<^term>\<open>None\<close>.\<close>

function decodeSection ::
  "(u8 list \<Rightarrow> u64 \<Rightarrow> bool \<times> nat) \<Rightarrow> u64 \<Rightarrow> u8 list \<Rightarrow> nat \<Rightarrow> DumpInstruction list option" where
  "decodeSection getInstruction Base Data Off =
     (if \<not> Off < length Data then Some []
      else let Addr = Base + word_of_nat Off; (Success, InstSize) = getInstruction (drop Off Data) Addr
           in if \<not> Success \<or> InstSize = 0 then decodeSection getInstruction Base Data (Off + 2)
              else if length Data < Off + InstSize then None
              else
                let Bytes = take InstSize (drop Off Data);
                    DI = \<lparr>di_Address = Addr, di_Bytes = Bytes, di_MachineCode = toHex Bytes, di_AssemblerCode = [],
                          di_TargetAddress = 0, di_HasTarget = False\<rparr>
                in map_option ((#) DI) (decodeSection getInstruction Base Data (Off + InstSize)))"
  by pat_completeness auto
termination decodeSection
  by (relation "measure (\<lambda>(_, _, Data, Off). length Data - Off)") auto

declare decodeSection.simps [simp del]

definition parseSection :: "ResolverEnv \<Rightarrow> ElfSection \<Rightarrow> ResolverState \<Rightarrow> ResolverState option" where
  "parseSection env Sec S =
     (let SecName = (case sec_Name Sec of Some n \<Rightarrow> n | None \<Rightarrow> [])
      in if classifySection SecName \<noteq> SecCode then Some S
         else case sec_Contents Sec of
           None \<Rightarrow> Some S
         | Some Data \<Rightarrow> do {
             DIs \<leftarrow> decodeSection (re_getInstruction env) (sec_Address Sec) Data 0;
             Some (S\<lparr>DumpInstructions := DumpInstructions S @ DIs\<rparr>)
           })"

fun parseSections :: "ResolverEnv \<Rightarrow> ElfSection list \<Rightarrow> ResolverState \<Rightarrow> ResolverState option" where
  "parseSections env [] S = Some S"
| "parseSections env (Sec # Secs) S = do { S' \<leftarrow> parseSection env Sec S; parseSections env Secs S' }"

definition parseElf :: "ResolverEnv \<Rightarrow> string \<Rightarrow> ResolverState \<Rightarrow> ResolverState option" where
  "parseElf env File S =
     (case re_openElf env File of
        None \<Rightarrow> Some S
      | Some Obj \<Rightarrow> parseSections env (elf_sections Obj) (fold parseSymbol (elf_symbols Obj) S))"

subsection \<open>After parsing\<close>

text \<open>\<open>std::sort\<close> and \<open>std::unique\<close>; the first address above a given one.\<close>

definition sort_unique :: "u64 list \<Rightarrow> u64 list" where
  "sort_unique As = remdups_adj (sort As)"

definition upper_bound :: "u64 list \<Rightarrow> u64 \<Rightarrow> u64 option" where
  "upper_bound As x = List.find (\<lambda>a. x < a) As"

definition sizedObject :: "u64 list \<Rightarrow> DataObject \<Rightarrow> DataObject" where
  "sizedObject As Obj =
     Obj\<lparr>do_Size := (case upper_bound As (do_Address Obj) of Some Hi \<Rightarrow> Hi - do_Address Obj | None \<Rightarrow> 0)\<rparr>"

definition finishParse ::
  "ResolverState \<times> TimingAnalysisResults \<Rightarrow> ResolverState \<times> TimingAnalysisResults" where
  "finishParse st =
     (let (S, TAR) = st;
          Addrs = sort_unique (AllSymbolAddrs S);
          Objs = map (sizedObject Addrs) (rs_DataObjects S)
      in (S\<lparr>SortedEntryAddrs := sort_unique (map snd (FunctionEntryAddr S)), AllSymbolAddrs := Addrs,
            rs_DataObjects := Objs\<rparr>,
          fold addDataObject Objs TAR))"

subsection \<open>The analysed functions\<close>

text \<open>This choice of a start function is not that of \<open>findStartFunction\<close>: \<open>main\<close> has no
  precedence and a tie of references is none at all.\<close>

fun startLoop ::
  "(ptr \<Rightarrow> string) \<Rightarrow> string \<Rightarrow> CallGraph \<Rightarrow> ptr option \<Rightarrow> u32 \<Rightarrow> bool \<Rightarrow> ptr option" where
  "startLoop getName Opt [] Start Refs Twice = (if Twice \<and> Opt = [] then None else Start)"
| "startLoop getName Opt ((None, NumRef) # CG) Start Refs Twice = startLoop getName Opt CG Start Refs Twice"
| "startLoop getName Opt ((Some F, NumRef) # CG) Start Refs Twice =
     (if Opt \<noteq> [] \<and> getName F = Opt then Some F
      else if NumRef < Refs then startLoop getName Opt CG (Some F) NumRef Twice
      else if NumRef = Refs then startLoop getName Opt CG Start Refs True
      else startLoop getName Opt CG Start Refs Twice)"

definition getStartingFunction :: "ResolverEnv \<Rightarrow> string \<Rightarrow> ptr option" where
  "getStartingFunction env Opt = startLoop (re_getName env) Opt (re_CallGraph env) None (- 1) False"

definition calleesOf :: "(ptr \<times> ptr option list) list \<Rightarrow> ptr \<Rightarrow> ptr list" where
  "calleesOf CG F = (case map_of CG F of None \<Rightarrow> [] | Some Cs \<Rightarrow> concat (map (case_option [] (\<lambda>c. [c])) Cs))"

text \<open>The worklist: the last one pushed is taken, a function seen before is dropped.\<close>

function analyzeLoop :: "(ptr \<times> ptr option list) list \<Rightarrow> ptr list \<Rightarrow> ptr set \<Rightarrow> ptr set" where
  "analyzeLoop CG [] A = A"
| "analyzeLoop CG (F # Work) A =
     (if F \<in> A then analyzeLoop CG Work A
      else analyzeLoop CG (rev (filter (\<lambda>c. c \<notin> insert F A) (calleesOf CG F)) @ Work) (insert F A))"
  by pat_completeness auto

lemma calleesOf_absent: "F \<notin> fst ` set CG \<Longrightarrow> calleesOf CG F = []"
  by (simp add: calleesOf_def map_of_eq_None_iff [THEN iffD2])

termination analyzeLoop
proof (relation "measures [\<lambda>(CG, W, A). card (fst ` set CG - A), \<lambda>(CG, W, A). length W]", goal_cases)
  case (3 CG F Work A)
  show ?case
  proof (cases "F \<in> fst ` set CG")
    case True
    then have "fst ` set CG - insert F A \<subset> fst ` set CG - A" using 3 by blast
    then show ?thesis by (simp add: psubset_card_mono)
  next
    case False
    then have "fst ` set CG - insert F A = fst ` set CG - A" by blast
    then show ?thesis using calleesOf_absent [OF False] by simp
  qed
qed auto

definition computeAnalyzedSet :: "ResolverEnv \<Rightarrow> string \<Rightarrow> ResolverState \<Rightarrow> ResolverState" where
  "computeAnalyzedSet env Opt S =
     (case getStartingFunction env Opt of
        None \<Rightarrow> S\<lparr>AnalyzeAll := True\<rparr>
      | Some Start \<Rightarrow> S\<lparr>AnalyzedFunctions := analyzeLoop (re_Callees env) [Start] (AnalyzedFunctions S)\<rparr>)"

definition isAnalyzed :: "ResolverState \<Rightarrow> MachineFunction \<Rightarrow> bool" where
  "isAnalyzed S F \<longleftrightarrow> AnalyzeAll S \<or> mf_function F \<in> AnalyzedFunctions S"

subsection \<open>Encoding\<close>

definition setupEncoder :: "ResolverEnv \<Rightarrow> ResolverState \<Rightarrow> ResolverState" where
  "setupEncoder env S =
     (if EncoderReady S then S else S\<lparr>EncoderReady := True, EncoderUsable := re_encoderUsable env\<rparr>)"

fun mcOperands :: "MachineOperand list \<Rightarrow> MCOperand list option" where
  "mcOperands [] = Some []"
| "mcOperands (MO # MOs) =
     (case MO of
        MO_Register r imp \<Rightarrow>
          if imp then mcOperands MOs else map_option ((#) (MCReg r)) (mcOperands MOs)
      | MO_Immediate v \<Rightarrow> map_option ((#) (MCImm v)) (mcOperands MOs)
      | MO_RegisterMask \<Rightarrow> mcOperands MOs
      | _ \<Rightarrow> None)"

definition tryEncode :: "ResolverEnv \<Rightarrow> ResolverState \<Rightarrow> MachineInstr \<Rightarrow> u8 list option" where
  "tryEncode env S MI =
     (if \<not> EncoderUsable S \<or> mi_isPseudo MI then None
      else case mcOperands (mi_operands MI) of
        None \<Rightarrow> None
      | Some Ops \<Rightarrow>
          let (CB, Fixups) = re_encodeInstruction env (mi_opcode MI) Ops
          in if Fixups then None else Some CB)"

subsection \<open>Alignment\<close>

definition isCodeEmitting :: "MachineInstr \<Rightarrow> bool" where
  "isCodeEmitting MI \<longleftrightarrow> \<not> mi_isDebug MI \<and> \<not> mi_isCFI MI"

definition count :: "bool \<Rightarrow> 'n word \<Rightarrow> 'n :: len word" where
  "count c n = (if c then n + 1 else n)"

record AlignState =
  al_DumpIdx :: nat
  al_Warnings :: u32
  al_Cov :: Coverage
  al_TAR :: TimingAnalysisResults

text \<open>The next entry of the window with the same bytes.\<close>

definition resync :: "DumpInstruction list \<Rightarrow> u8 list \<Rightarrow> nat \<Rightarrow> nat option" where
  "resync Rng Bytes DumpIdx =
     List.find (\<lambda>K. di_Bytes (Rng ! K) = Bytes)
       [DumpIdx + 1 ..< min (length Rng) (DumpIdx + 1 + ResyncWindow)]"

definition checkAnchor ::
  "bool \<Rightarrow> DumpInstruction list \<Rightarrow> u8 list option \<Rightarrow> AlignState \<Rightarrow> AlignState" where
  "checkAnchor Diagnose Rng Anchor st =
     (case Anchor of
        None \<Rightarrow> st
      | Some Bytes \<Rightarrow>
          let Here = di_Bytes (Rng ! al_DumpIdx st)
          in if length Bytes = length Here \<and> Here \<noteq> Bytes
             then (case resync Rng Bytes (al_DumpIdx st) of
                     Some K \<Rightarrow>
                       st\<lparr>al_Warnings := al_Warnings st + 1,
                         al_Cov := (al_Cov st)\<lparr>cov_ResyncEvents := count Diagnose (cov_ResyncEvents (al_Cov st))\<rparr>,
                         al_DumpIdx := K\<rparr>
                   | None \<Rightarrow>
                       st\<lparr>al_Warnings := al_Warnings st + 1,
                         al_Cov := (al_Cov st)\<lparr>cov_MismatchEvents := count Diagnose (cov_MismatchEvents (al_Cov st))\<rparr>\<rparr>)
             else st)"

definition attach :: "bool \<Rightarrow> DumpInstruction \<Rightarrow> ptr \<Rightarrow> AlignState \<Rightarrow> AlignState" where
  "attach Diagnose DI MI st =
     (let T = setInstructionAddress MI (di_Address DI) (al_TAR st);
          C = (al_Cov st)\<lparr>cov_ResolvedMIs := count Diagnose (cov_ResolvedMIs (al_Cov st))\<rparr>
      in if di_HasTarget DI
         then st\<lparr>al_TAR := setBranchTarget MI (di_TargetAddress DI) T,
                al_Cov := C\<lparr>cov_BranchTargets := count Diagnose (cov_BranchTargets C)\<rparr>,
                al_DumpIdx := al_DumpIdx st + 1\<rparr>
         else st\<lparr>al_TAR := T, al_Cov := C, al_DumpIdx := al_DumpIdx st + 1\<rparr>)"

fun alignLoop ::
  "(MachineInstr \<Rightarrow> u8 list option) \<Rightarrow> bool \<Rightarrow> DumpInstruction list \<Rightarrow> MachineInstr list \<Rightarrow> AlignState
   \<Rightarrow> AlignState" where
  "alignLoop encode Diagnose Rng [] st = st"
| "alignLoop encode Diagnose Rng (MI # MIs) st =
     (if \<not> isCodeEmitting MI then alignLoop encode Diagnose Rng MIs st
      else
        let st1 = st\<lparr>al_Cov := (al_Cov st)\<lparr>cov_CodeMIs := count Diagnose (cov_CodeMIs (al_Cov st))\<rparr>\<rparr>
        in if al_DumpIdx st1 \<ge> length Rng
           then alignLoop encode Diagnose Rng MIs (st1\<lparr>al_Warnings := al_Warnings st1 + 1\<rparr>)
           else
             let st2 = checkAnchor Diagnose Rng (encode MI) st1
             in alignLoop encode Diagnose Rng MIs
                  (attach Diagnose (Rng ! al_DumpIdx st2) (mi_id MI) st2))"

definition alignFunction ::
  "ResolverEnv \<Rightarrow> MachineFunction \<Rightarrow> DumpInstruction list \<Rightarrow> bool \<Rightarrow> ResolverState \<times> TimingAnalysisResults
   \<Rightarrow> ResolverState \<times> TimingAnalysisResults" where
  "alignFunction env F Rng Diagnose st =
     (let (S, TAR) = st;
          A = alignLoop (tryEncode env S) Diagnose Rng (mf_instrs F)
                \<lparr>al_DumpIdx = 0, al_Warnings = 0, al_Cov = Cov S, al_TAR = TAR\<rparr>;
          C = (if al_DumpIdx A \<noteq> length Rng
               then (al_Cov A)\<lparr>cov_LeftoverEvents := count Diagnose (cov_LeftoverEvents (al_Cov A))\<rparr>
               else al_Cov A)
      in (S\<lparr>Cov := C\<rparr>, al_TAR A))"

subsection \<open>The pass\<close>

definition AdressResolver_init :: "ResolverEnv \<Rightarrow> Options \<Rightarrow> TimingAnalysisResults \<Rightarrow> TimingAnalysisResults" where
  "AdressResolver_init env Opt TAR =
     (if FRAMStartAddress Opt \<noteq> []
      then (case re_getAsInteger env (FRAMStartAddress Opt) of
              None \<Rightarrow> TAR
            | Some FRAM \<Rightarrow> setFRAMStart FRAM TAR)
      else TAR)"

definition noElfReason :: string where
  "noElfReason = ''no -elf-file: no linked-binary grounding (memory model and library-call costs omitted)''"

definition parseOnce ::
  "ResolverEnv \<Rightarrow> Options \<Rightarrow> ResolverState \<times> TimingAnalysisResults
   \<Rightarrow> (ResolverState \<times> TimingAnalysisResults) option" where
  "parseOnce env Opt st =
     (let (S, TAR) = st
      in if Parsed S then Some st
         else let S1 = S\<lparr>Parsed := True\<rparr>
              in map_option finishParse
                   (if ElfFilename Opt \<noteq> []
                    then map_option (\<lambda>S2. (S2, TAR)) (parseElf env (ElfFilename Opt) S1)
                    else Some (S1, addUnsoundReason noElfReason TAR)))"

definition functionRange :: "ResolverState \<Rightarrow> u64 \<Rightarrow> DumpInstruction list" where
  "functionRange S Entry =
     (let End = (case upper_bound (SortedEntryAddrs S) Entry of Some e \<Rightarrow> e | None \<Rightarrow> - 1)
      in sort_key di_Address
           (filter (\<lambda>DI. di_Address DI \<ge> Entry \<and> di_Address DI < End) (DumpInstructions S)))"

definition AdressResolver_run ::
  "ResolverEnv \<Rightarrow> Options \<Rightarrow> MachineFunction \<Rightarrow> ResolverState \<times> TimingAnalysisResults
   \<Rightarrow> (ResolverState \<times> TimingAnalysisResults) option" where
  "AdressResolver_run env Opt F st = do {
     (S1, TAR1) \<leftarrow> parseOnce env Opt (setupEncoder env (fst st), snd st);
     Some (let S2 = (if AnalyzedComputed S1 then S1
                else (computeAnalyzedSet env (StartFunctionName Opt) S1)\<lparr>AnalyzedComputed := True\<rparr>);
          Diagnose = isAnalyzed S2 F
      in case map_of (FunctionEntryAddr S2) (mf_name F) of
           None \<Rightarrow>
             (S2\<lparr>Cov := (Cov S2)\<lparr>cov_FunctionsNoDumpEntry := count Diagnose (cov_FunctionsNoDumpEntry (Cov S2))\<rparr>\<rparr>,
              TAR1)
         | Some Entry \<Rightarrow>
             alignFunction env F (functionRange S2 Entry) Diagnose
               (S2\<lparr>Cov := (Cov S2)\<lparr>cov_Functions := count Diagnose (cov_Functions (Cov S2))\<rparr>\<rparr>, TAR1))
   }"

end
