(* ===== verification/AddressProps.thy ===== *)
theory AddressProps
  imports AddressResolver
begin

text \<open>
  Properties of \<open>AdressResolverPass\<close>: which functions are diagnosed, the extents of the data
  objects, the entries decoded from a code section, and the matching of a function with them.
\<close>

text \<open>An image with an entry that is no instruction of the function before its second one, and a call
  graph of four functions of which one is not reached.\<close>

definition demo_env :: ResolverEnv where
  "demo_env =
     \<lparr>re_openElf = (\<lambda>_. None), re_getInstruction = (\<lambda>_ _. (True, 2)), re_encoderUsable = True,
      re_encodeInstruction = (\<lambda>_ _. ([0x00, 0x3C], False)), re_getAsInteger = (\<lambda>_. None),
      re_CallGraph = [(None, 0), (Some 1, 1), (Some 2, 2), (Some 3, 2), (Some 4, 2)],
      re_Callees = [(1, [Some 2, None]), (2, [Some 3]), (4, [Some 1])], re_getName = (\<lambda>_. ''f'')\<rparr>"

definition demo_entry :: "u64 \<Rightarrow> u8 list \<Rightarrow> DumpInstruction" where
  "demo_entry a bs = \<lparr>di_Address = a, di_Bytes = bs, di_MachineCode = toHex bs, di_AssemblerCode = [],
     di_TargetAddress = 0, di_HasTarget = False\<rparr>"



subsection \<open>The analysed functions are those the start function reaches\<close>

definition calls :: "(ptr \<times> ptr option list) list \<Rightarrow> (ptr \<times> ptr) set" where
  "calls CG = {(F, G). G \<in> set (calleesOf CG F)}"

declare analyzeLoop.simps(2) [simp del]

lemma analyzeLoop_bounds:
  "A \<subseteq> analyzeLoop CG W A \<and> set W \<subseteq> analyzeLoop CG W A \<and>
   (\<forall>x \<in> analyzeLoop CG W A - A. set (calleesOf CG x) \<subseteq> analyzeLoop CG W A) \<and>
   analyzeLoop CG W A \<subseteq> A \<union> (calls CG)\<^sup>* `` set W"
proof (induction CG W A rule: analyzeLoop.induct)
  case (2 CG F Work A)
  define R where "R = analyzeLoop CG (F # Work) A"
  have "A \<subseteq> R \<and> set (F # Work) \<subseteq> R \<and> (\<forall>x \<in> R - A. set (calleesOf CG x) \<subseteq> R) \<and>
      R \<subseteq> A \<union> (calls CG)\<^sup>* `` set (F # Work)"
  proof (cases "F \<in> A")
    case True
    then have "R = analyzeLoop CG Work A" by (simp add: R_def analyzeLoop.simps(2))
    then show ?thesis using 2(1) [OF True] True by auto
  next
    case False
    let ?W = "rev (filter (\<lambda>c. c \<notin> insert F A) (calleesOf CG F)) @ Work"
    have "R = analyzeLoop CG ?W (insert F A)" using False by (simp add: R_def analyzeLoop.simps(2))
    note IH = 2(2) [OF False, folded this]
    have "set (calleesOf CG F) \<subseteq> R"
    proof
      fix c assume "c \<in> set (calleesOf CG F)"
      then show "c \<in> R" using IH by (cases "c \<in> insert F A") auto
    qed
    moreover have "R \<subseteq> A \<union> (calls CG)\<^sup>* `` set (F # Work)"
    proof
      fix y assume "y \<in> R"
      then consider "y \<in> A" | "y = F" | w where "w \<in> set ?W" "(w, y) \<in> (calls CG)\<^sup>*" using IH by blast
      then show "y \<in> A \<union> (calls CG)\<^sup>* `` set (F # Work)"
      proof cases
        case (3 w)
        then show ?thesis by (auto simp: calls_def intro: converse_rtrancl_into_rtrancl)
      qed auto
    qed
    moreover have "set (calleesOf CG x) \<subseteq> R" if "x \<in> R - A" for x
      using IH that \<open>set (calleesOf CG F) \<subseteq> R\<close> by (cases "x = F") auto
    ultimately show ?thesis using IH by auto
  qed
  then show ?case unfolding R_def .
qed auto

lemma analyzeLoop_reach: "analyzeLoop CG [r] {} = (calls CG)\<^sup>* `` {r}"
proof
  let ?R = "analyzeLoop CG [r] {}"
  have b: "r \<in> ?R" "\<And>x. x \<in> ?R \<Longrightarrow> set (calleesOf CG x) \<subseteq> ?R"
    using analyzeLoop_bounds [of "{}" CG "[r]"] by auto
  have "(r, y) \<in> (calls CG)\<^sup>* \<Longrightarrow> y \<in> ?R" for y
    by (induction rule: rtrancl_induct) (use b in \<open>auto simp: calls_def\<close>)
  then show "(calls CG)\<^sup>* `` {r} \<subseteq> ?R" by blast
qed (use analyzeLoop_bounds [of "{}" CG "[r]"] in auto)

text \<open>Diagnostics are never hidden for a function the analysis depends on: a function counts as
  analysed exactly when no single start function is known or the start function reaches it over
  calls, each callee taken from the call graph, null ones left out.\<close>

lemma analysed_functions:
  assumes "\<not> AnalyzeAll S" "AnalyzedFunctions S = {}"
  shows "isAnalyzed (computeAnalyzedSet env Opt S) F \<longleftrightarrow>
    (case getStartingFunction env Opt of
       None \<Rightarrow> True
     | Some Start \<Rightarrow> (Start, mf_function F) \<in> (calls (re_Callees env))\<^sup>*)"
  using assms by (auto simp: isAnalyzed_def computeAnalyzedSet_def analyzeLoop_reach split: option.splits)


lemma analysed_functions_at:
  "isAnalyzed (computeAnalyzedSet demo_env [] newResolver) \<lparr>mf_function = 3, mf_name = ''h'', mf_blocks = []\<rparr>"
proof -
  have start: "getStartingFunction demo_env [] = Some 1"
    using order_le_neq_trans [OF word_n1_ge [of "1 :: u32"]] by (simp add: getStartingFunction_def demo_env_def)
  have "(1, 2) \<in> calls (re_Callees demo_env)" "(2, 3) \<in> calls (re_Callees demo_env)"
    by (simp_all add: calls_def calleesOf_def demo_env_def)
  then have "(1, 3) \<in> (calls (re_Callees demo_env))\<^sup>*" by (blast intro: rtrancl_trans)
  then show ?thesis
    using analysed_functions [of newResolver demo_env "[]" "\<lparr>mf_function = 3, mf_name = ''h'', mf_blocks = []\<rparr>"]
    by (simp add: start newResolver_def)
qed

subsection \<open>Sizes of data objects\<close>

lemma upper_bound_sorted:
  assumes "sorted_wrt (<) As"
  shows "case upper_bound As x of
      Some h \<Rightarrow> h \<in> set As \<and> x < h \<and> (\<forall>a \<in> set As. x < a \<longrightarrow> h \<le> a)
    | None \<Rightarrow> \<forall>a \<in> set As. a \<le> x"
  using assms
proof (induction As)
  case (Cons a As)
  then show ?case by (cases "x < a") (auto simp: upper_bound_def split: option.splits)
qed (simp add: upper_bound_def)

lemma strict_remdups_adj: "sorted xs \<Longrightarrow> sorted_wrt (<) (remdups_adj xs)"
  by (induction xs rule: remdups_adj.induct) (auto simp: less_le_trans order_less_le)

lemma sort_unique_sorted: "sorted_wrt (<) (sort_unique As)" "set (sort_unique As) = set As"
proof -
  show "set (sort_unique As) = set As" by (simp add: sort_unique_def)
  show "sorted_wrt (<) (sort_unique As)" unfolding sort_unique_def by (rule strict_remdups_adj) simp
qed

text \<open>C24: The extent of a data object stops at the next symbol. Every object keeps its name, address
  and section; its size is zero exactly when no symbol lies above it, and otherwise it ends at the lowest symbol
  above: the end is the address of a symbol, with no symbol strictly inside.\<close>

theorem data_object_extent:
  "list_all2 (\<lambda>Old Obj. Obj\<lparr>do_Size := do_Size Old\<rparr> = Old \<and>
     (do_Size Obj = 0 \<longleftrightarrow> (\<forall>a \<in> set (AllSymbolAddrs S). a \<le> do_Address Obj)) \<and>
     (do_Size Obj \<noteq> 0 \<longrightarrow> do_Address Obj + do_Size Obj \<in> set (AllSymbolAddrs S) \<and>
        do_Address Obj < do_Address Obj + do_Size Obj \<and>
        (\<forall>a \<in> set (AllSymbolAddrs S). \<not> (do_Address Obj < a \<and> a < do_Address Obj + do_Size Obj))))
     (rs_DataObjects S) (rs_DataObjects (fst (finishParse (S, TAR))))"
proof -
  let ?As = "sort_unique (AllSymbolAddrs S)"
  have "sizedObject ?As O'\<lparr>do_Size := do_Size O'\<rparr> = O' \<and>
     (do_Size (sizedObject ?As O') = 0 \<longleftrightarrow> (\<forall>a \<in> set (AllSymbolAddrs S). a \<le> do_Address (sizedObject ?As O'))) \<and>
     (do_Size (sizedObject ?As O') \<noteq> 0 \<longrightarrow>
        do_Address (sizedObject ?As O') + do_Size (sizedObject ?As O') \<in> set (AllSymbolAddrs S) \<and>
        do_Address (sizedObject ?As O') < do_Address (sizedObject ?As O') + do_Size (sizedObject ?As O') \<and>
        (\<forall>a \<in> set (AllSymbolAddrs S). \<not> (do_Address (sizedObject ?As O') < a \<and>
           a < do_Address (sizedObject ?As O') + do_Size (sizedObject ?As O'))))" for O'
  proof -
    note u = upper_bound_sorted [OF sort_unique_sorted(1), of "AllSymbolAddrs S" "do_Address O'", unfolded sort_unique_sorted(2)]
    show ?thesis
    proof (cases "upper_bound ?As (do_Address O')")
      case None
      then show ?thesis using u by (simp add: sizedObject_def)
    next
      case (Some h)
      then have s: "sizedObject ?As O' = O'\<lparr>do_Size := h - do_Address O'\<rparr>" by (simp add: sizedObject_def)
      have "h \<in> set (AllSymbolAddrs S)" "do_Address O' < h" "\<forall>a \<in> set (AllSymbolAddrs S). do_Address O' < a \<longrightarrow> h \<le> a"
        using u Some by simp_all
      then show ?thesis unfolding s by (auto simp: not_less)
    qed
  qed
  then show ?thesis by (simp add: finishParse_def Let_def list_all2_map2 list_all2_same)
qed

definition demo_object :: DataObject where
  "demo_object = \<lparr>do_Name = ''tab'', do_Address = 0x1C00, do_Size = 0, do_Section = ''.data''\<rparr>"

definition demo_parsed :: ResolverState where
  "demo_parsed = newResolver\<lparr>AllSymbolAddrs := [0x1C04, 0x1C00], rs_DataObjects := [demo_object]\<rparr>"

lemma demo_extent: "rs_DataObjects (fst (finishParse (demo_parsed, newTAR))) = [demo_object\<lparr>do_Size := 4\<rparr>]"
  by (simp add: finishParse_def Let_def sizedObject_def sort_unique_def upper_bound_def demo_parsed_def demo_object_def)

theorem data_object_extent_witness:
  "do_Address demo_object + 4 \<in> set (AllSymbolAddrs demo_parsed)"
proof -
  have "rs_DataObjects demo_parsed = [demo_object]" by (simp add: demo_parsed_def)
  then show ?thesis using data_object_extent [of demo_parsed newTAR] by (simp add: demo_extent)
qed

subsection \<open>The decoded instructions\<close>

fun entries_at :: "u64 \<Rightarrow> u8 list \<Rightarrow> nat \<Rightarrow> DumpInstruction list \<Rightarrow> bool" where
  "entries_at Base Data Off [] \<longleftrightarrow> True"
| "entries_at Base Data Off (d # ds) \<longleftrightarrow>
     (\<exists>o' \<ge> Off. o' < length Data \<and> di_Address d = Base + word_of_nat o' \<and> di_Bytes d \<noteq> [] \<and>
        di_Bytes d = take (length (di_Bytes d)) (drop o' Data) \<and>
        entries_at Base Data (o' + length (di_Bytes d)) ds)"

lemma entries_at_mono: "entries_at Base Data o1 ds \<Longrightarrow> o2 \<le> o1 \<Longrightarrow> entries_at Base Data o2 ds"
  by (cases ds) (auto intro: order_trans)

lemma take_min: "take (min n (length xs)) xs = take n xs"
  by (simp add: min_def)

text \<open>The positions the disassembler is asked at, from \<open>s\<close> on: the next one is where the instruction
  ends, or one instruction width on when there is none.\<close>

inductive cursor ::
  "(u8 list \<Rightarrow> u64 \<Rightarrow> bool \<times> nat) \<Rightarrow> u64 \<Rightarrow> u8 list \<Rightarrow> nat \<Rightarrow> nat \<Rightarrow> bool"
  for gi Base Data where
  here: "s < length Data \<Longrightarrow> cursor gi Base Data s s"
| skip: "s < length Data \<Longrightarrow> gi (drop s Data) (Base + word_of_nat s) = (ok, n) \<Longrightarrow> \<not> ok \<or> n = 0 \<Longrightarrow>
    cursor gi Base Data (s + 2) p \<Longrightarrow> cursor gi Base Data s p"
| step: "s < length Data \<Longrightarrow> gi (drop s Data) (Base + word_of_nat s) = (True, n) \<Longrightarrow> n \<noteq> 0 \<Longrightarrow>
    cursor gi Base Data (s + n) p \<Longrightarrow> cursor gi Base Data s p"

inductive_simps cursor_unfold: "cursor gi Base Data s p"

text \<open>An instruction of \<open>n\<close> bytes is found at a position.\<close>

definition decoded :: "(u8 list \<Rightarrow> u64 \<Rightarrow> bool \<times> nat) \<Rightarrow> u64 \<Rightarrow> u8 list \<Rightarrow> nat \<Rightarrow> nat \<Rightarrow> nat \<Rightarrow> bool" where
  "decoded gi Base Data s p n \<longleftrightarrow>
     cursor gi Base Data s p \<and> gi (drop p Data) (Base + word_of_nat p) = (True, n) \<and> n \<noteq> 0"

lemma cursor_inside: "cursor gi Base Data s p \<Longrightarrow> p < length Data"
  by (induction rule: cursor.induct) simp_all

lemma cursor_beyond: "length Data \<le> s \<Longrightarrow> \<not> cursor gi Base Data s p"
  by (subst cursor_unfold) simp

lemma decoded_cases:
  assumes "s < length Data" "gi (drop s Data) (Base + word_of_nat s) = (ok, m)"
  shows "decoded gi Base Data s p n \<longleftrightarrow>
    (if ok \<and> m \<noteq> 0 then p = s \<and> n = m \<or> decoded gi Base Data (s + m) p n
     else decoded gi Base Data (s + 2) p n)"
  unfolding decoded_def using assms by (subst cursor_unfold) auto

lemma decodeSection_decoded:
  "case decodeSection gi Base Data s of
     None \<Rightarrow> \<exists>p n. decoded gi Base Data s p n \<and> length Data < p + n
   | Some ds \<Rightarrow> (\<forall>p n. decoded gi Base Data s p n \<longrightarrow> p + n \<le> length Data) \<and> entries_at Base Data s ds \<and>
       (\<lambda>d. (di_Address d, di_Bytes d)) ` set ds =
         {(Base + word_of_nat p, take n (drop p Data)) | p n. decoded gi Base Data s p n}"
proof (induction gi Base Data s rule: decodeSection.induct)
  case (1 gi Base Data s)
  obtain ok m where g: "gi (drop s Data) (Base + word_of_nat s) = (ok, m)" by force
  let ?f = "\<lambda>d. (di_Address d, di_Bytes d)"
  consider (beyond) "length Data \<le> s" | (skip) "s < length Data" "\<not> (ok \<and> m \<noteq> 0)"
    | (out) "s < length Data" "ok" "m \<noteq> 0" "length Data < s + m"
    | (take) "s < length Data" "ok" "m \<noteq> 0" "s + m \<le> length Data" by linarith
  then show ?case
  proof cases
    case beyond
    then show ?thesis by (subst decodeSection.simps) (simp add: decoded_def cursor_beyond)
  next
    case skip
    then have d: "decoded gi Base Data s p n \<longleftrightarrow> decoded gi Base Data (s + 2) p n" for p n
      using decoded_cases [of s Data gi Base ok m p n, OF skip(1) g] unfolding if_not_P [OF skip(2)] by blast
    have r: "decodeSection gi Base Data s = decodeSection gi Base Data (s + 2)"
      using skip g by (subst decodeSection.simps) auto
    show ?thesis unfolding r d
      using "1.IH"(1) [OF _ refl g [symmetric] refl] skip entries_at_mono [of Base Data "s + 2" _ s]
      by (auto split: option.splits)
  next
    case out
    then have "decoded gi Base Data s s m" using decoded_cases [of s Data gi Base ok m, OF out(1) g] by simp
    moreover have "decodeSection gi Base Data s = None" using out g by (subst decodeSection.simps) simp
    ultimately show ?thesis using out(4) by auto
  next
    case take
    then have d: "decoded gi Base Data s p n \<longleftrightarrow> p = s \<and> n = m \<or> decoded gi Base Data (s + m) p n" for p n
      using decoded_cases [of s Data gi Base ok m, OF take(1) g] by simp
    let ?B = "take m (drop s Data)" and ?ds = "decodeSection gi Base Data (s + m)"
    let ?D = "\<lparr>di_Address = Base + word_of_nat s, di_Bytes = ?B, di_MachineCode = toHex ?B, di_AssemblerCode = [],
        di_TargetAddress = 0, di_HasTarget = False\<rparr>"
    have r: "decodeSection gi Base Data s = map_option ((#) ?D) ?ds"
      using take g by (subst decodeSection.simps) (simp add: Let_def)
    note IH = "1.IH"(2) [OF _ refl g [symmetric] refl]
    show ?thesis
    proof (cases ?ds)
      case None
      then have "\<exists>p n. decoded gi Base Data (s + m) p n \<and> length Data < p + n" using IH take by simp
      then show ?thesis unfolding r None using d by auto
    next
      case (Some ds)
      have IH': "\<forall>p n. decoded gi Base Data (s + m) p n \<longrightarrow> p + n \<le> length Data" "entries_at Base Data (s + m) ds"
        "?f ` set ds = {(Base + word_of_nat p, take n (drop p Data)) | p n. decoded gi Base Data (s + m) p n}"
        using IH take Some by simp_all
      have "length ?B = m" using take(4) by simp
      then have "entries_at Base Data s (?D # ds)"
        using take IH'(2) by (auto simp del: length_take intro!: exI [of _ s])
      moreover have "\<forall>p n. decoded gi Base Data s p n \<longrightarrow> p + n \<le> length Data" unfolding d using IH'(1) take(4) by blast
      moreover have "?f ` set (?D # ds) = {(Base + word_of_nat p, take n (drop p Data)) | p n. decoded gi Base Data s p n}"
        using IH'(3) unfolding d by (auto simp: image_iff)
      ultimately show ?thesis unfolding r Some by simp
    qed
  qed
qed

text \<open>C25: Decoding a code section reads it from left to right without overlap and leaves nothing out. The
  disassembler is asked where the last instruction ended, or two bytes on after a failure; the entries are
  exactly the instructions it finds, each with the address and the bytes of its place, and each starts no earlier than
  the previous one ends. Only an instruction said to reach beyond the section spoils it: the code then copies bytes
  that are not there, and that is the only case without a result.\<close>

theorem decoded_entries:
  "case decodeSection getInstruction Base Data 0 of
     None \<Rightarrow> \<exists>p n. decoded getInstruction Base Data 0 p n \<and> length Data < p + n
   | Some ds \<Rightarrow> (\<forall>p n. decoded getInstruction Base Data 0 p n \<longrightarrow> p + n \<le> length Data) \<and>
       entries_at Base Data 0 ds \<and>
       (\<lambda>d. (di_Address d, di_Bytes d)) ` set ds =
         {(Base + word_of_nat p, take n (drop p Data)) | p n. decoded getInstruction Base Data 0 p n}"
  by (rule decodeSection_decoded)

text \<open>Two instructions of two and four bytes.\<close>

lemma demo_decoded: "decodeSection (\<lambda>bs a. (True, if a = 0 then 2 else 4)) 0 [1, 2, 3, 4, 5, 6] 0 =
   Some [demo_entry 0 [1, 2], demo_entry 2 [3, 4, 5, 6]]"
  by (subst decodeSection.simps, simp add: Let_def, subst decodeSection.simps, simp add: Let_def,
      subst decodeSection.simps) (simp add: demo_entry_def)

theorem decoded_entries_witness:
  "\<exists>n. decoded (\<lambda>bs a. (True, if a = 0 then 2 else 4)) 0 [1, 2, 3, 4, 5, 6] 0 2 n"
proof -
  have "(\<lambda>d. (di_Address d, di_Bytes d)) ` {demo_entry 0 [1, 2], demo_entry 2 [3, 4, 5, 6]} =
      {(0 + word_of_nat p, take n (drop p [1, 2, 3, 4, 5, 6])) | p n.
         decoded (\<lambda>bs a. (True, if a = 0 then 2 else 4)) 0 [1, 2, 3, 4, 5, 6] 0 p n}"
    using decoded_entries [of "\<lambda>bs a. (True, if a = 0 then 2 else 4)" 0 "[1, 2, 3, 4, 5, 6]"] by (simp add: demo_decoded)
  moreover have "(2, [3, 4, 5, 6]) \<in> (\<lambda>d. (di_Address d, di_Bytes d)) ` {demo_entry 0 [1, 2], demo_entry 2 [3, 4, 5, 6]}"
    by (simp add: demo_entry_def)
  ultimately obtain p n where p: "(2 :: u64) = 0 + word_of_nat p"
    and d: "decoded (\<lambda>bs a. (True, if a = 0 then 2 else 4)) 0 [1, 2, 3, 4, 5, 6] 0 p n" by blast
  have "p < 6" using d cursor_inside by (fastforce simp: decoded_def)
  then have "unat (word_of_nat p :: u64) = p" by (simp add: unat_of_nat)
  moreover have "unat (word_of_nat p :: u64) = 2" using arg_cong [OF p, of unat] by simp
  ultimately have "p = 2" by simp
  then show ?thesis using d by blast
qed

subsection \<open>Alignment\<close>

text \<open>The entries a list of instructions is matched with, as indices.\<close>

definition in_order :: "DumpInstruction list \<Rightarrow> nat \<Rightarrow> nat \<Rightarrow> nat list \<Rightarrow> bool" where
  "in_order Rng idx n ks \<longleftrightarrow>
     sorted_wrt (<) ks \<and> (\<forall>k \<in> set ks. idx \<le> k \<and> k < length Rng) \<and> length ks \<le> n \<and>
     (length ks < n \<longrightarrow> length Rng \<le> (if ks = [] then idx else last ks + 1))"

definition disagrees :: "u8 list option \<Rightarrow> DumpInstruction \<Rightarrow> bool" where
  "disagrees Anchor DI \<longleftrightarrow>
     (case Anchor of Some B \<Rightarrow> length B = length (di_Bytes DI) \<and> B \<noteq> di_Bytes DI | None \<Rightarrow> False)"

definition mismatches ::
  "(MachineInstr \<Rightarrow> u8 list option) \<Rightarrow> DumpInstruction list \<Rightarrow> MachineInstr list \<Rightarrow> nat list \<Rightarrow> nat" where
  "mismatches encode Rng cs ks = length (filter (\<lambda>(MI, k). disagrees (encode MI) (Rng ! k)) (zip cs ks))"

definition matched_addresses :: "DumpInstruction list \<Rightarrow> MachineInstr list \<Rightarrow> nat list \<Rightarrow> ptr \<rightharpoonup> u64" where
  "matched_addresses Rng cs ks = map_of (zip (map mi_id cs) (map (\<lambda>k. di_Address (Rng ! k)) ks))"

lemma find_SomeD: "List.find P xs = Some x \<Longrightarrow> x \<in> set xs \<and> P x"
  by (induction xs) (auto split: if_splits)

lemma checkAnchor_spec:
  fixes D An
  assumes "al_DumpIdx st < length Rng"
  defines "st' \<equiv> checkAnchor D Rng An st"
  shows "al_DumpIdx st \<le> al_DumpIdx st'" "al_DumpIdx st' < length Rng" "al_TAR st' = al_TAR st"
    "cov_MismatchEvents (al_Cov st') =
       (if D \<and> disagrees An (Rng ! al_DumpIdx st') then 1 else 0) + cov_MismatchEvents (al_Cov st)"
proof -
  have "al_DumpIdx st \<le> al_DumpIdx st' \<and> al_DumpIdx st' < length Rng \<and> al_TAR st' = al_TAR st \<and>
    cov_MismatchEvents (al_Cov st') =
       (if D \<and> disagrees An (Rng ! al_DumpIdx st') then 1 else 0) + cov_MismatchEvents (al_Cov st)"
  proof (cases An)
    case None
    then show ?thesis using assms(1) by (simp add: st'_def checkAnchor_def disagrees_def)
  next
    case (Some B)
    have r: "al_DumpIdx st < K \<and> K < length Rng \<and> di_Bytes (Rng ! K) = B"
      if "resync Rng B (al_DumpIdx st) = Some K" for K
      using find_SomeD that unfolding resync_def by fastforce
    show ?thesis
    proof (cases "length B = length (di_Bytes (Rng ! al_DumpIdx st)) \<and> di_Bytes (Rng ! al_DumpIdx st) \<noteq> B")
      case True
      then show ?thesis
        using r assms(1) Some
        by (cases "resync Rng B (al_DumpIdx st)") (auto simp: st'_def checkAnchor_def disagrees_def count_def)
    next
      case False
      then show ?thesis using assms(1) Some by (auto simp: st'_def checkAnchor_def disagrees_def)
    qed
  qed
  then show "al_DumpIdx st \<le> al_DumpIdx st'" "al_DumpIdx st' < length Rng" "al_TAR st' = al_TAR st"
    "cov_MismatchEvents (al_Cov st') =
       (if D \<and> disagrees An (Rng ! al_DumpIdx st') then 1 else 0) + cov_MismatchEvents (al_Cov st)"
    by blast+
qed

lemma attach_sel:
  "al_DumpIdx (attach D DI MI st) = al_DumpIdx st + 1"
  "InstructionAddressMap (al_TAR (attach D DI MI st)) = (InstructionAddressMap (al_TAR st))(MI \<mapsto> di_Address DI)"
  "cov_MismatchEvents (al_Cov (attach D DI MI st)) = cov_MismatchEvents (al_Cov st)"
  by (simp_all add: attach_def Let_def setInstructionAddress_def setBranchTarget_def)

definition aligned ::
  "(MachineInstr \<Rightarrow> u8 list option) \<Rightarrow> bool \<Rightarrow> DumpInstruction list \<Rightarrow> MachineInstr list \<Rightarrow> nat list
   \<Rightarrow> AlignState \<Rightarrow> AlignState \<Rightarrow> bool" where
  "aligned encode D Rng cs ks st st' \<longleftrightarrow>
     in_order Rng (al_DumpIdx st) (length cs) ks \<and>
     InstructionAddressMap (al_TAR st') = InstructionAddressMap (al_TAR st) ++ matched_addresses Rng cs ks \<and>
     cov_MismatchEvents (al_Cov st') =
       cov_MismatchEvents (al_Cov st) + (if D then word_of_nat (mismatches encode Rng cs ks) else 0)"

lemma alignLoop_out:
  "length Rng \<le> al_DumpIdx st \<Longrightarrow> aligned encode D Rng cs [] st st' \<Longrightarrow>
   aligned encode D Rng (c # cs) [] st st'"
  by (simp add: aligned_def in_order_def matched_addresses_def mismatches_def)

lemma alignLoop_spec:
  "distinct (map mi_id MIs) \<Longrightarrow>
   \<exists>ks. aligned encode D Rng (filter isCodeEmitting MIs) ks st (alignLoop encode D Rng MIs st)"
proof (induction MIs arbitrary: st)
  case Nil
  then show ?case
    by (auto simp: aligned_def in_order_def matched_addresses_def mismatches_def intro!: exI [of _ "[]"])
next
  case (Cons MI MIs)
  let ?cs = "filter isCodeEmitting MIs"
  have d: "distinct (map mi_id MIs)" "mi_id MI \<notin> mi_id ` set ?cs" using Cons.prems by auto
  show ?case
  proof (cases "isCodeEmitting MI")
    case False
    then show ?thesis using Cons.IH [OF d(1)] by simp
  next
    case True
    define st1 where "st1 = st\<lparr>al_Cov := (al_Cov st)\<lparr>cov_CodeMIs := count D (cov_CodeMIs (al_Cov st))\<rparr>\<rparr>"
    have s1: "al_DumpIdx st1 = al_DumpIdx st" "al_TAR st1 = al_TAR st"
      "cov_MismatchEvents (al_Cov st1) = cov_MismatchEvents (al_Cov st)" by (simp_all add: st1_def)
    show ?thesis
    proof (cases "al_DumpIdx st \<ge> length Rng")
      case out: True
      define st2 where "st2 = st1\<lparr>al_Warnings := al_Warnings st1 + 1\<rparr>"
      have run: "alignLoop encode D Rng (MI # MIs) st = alignLoop encode D Rng MIs st2"
        using True out by (simp add: st1_def st2_def Let_def)
      obtain ks where ks: "aligned encode D Rng ?cs ks st2 (alignLoop encode D Rng MIs st2)"
        using Cons.IH [OF d(1)] by blast
      have "ks = []" using ks out by (cases ks) (auto simp: aligned_def in_order_def st2_def s1)
      then have "aligned encode D Rng ?cs [] st (alignLoop encode D Rng MIs st2)"
        using ks by (simp only: aligned_def st2_def s1 AlignState.select_convs AlignState.update_convs) (simp add: s1)
      then have "aligned encode D Rng (MI # ?cs) [] st (alignLoop encode D Rng MIs st2)"
        by (rule alignLoop_out [OF out])
      then show ?thesis using run True by auto
    next
      case False
      define st2 where "st2 = checkAnchor D Rng (encode MI) st1"
      define k where "k = al_DumpIdx st2"
      define st3 where "st3 = attach D (Rng ! k) (mi_id MI) st2"
      have run: "alignLoop encode D Rng (MI # MIs) st = alignLoop encode D Rng MIs st3"
        using True False by (simp add: st1_def st2_def st3_def k_def Let_def)
      note c = checkAnchor_spec [of st1 Rng D "encode MI", folded st2_def k_def, unfolded s1]
      obtain ks where ks: "aligned encode D Rng ?cs ks st3 (alignLoop encode D Rng MIs st3)"
        using Cons.IH [OF d(1)] by blast
      have idx: "al_DumpIdx st3 = k + 1" by (simp add: st3_def attach_sel k_def)
      have "in_order Rng (al_DumpIdx st) (length (MI # ?cs)) (k # ks)"
        using ks c False by (auto simp: aligned_def in_order_def idx)
      moreover have "InstructionAddressMap (al_TAR st3) ++ matched_addresses Rng ?cs ks =
          InstructionAddressMap (al_TAR st) ++ matched_addresses Rng (MI # ?cs) (k # ks)"
      proof -
        have "mi_id MI \<notin> dom (matched_addresses Rng ?cs ks)"
          using d(2) by (auto simp: matched_addresses_def dest!: map_of_SomeD set_zip_leftD)
        then show ?thesis
          using c False by (auto simp: matched_addresses_def st3_def attach_sel fun_eq_iff map_add_def split: option.splits)
      qed
      moreover have "cov_MismatchEvents (al_Cov st3) = cov_MismatchEvents (al_Cov st) +
          (if D \<and> disagrees (encode MI) (Rng ! k) then 1 else 0)"
        using c False by (simp add: st3_def attach_sel)
      ultimately have "aligned encode D Rng (MI # ?cs) (k # ks) st (alignLoop encode D Rng MIs st3)"
        using ks by (auto simp: aligned_def mismatches_def)
      then show ?thesis using run True by auto
    qed
  qed
qed


lemma alignLoop_exact:
  "distinct (map mi_id MIs) \<Longrightarrow> length Rng = al_DumpIdx st + length (filter isCodeEmitting MIs) \<Longrightarrow>
   (\<And>i. i < length (filter isCodeEmitting MIs) \<Longrightarrow>
      \<not> disagrees (encode (filter isCodeEmitting MIs ! i)) (Rng ! (al_DumpIdx st + i))) \<Longrightarrow>
   (let st' = alignLoop encode D Rng MIs st; n = al_DumpIdx st in
     al_DumpIdx st' = length Rng \<and> al_Warnings st' = al_Warnings st \<and>
     cov_MismatchEvents (al_Cov st') = cov_MismatchEvents (al_Cov st) \<and>
     cov_ResyncEvents (al_Cov st') = cov_ResyncEvents (al_Cov st) \<and>
     cov_LeftoverEvents (al_Cov st') = cov_LeftoverEvents (al_Cov st) \<and>
     InstructionAddressMap (al_TAR st') =
       InstructionAddressMap (al_TAR st) ++ matched_addresses Rng (filter isCodeEmitting MIs) [n ..< length Rng])"
proof (induction MIs arbitrary: st)
  case Nil
  then show ?case by (simp add: matched_addresses_def Let_def)
next
  case (Cons MI MIs)
  let ?cs = "filter isCodeEmitting MIs"
  show ?case
  proof (cases "isCodeEmitting MI")
    case False
    then show ?thesis using Cons.IH [of st] Cons.prems by simp
  next
    case True
    define st1 where "st1 = st\<lparr>al_Cov := (al_Cov st)\<lparr>cov_CodeMIs := count D (cov_CodeMIs (al_Cov st))\<rparr>\<rparr>"
    define st3 where "st3 = attach D (Rng ! al_DumpIdx st) (mi_id MI) st1"
    have room: "al_DumpIdx st < length Rng" using Cons.prems(2) True by simp
    have "\<not> disagrees (encode MI) (Rng ! al_DumpIdx st)" using Cons.prems(3) [of 0] True by simp
    then have "checkAnchor D Rng (encode MI) st1 = st1"
      by (auto simp: checkAnchor_def disagrees_def st1_def split: option.splits)
    then have run: "alignLoop encode D Rng (MI # MIs) st = alignLoop encode D Rng MIs st3"
      using True room by (simp add: st1_def st3_def Let_def)
    have s3: "al_DumpIdx st3 = al_DumpIdx st + 1" "al_Warnings st3 = al_Warnings st"
      "cov_MismatchEvents (al_Cov st3) = cov_MismatchEvents (al_Cov st)"
      "cov_ResyncEvents (al_Cov st3) = cov_ResyncEvents (al_Cov st)"
      "cov_LeftoverEvents (al_Cov st3) = cov_LeftoverEvents (al_Cov st)"
      "InstructionAddressMap (al_TAR st3) = (InstructionAddressMap (al_TAR st))(mi_id MI \<mapsto> di_Address (Rng ! al_DumpIdx st))"
      by (simp_all add: st3_def st1_def attach_def setInstructionAddress_def setBranchTarget_def Let_def)
    have "\<not> disagrees (encode (?cs ! i)) (Rng ! (al_DumpIdx st3 + i))" if "i < length ?cs" for i
      using Cons.prems(3) [of "Suc i"] True that by (simp add: s3)
    moreover have "length Rng = al_DumpIdx st3 + length ?cs" using Cons.prems(2) True by (simp add: s3)
    ultimately have IH: "let st' = alignLoop encode D Rng MIs st3; n = al_DumpIdx st3 in
     al_DumpIdx st' = length Rng \<and> al_Warnings st' = al_Warnings st3 \<and>
     cov_MismatchEvents (al_Cov st') = cov_MismatchEvents (al_Cov st3) \<and>
     cov_ResyncEvents (al_Cov st') = cov_ResyncEvents (al_Cov st3) \<and>
     cov_LeftoverEvents (al_Cov st') = cov_LeftoverEvents (al_Cov st3) \<and>
     InstructionAddressMap (al_TAR st') =
       InstructionAddressMap (al_TAR st3) ++ matched_addresses Rng ?cs [n ..< length Rng]"
      using Cons.IH [of st3] Cons.prems(1) by simp
    have "mi_id MI \<notin> dom (matched_addresses Rng ?cs [al_DumpIdx st + 1 ..< length Rng])"
      using Cons.prems(1) by (auto simp: matched_addresses_def dest!: map_of_SomeD set_zip_leftD)
    moreover have "[al_DumpIdx st ..< length Rng] = al_DumpIdx st # [al_DumpIdx st + 1 ..< length Rng]"
      using upt_conv_Cons [OF room] by simp
    ultimately have "InstructionAddressMap (al_TAR st3) ++ matched_addresses Rng ?cs [al_DumpIdx st + 1 ..< length Rng] =
        InstructionAddressMap (al_TAR st) ++ matched_addresses Rng (MI # ?cs) [al_DumpIdx st ..< length Rng]"
      by (auto simp: matched_addresses_def s3 fun_eq_iff map_add_def split: option.splits)
    moreover have "filter isCodeEmitting (MI # MIs) = MI # ?cs" using True by simp
    ultimately show ?thesis using IH unfolding run Let_def s3 by simp
  qed
qed

lemma alignFunction_sel:
  "InstructionAddressMap (snd (alignFunction env F Rng D (S, T))) =
     InstructionAddressMap (al_TAR (alignLoop (tryEncode env S) D Rng (mf_instrs F)
       \<lparr>al_DumpIdx = 0, al_Warnings = 0, al_Cov = Cov S, al_TAR = T\<rparr>))"
  "cov_MismatchEvents (Cov (fst (alignFunction env F Rng D (S, T)))) =
     cov_MismatchEvents (al_Cov (alignLoop (tryEncode env S) D Rng (mf_instrs F)
       \<lparr>al_DumpIdx = 0, al_Warnings = 0, al_Cov = Cov S, al_TAR = T\<rparr>))"
  by (simp_all add: alignFunction_def Let_def)

text \<open>C20: Matching a function with the image keeps the order of both: the instructions that emit code
  get the addresses of decoded entries whose positions strictly increase, so no entry is given
  twice; instructions are left without an address only when the entries are used up, and nothing
  else is touched. An instruction whose encoding has the length of its entry and other bytes is
  never silent: each counts as a mismatch of the diagnosed function (in a counter of 32 bits).\<close>

theorem align_in_order:
  assumes "distinct (map mi_id (mf_instrs F))"
  defines "cs \<equiv> filter isCodeEmitting (mf_instrs F)"
  shows "\<exists>ks. in_order Rng 0 (length cs) ks \<and>
    InstructionAddressMap (snd (alignFunction env F Rng D (S, T))) =
      InstructionAddressMap T ++ matched_addresses Rng cs ks \<and>
    cov_MismatchEvents (Cov (fst (alignFunction env F Rng D (S, T)))) =
      cov_MismatchEvents (Cov S) + (if D then word_of_nat (mismatches (tryEncode env S) Rng cs ks) else 0)"
  using alignLoop_spec [OF assms(1), where encode = "tryEncode env S" and D = D and Rng = Rng
      and st = "\<lparr>al_DumpIdx = 0, al_Warnings = 0, al_Cov = Cov S, al_TAR = T\<rparr>"]
  by (auto simp: alignFunction_sel aligned_def cs_def)


lemma words_fun_instrs:
  "mf_instrs words_fun = [demo_jump\<lparr>mi_id := 1\<rparr>, demo_jump\<lparr>mi_id := 2\<rparr>, demo_jump\<lparr>mi_id := 3\<rparr>]"
  "distinct (map mi_id (mf_instrs words_fun))"
  "filter isCodeEmitting (mf_instrs words_fun) = mf_instrs words_fun"
  "length (mf_instrs words_fun) = 3"
  by (simp_all add: mf_instrs_def words_fun_def words_block_def isCodeEmitting_def demo_jump_def)

lemma demo_encode: "tryEncode demo_env (newResolver\<lparr>EncoderUsable := True\<rparr>) (demo_jump\<lparr>mi_id := i\<rparr>) = Some [0x00, 0x3C]"
  by (simp add: tryEncode_def demo_env_def demo_jump_def)

theorem align_in_order_witness:
  "\<exists>ks. in_order (map (\<lambda>a. demo_entry a [0x00, 0x3C]) [0x4400, 0x4402]) 0 3 ks \<and>
     InstructionAddressMap (snd (alignFunction demo_env words_fun
         (map (\<lambda>a. demo_entry a [0x00, 0x3C]) [0x4400, 0x4402]) True (newResolver\<lparr>EncoderUsable := True\<rparr>, newTAR))) =
       InstructionAddressMap newTAR ++ matched_addresses (map (\<lambda>a. demo_entry a [0x00, 0x3C]) [0x4400, 0x4402])
         (mf_instrs words_fun) ks"
  using align_in_order [OF words_fun_instrs(2), where env = demo_env and D = True and T = newTAR
      and S = "newResolver\<lparr>EncoderUsable := True\<rparr>" and Rng = "map (\<lambda>a. demo_entry a [0x00, 0x3C]) [0x4400, 0x4402]"]
  unfolding words_fun_instrs(3,4) by blast

text \<open>C21: When the image holds the function as it is -- one entry per instruction that emits code, and no
  instruction that can be encoded disagrees with its entry -- every such instruction gets the
  address of its own entry, and no re-sync, mismatch or left-over entry is reported.\<close>

theorem align_exact:
  assumes "distinct (map mi_id (mf_instrs F))"
  defines "cs \<equiv> filter isCodeEmitting (mf_instrs F)"
  assumes "length Rng = length cs"
    and "\<And>i. i < length cs \<Longrightarrow> \<not> disagrees (tryEncode env S (cs ! i)) (Rng ! i)"
  shows "InstructionAddressMap (snd (alignFunction env F Rng D (S, T))) =
      InstructionAddressMap T ++ matched_addresses Rng cs [0 ..< length Rng] \<and>
    cov_MismatchEvents (Cov (fst (alignFunction env F Rng D (S, T)))) = cov_MismatchEvents (Cov S) \<and>
    cov_ResyncEvents (Cov (fst (alignFunction env F Rng D (S, T)))) = cov_ResyncEvents (Cov S) \<and>
    cov_LeftoverEvents (Cov (fst (alignFunction env F Rng D (S, T)))) = cov_LeftoverEvents (Cov S)"
proof -
  let ?st = "\<lparr>al_DumpIdx = 0, al_Warnings = 0, al_Cov = Cov S, al_TAR = T\<rparr>"
  have "length Rng = al_DumpIdx ?st + length (filter isCodeEmitting (mf_instrs F))"
    using assms(3) by (simp add: cs_def)
  moreover have "\<not> disagrees (tryEncode env S (filter isCodeEmitting (mf_instrs F) ! i)) (Rng ! (al_DumpIdx ?st + i))"
    if "i < length (filter isCodeEmitting (mf_instrs F))" for i
    using assms(4) [of i] that by (simp add: cs_def)
  ultimately show ?thesis
    using alignLoop_exact [OF assms(1), of Rng ?st "tryEncode env S" D]
    by (simp add: alignFunction_def Let_def cs_def)
qed


theorem align_exact_witness:
  "InstructionAddressMap (snd (alignFunction demo_env words_fun
       (map (\<lambda>a. demo_entry a [0x00, 0x3C]) [0x4400, 0x4402, 0x4404]) True
       (newResolver\<lparr>EncoderUsable := True\<rparr>, newTAR))) = [1 \<mapsto> 0x4400, 2 \<mapsto> 0x4402, 3 \<mapsto> 0x4404]"
proof -
  let ?R = "map (\<lambda>a. demo_entry a [0x00, 0x3C]) [0x4400, 0x4402, 0x4404]"
  let ?S = "newResolver\<lparr>EncoderUsable := True\<rparr>"
  have d: "\<not> disagrees (tryEncode demo_env ?S (filter isCodeEmitting (mf_instrs words_fun) ! i)) (?R ! i)"
    if "i < length (filter isCodeEmitting (mf_instrs words_fun))" for i
  proof -
    have "i < 3" using that by (simp only: words_fun_instrs(3,4))
    then have "i = 0 \<or> i = 1 \<or> i = 2" by arith
    then show ?thesis
      unfolding words_fun_instrs(3) by (auto simp: words_fun_instrs(1) demo_encode disagrees_def demo_entry_def)
  qed
  have l: "length ?R = length (filter isCodeEmitting (mf_instrs words_fun))"
    by (simp only: words_fun_instrs(3,4)) simp
  have "InstructionAddressMap (snd (alignFunction demo_env words_fun ?R True (?S, newTAR))) =
      InstructionAddressMap newTAR ++ matched_addresses ?R (mf_instrs words_fun) [0 ..< length ?R]"
    using align_exact [OF words_fun_instrs(2) l d, of True newTAR] by (simp only: words_fun_instrs(3))
  then show ?thesis
    by (simp add: matched_addresses_def words_fun_instrs(1) demo_entry_def newTAR_def upt_rec fun_eq_iff)
qed

end
