(* ===== verification/CallSplitter.thy ===== *)
theory CallSplitter
  imports MemoryWords
begin

text \<open>
  \<open>CallSplitterPass\<close>: every block is split after its calls. The splitting itself,
  \<open>MachineBasicBlock::splitAt\<close>, is LLVM's and a parameter: it is given the blocks of the function,
  a block and an instruction in it, both by position, and gives the blocks afterwards. The two
  loops of the pass run over a function that grows under them; they are one loop with a cursor.
\<close>

subsection \<open>The pass\<close>

type_synonym SplitAt = "MachineBasicBlock list \<Rightarrow> nat \<Rightarrow> nat \<Rightarrow> MachineBasicBlock list"

partial_function (option) splitLoop ::
  "SplitAt \<Rightarrow> nat \<Rightarrow> nat \<Rightarrow> MachineBasicBlock list \<Rightarrow> MachineBasicBlock list option" where
  "splitLoop splitAt b i F =
     (if \<not> b < length F then Some F
      else if \<not> i < length (mbb_instrs (F ! b)) then splitLoop splitAt (b + 1) 0 F
      else splitLoop splitAt b (i + 1) (if mi_isCall (mbb_instrs (F ! b) ! i) then splitAt F b i else F))"

definition CallSplitter_run :: "SplitAt \<Rightarrow> MachineFunction \<Rightarrow> MachineFunction option" where
  "CallSplitter_run splitAt F = map_option (\<lambda>Bs. F\<lparr>mf_blocks := Bs\<rparr>) (splitLoop splitAt 0 0 (mf_blocks F))"

subsection \<open>What splitting means\<close>

text \<open>What LLVM documents of \<open>splitAt\<close>: the instructions after the given one move to a new block
  right behind it; nothing happens when there are none.\<close>

definition splits :: "SplitAt \<Rightarrow> bool" where
  "splits splitAt \<longleftrightarrow>
     (\<forall>F b i. b < length F \<and> i < length (mbb_instrs (F ! b)) \<longrightarrow>
        map mbb_instrs (splitAt F b i) =
          (if Suc i = length (mbb_instrs (F ! b)) then map mbb_instrs F
           else take b (map mbb_instrs F) @
             take (Suc i) (mbb_instrs (F ! b)) # drop (Suc i) (mbb_instrs (F ! b)) #
             drop (Suc b) (map mbb_instrs F)))"

text \<open>The pieces of an instruction list, each ended by a call or by the end.\<close>

fun pieces :: "MachineInstr list \<Rightarrow> MachineInstr list list" where
  "pieces [] = [[]]"
| "pieces [x] = [[x]]"
| "pieces (x # y # xs) =
     (if mi_isCall x then [x] # pieces (y # xs)
      else (x # hd (pieces (y # xs))) # tl (pieces (y # xs)))"

lemma pieces_not_Nil: "pieces xs \<noteq> []"
  by (cases xs rule: pieces.cases) auto

lemma concat_pieces: "concat (pieces xs) = xs"
proof (induction xs rule: pieces.induct)
  case (3 x y xs)
  then show ?case using pieces_not_Nil [of "y # xs"] by (cases "pieces (y # xs)") auto
qed auto

lemma concat_concat_pieces: "concat (concat (map pieces xss)) = concat xss"
  by (induction xss) (simp_all add: concat_pieces)

definition calls_last :: "MachineInstr list \<Rightarrow> bool" where
  "calls_last xs \<longleftrightarrow> (\<forall>x \<in> set (butlast xs). \<not> mi_isCall x)"

lemma pieces_calls_last: "p \<in> set (pieces xs) \<Longrightarrow> calls_last p"
proof (induction xs arbitrary: p rule: pieces.induct)
  case (3 x y xs)
  obtain q qs where q: "pieces (y # xs) = q # qs" using pieces_not_Nil by (cases "pieces (y # xs)") auto
  have IH: "\<And>p. p \<in> set (q # qs) \<Longrightarrow> calls_last p" using "3.IH" q by (cases "mi_isCall x") auto
  have "calls_last (x # q)" if "\<not> mi_isCall x"
    using IH [of q] that by (cases q) (auto simp: calls_last_def)
  moreover have "calls_last [x]" by (simp add: calls_last_def)
  ultimately show ?case using "3.prems" IH q by (cases "mi_isCall x") auto
qed (auto simp: calls_last_def)

lemma pieces_one: "calls_last xs \<Longrightarrow> pieces xs = [xs]"
  by (induction xs rule: pieces.induct) (auto simp: calls_last_def)

lemma pieces_split:
  "Suc i < length xs \<Longrightarrow> mi_isCall (xs ! i) \<Longrightarrow> calls_last (take (Suc i) xs) \<Longrightarrow>
   pieces xs = take (Suc i) xs # pieces (drop (Suc i) xs)"
proof (induction xs arbitrary: i rule: pieces.induct)
  case (3 x y xs)
  show ?case
  proof (cases i)
    case (Suc j)
    then have "\<not> mi_isCall x" using "3.prems"(3) by (auto simp: calls_last_def)
    moreover have "calls_last (take (Suc j) (y # xs))" using "3.prems"(3) Suc by (auto simp: calls_last_def)
    ultimately show ?thesis using 3 Suc by auto
  qed (use 3 in auto)
qed auto


subsection \<open>The loop\<close>

definition cursor_measure :: "nat \<Rightarrow> nat \<Rightarrow> 'a list list \<Rightarrow> nat" where
  "cursor_measure b i L = (\<Sum>x \<leftarrow> drop b L. 2 * length x + 1) - 2 * i"

definition split_from :: "nat \<Rightarrow> MachineInstr list list \<Rightarrow> MachineInstr list list" where
  "split_from b L = take b L @ concat (map pieces (drop b L))"

lemma splitLoop_spec:
  assumes sp: "splits splitAt"
  shows "b \<le> length F \<Longrightarrow> (b < length F \<Longrightarrow> i \<le> length (mbb_instrs (F ! b))) \<Longrightarrow>
    (b < length F \<Longrightarrow> calls_last (take i (mbb_instrs (F ! b)))) \<Longrightarrow>
    (b < length F \<Longrightarrow> i < length (mbb_instrs (F ! b)) \<Longrightarrow> \<forall>x \<in> set (take i (mbb_instrs (F ! b))). \<not> mi_isCall x) \<Longrightarrow>
    \<exists>F'. splitLoop splitAt b i F = Some F' \<and> map mbb_instrs F' = split_from b (map mbb_instrs F)"
proof (induction "cursor_measure b i (map mbb_instrs F)" arbitrary: b i F rule: less_induct)
  case less
  show ?case
  proof (cases "b < length F")
    case False
    then show ?thesis using less.prems(1) by (auto simp: splitLoop.simps split_from_def)
  next
    case b: True
    let ?x = "mbb_instrs (F ! b)" and ?L = "map mbb_instrs F"
    have dr: "drop b ?L = ?x # drop (Suc b) ?L" "take (Suc b) ?L = take b ?L @ [?x]"
      using b by (simp_all add: Cons_nth_drop_Suc [symmetric] take_Suc_conv_app_nth)
    show ?thesis
    proof (cases "i < length ?x")
      case False
      then have i: "i = length ?x" using less.prems(2) b by simp
      have "cursor_measure (b + 1) 0 ?L < cursor_measure b i ?L"
        by (simp add: cursor_measure_def dr i)
      from less.hyps [OF this] b obtain F' where
        "splitLoop splitAt (b + 1) 0 F = Some F'" "map mbb_instrs F' = split_from (b + 1) ?L"
        by (auto simp: calls_last_def)
      moreover have "split_from (b + 1) ?L = split_from b ?L"
        using pieces_one [of ?x] less.prems(3) b i by (simp add: split_from_def dr)
      ultimately show ?thesis using b False by (simp add: splitLoop.simps [of splitAt b i F])
    next
      case True
      have nocall: "\<forall>x \<in> set (take i ?x). \<not> mi_isCall x" using less.prems(4) b True by blast
      have last: "calls_last (take (Suc i) ?x)"
        using nocall True by (simp add: calls_last_def take_Suc_conv_app_nth)
      define G where "G = (if mi_isCall (?x ! i) then splitAt F b i else F)"
      have run: "splitLoop splitAt b i F = splitLoop splitAt b (i + 1) G"
        using b True by (simp add: splitLoop.simps [of splitAt b i F] G_def)
      have G: "map mbb_instrs G =
          (if mi_isCall (?x ! i) \<and> Suc i < length ?x
           then take b ?L @ take (Suc i) ?x # drop (Suc i) ?x # drop (Suc b) ?L else ?L)"
        using sp b True by (auto simp: G_def splits_def)
      show ?thesis
      proof (cases "mi_isCall (?x ! i) \<and> Suc i < length ?x")
        case split: True
        then have g: "map mbb_instrs G = take b ?L @ take (Suc i) ?x # drop (Suc i) ?x # drop (Suc b) ?L"
          using G by simp
        have "length (map mbb_instrs G) = Suc (length F)" using b by (simp add: g)
        then have len: "length G = Suc (length F)" by simp
        have gb: "mbb_instrs (G ! b) = take (Suc i) ?x"
        proof -
          have "mbb_instrs (G ! b) = map mbb_instrs G ! b" using len b by simp
          then show ?thesis using b by (simp add: g nth_append)
        qed
        have "cursor_measure b (i + 1) (map mbb_instrs G) < cursor_measure b i ?L"
          using b split by (simp add: g cursor_measure_def dr) arith
        from less.hyps [OF this] obtain F' where
          "splitLoop splitAt b (i + 1) G = Some F'" "map mbb_instrs F' = split_from b (map mbb_instrs G)"
          using b True last by (auto simp: len gb)
        moreover have "split_from b (map mbb_instrs G) = split_from b ?L"
          using b split last pieces_one [OF last] pieces_split [of i ?x] by (simp add: g split_from_def dr)
        ultimately show ?thesis using run by simp
      next
        case False
        then have g: "map mbb_instrs G = ?L" using G by auto
        then have len: "length G = length F" by (metis length_map)
        have gb: "mbb_instrs (G ! b) = ?x" using g b len by (metis nth_map)
        have "cursor_measure b (i + 1) (map mbb_instrs G) < cursor_measure b i ?L"
          using True by (simp add: g cursor_measure_def dr)
        moreover have "\<forall>x \<in> set (take (i + 1) ?x). \<not> mi_isCall x" if "i + 1 < length ?x"
          using nocall True False that by (simp add: take_Suc_conv_app_nth)
        ultimately obtain F' where
          "splitLoop splitAt b (i + 1) G = Some F'" "map mbb_instrs F' = split_from b (map mbb_instrs G)"
          using less.hyps [of b "i + 1" G] b True last by (auto simp: len gb)
        then show ?thesis using run g by simp
      qed
    qed
  qed
qed

text \<open>C30: After the pass a call is the last instruction of its block: the pass always returns, the
  blocks it leaves hold the instructions of the function in the same order, and each block of the
  function has become its pieces, cut after every call that something follows.\<close>

theorem calls_end_blocks:
  assumes "splits splitAt"
  shows "\<exists>F'. CallSplitter_run splitAt F = Some F' \<and> mf_instrs F' = mf_instrs F \<and>
    (\<forall>B \<in> set (mf_blocks F'). calls_last (mbb_instrs B)) \<and>
    map mbb_instrs (mf_blocks F') = concat (map (pieces \<circ> mbb_instrs) (mf_blocks F))"
proof -
  obtain Bs where Bs: "splitLoop splitAt 0 0 (mf_blocks F) = Some Bs"
      "map mbb_instrs Bs = concat (map pieces (map mbb_instrs (mf_blocks F)))"
    using splitLoop_spec [OF assms, of 0 "mf_blocks F" 0] by (auto simp: split_from_def calls_last_def)
  have "concat (map mbb_instrs Bs) = concat (map mbb_instrs (mf_blocks F))"
    unfolding Bs(2) by (rule concat_concat_pieces)
  moreover have "calls_last (mbb_instrs B)" if "B \<in> set Bs" for B
  proof -
    have "mbb_instrs B \<in> set (map mbb_instrs Bs)" using that by simp
    then show ?thesis unfolding Bs(2) by (auto intro: pieces_calls_last)
  qed
  ultimately show ?thesis using Bs by (auto simp: CallSplitter_run_def mf_instrs_def map_concat comp_def)
qed

text \<open>Splitting as LLVM describes it, with a fresh block that falls through to nothing.\<close>

definition plain_split :: SplitAt where
  "plain_split F b i =
     (let B = F ! b
      in if Suc i = length (mbb_instrs B) then F
         else take b F @ B\<lparr>mbb_instrs := take (Suc i) (mbb_instrs B)\<rparr> #
           B\<lparr>mbb_id := length F, mbb_instrs := drop (Suc i) (mbb_instrs B)\<rparr> # drop (Suc b) F)"

theorem calls_end_blocks_witness:
  "\<exists>F'. CallSplitter_run plain_split (words_fun\<lparr>mf_blocks := [words_block\<lparr>mbb_instrs :=
       [demo_jump, demo_jump\<lparr>mi_isCall := True\<rparr>, demo_jump]\<rparr>]\<rparr>) = Some F' \<and>
     map mbb_instrs (mf_blocks F') = [[demo_jump, demo_jump\<lparr>mi_isCall := True\<rparr>], [demo_jump]]"
proof -
  have "splits plain_split"
    by (auto simp: splits_def plain_split_def Let_def take_map drop_map)
  from calls_end_blocks [OF this] show ?thesis by (fastforce simp: demo_jump_def)
qed

end
