(* ===== verification/HardwarePipeline.thy ===== *)
theory HardwarePipeline
  imports AnalysisFramework
begin

text \<open>
  \<open>Pipeline/HardwarePipeline\<close> and \<open>Analysis/MicroArchitectureAnalysis.h\<close>: a pipeline of hardware
  stages, advanced cycle by cycle, and the analysis that runs an instruction through it until it
  counts as retired. The repository has the interface of a stage and no implementation of it:
  a stage is the record of its operations, on any type of state. A loop that may not end is a
  partial function, \<^term>\<open>None\<close> when it does not return.
\<close>

subsection \<open>The stages\<close>

record 's AbstractHardwareStage =
  hs_cycle :: "'s \<Rightarrow> 's"
  hs_isReady :: "'s \<Rightarrow> bool"
  hs_execute :: "ptr option \<Rightarrow> 's \<Rightarrow> 's"
  hs_clone :: "'s \<Rightarrow> 's"
  hs_getBusyCycles :: "'s \<Rightarrow> u32"
  hs_isEmpty :: "'s \<Rightarrow> bool"
  hs_getCurrentInstruction :: "'s \<Rightarrow> ptr option"

type_synonym 's Stage = "'s AbstractHardwareStage \<times> 's"

abbreviation st_isEmpty :: "'s Stage \<Rightarrow> bool" where
  "st_isEmpty St \<equiv> hs_isEmpty (fst St) (snd St)"

abbreviation st_isReady :: "'s Stage \<Rightarrow> bool" where
  "st_isReady St \<equiv> hs_isReady (fst St) (snd St)"

abbreviation st_current :: "'s Stage \<Rightarrow> ptr option" where
  "st_current St \<equiv> hs_getCurrentInstruction (fst St) (snd St)"

abbreviation st_execute :: "ptr option \<Rightarrow> 's Stage \<Rightarrow> 's Stage" where
  "st_execute MI St \<equiv> (fst St, hs_execute (fst St) MI (snd St))"

abbreviation st_cycle :: "'s Stage \<Rightarrow> 's Stage" where
  "st_cycle St \<equiv> (fst St, hs_cycle (fst St) (snd St))"

abbreviation st_busy :: "'s Stage \<Rightarrow> u32" where
  "st_busy St \<equiv> hs_getBusyCycles (fst St) (snd St)"

subsection \<open>The pipeline\<close>

record 's HardwarePipeline =
  hp_Stages :: "'s Stage list"
  hp_LastRetired :: "ptr option"

definition newPipeline :: "'s HardwarePipeline" where
  "newPipeline = \<lparr>hp_Stages = [], hp_LastRetired = None\<rparr>"

definition addStage :: "'s Stage \<Rightarrow> 's HardwarePipeline \<Rightarrow> 's HardwarePipeline" where
  "addStage St P = P\<lparr>hp_Stages := hp_Stages P @ [St]\<rparr>"

definition getNumStages :: "'s HardwarePipeline \<Rightarrow> nat" where
  "getNumStages P = length (hp_Stages P)"

definition injectInstruction :: "ptr \<Rightarrow> 's HardwarePipeline \<Rightarrow> 's HardwarePipeline" where
  "injectInstruction MI P =
     (case hp_Stages P of
        [] \<Rightarrow> P
      | St # Sts \<Rightarrow> P\<lparr>hp_Stages := st_execute (Some MI) St # Sts\<rparr>)"

text \<open>One turn of the loop over the stages; the index is in range.\<close>

definition cycleStage :: "nat \<Rightarrow> 's HardwarePipeline \<Rightarrow> 's HardwarePipeline" where
  "cycleStage Idx P =
     (let Sts = hp_Stages P;
          Sts1 = (if Idx + 1 < length Sts \<and> \<not> st_isEmpty (Sts ! Idx) \<and> st_isReady (Sts ! (Idx + 1))
                  then Sts[Idx + 1 := st_execute (st_current (Sts ! Idx)) (Sts ! (Idx + 1))]
                  else Sts);
          Last = (if Idx = length Sts1 - 1 \<and> \<not> st_isEmpty (Sts1 ! Idx)
                  then st_current (Sts1 ! Idx) else hp_LastRetired P)
      in P\<lparr>hp_Stages := Sts1[Idx := st_cycle (Sts1 ! Idx)], hp_LastRetired := Last\<rparr>)"

definition hp_cycle :: "'s HardwarePipeline \<Rightarrow> 's HardwarePipeline" where
  "hp_cycle P = fold cycleStage (rev [0 ..< length (hp_Stages P)]) P"

definition hp_isEmpty :: "'s HardwarePipeline \<Rightarrow> bool" where
  "hp_isEmpty P \<longleftrightarrow> list_all st_isEmpty (hp_Stages P)"

definition isRetired :: "ptr \<Rightarrow> 's HardwarePipeline \<Rightarrow> bool" where
  "isRetired MI P \<longleftrightarrow> hp_LastRetired P = Some MI"

fun minBusy :: "'s Stage list \<Rightarrow> u32 \<times> bool \<Rightarrow> u32 \<times> bool" where
  "minBusy [] best = best"
| "minBusy (St # Sts) (MinBusy, FoundBusy) =
     minBusy Sts
       (if st_busy St > 0 \<and> (\<not> FoundBusy \<or> st_busy St < MinBusy) then (st_busy St, True)
        else (MinBusy, FoundBusy))"

definition convertCyclesToFastForward :: "'s HardwarePipeline \<Rightarrow> u32" where
  "convertCyclesToFastForward P = fst (minBusy (hp_Stages P) (0, False))"

definition hp_clone :: "'s HardwarePipeline \<Rightarrow> 's HardwarePipeline" where
  "hp_clone P =
     \<lparr>hp_Stages = map (\<lambda>St. (fst St, hs_clone (fst St) (snd St))) (hp_Stages P),
      hp_LastRetired = hp_LastRetired P\<rparr>"

subsection \<open>The analysis\<close>

definition MicroArch_equals :: "'s HardwarePipeline \<Rightarrow> 's HardwarePipeline \<Rightarrow> bool" where
  "MicroArch_equals P Other \<longleftrightarrow> hp_isEmpty P \<and> hp_isEmpty Other"

definition MicroArch_join :: "'s HardwarePipeline \<Rightarrow> 's HardwarePipeline \<Rightarrow> 's HardwarePipeline \<times> bool" where
  "MicroArch_join P Other = (P, False)"

definition MicroArch_toString :: "'s HardwarePipeline \<Rightarrow> string" where
  "MicroArch_toString P = (if hp_isEmpty P then ''MicroArchState{empty}'' else ''MicroArchState{active}'')"

partial_function (option) retireLoop ::
  "ptr \<Rightarrow> 's HardwarePipeline \<Rightarrow> u32 \<Rightarrow> (u32 \<times> 's HardwarePipeline) option" where
  "retireLoop MI P TotalCycles =
     (if isRetired MI P then Some (TotalCycles, P)
      else
        let SkipCycles = convertCyclesToFastForward P
        in if SkipCycles > 1
           then retireLoop MI ((hp_cycle ^^ unat SkipCycles) P) (TotalCycles + SkipCycles)
           else retireLoop MI (hp_cycle P) (TotalCycles + 1))"

definition MicroArch_process ::
  "'s HardwarePipeline \<Rightarrow> MachineInstr \<Rightarrow> (u32 \<times> 's HardwarePipeline) option" where
  "MicroArch_process P MI = retireLoop (mi_id MI) (injectInstruction (mi_id MI) P) 0"

text \<open>The analysis as the solver sees it, for the calls of \<open>process\<close> that return.\<close>

definition MicroArchitectureAnalysis :: "'s HardwarePipeline \<Rightarrow> 's HardwarePipeline Analysable" where
  "MicroArchitectureAnalysis InitialPipeline =
     \<lparr>an_getInitialState = hp_clone InitialPipeline,
      an_process = (\<lambda>P MI. the (MicroArch_process P MI)),
      an_clone = hp_clone, an_equals = MicroArch_equals, an_join = MicroArch_join,
      an_toString = MicroArch_toString\<rparr>"

subsection \<open>A cycle is a clocked step\<close>

text \<open>What a stage is after a cycle, from what the stages were before it: it advances, and then takes
  the instruction its predecessor held, if there is one and it can.\<close>

definition clocked :: "'s Stage list \<Rightarrow> nat \<Rightarrow> 's Stage" where
  "clocked Sts j =
     (let c = st_cycle (Sts ! j)
      in if 0 < j \<and> \<not> st_isEmpty (Sts ! (j - 1)) \<and> st_isReady c then st_execute (st_current (Sts ! (j - 1))) c
         else c)"

lemma cycleStages_from:
  assumes "m < length Sts"
  shows "fold cycleStage (rev [m ..< length Sts]) \<lparr>hp_Stages = Sts, hp_LastRetired = r\<rparr> =
    \<lparr>hp_Stages = map (\<lambda>i. if i < m then Sts ! i else if i = m then st_cycle (Sts ! m) else clocked Sts i)
        [0 ..< length Sts],
     hp_LastRetired = if st_isEmpty (last Sts) then r else st_current (last Sts)\<rparr>"
  using assms
proof (induction "length Sts - m" arbitrary: m)
  case (Suc d)
  let ?n = "length Sts" and ?r = "if st_isEmpty (last Sts) then r else st_current (last Sts)"
  show ?case
  proof (cases "Suc m = ?n")
    case True
    then have l: "[m ..< ?n] = [m]" by (auto simp: upt_rec)
    have last: "last Sts = Sts ! m"
      using True by (metis diff_Suc_1 last_conv_nth length_0_conv nat.distinct(1))
    have upd: "Sts[m := st_cycle (Sts ! m)] =
        map (\<lambda>i. if i < m then Sts ! i else if i = m then st_cycle (Sts ! m) else clocked Sts i) [0 ..< ?n]"
      using True by (intro nth_equalityI) (simp_all add: nth_list_update)
    have "cycleStage m \<lparr>hp_Stages = Sts, hp_LastRetired = r\<rparr> =
        \<lparr>hp_Stages = Sts[m := st_cycle (Sts ! m)],
         hp_LastRetired = if st_isEmpty (Sts ! m) then r else st_current (Sts ! m)\<rparr>"
      using True [symmetric] by (simp add: cycleStage_def Let_def)
    then show ?thesis by (simp only: l rev.simps append_Nil fold_simps upd last)
  next
    case False
    then have m: "Suc m < ?n" "d = ?n - Suc m" using Suc by simp_all
    define S where "S = map (\<lambda>i. if i < Suc m then Sts ! i else if i = Suc m then st_cycle (Sts ! Suc m)
        else clocked Sts i) [0 ..< ?n]"
    let ?c = "\<not> st_isEmpty (Sts ! m) \<and> st_isReady (st_cycle (Sts ! Suc m))"
    have S: "S ! m = Sts ! m" "S ! Suc m = st_cycle (Sts ! Suc m)" "length S = ?n"
      using m(1) by (simp_all add: S_def)
    have m_last: "m \<noteq> ?n - 1" using m(1) by linarith
    have "rev [m ..< ?n] = rev [Suc m ..< ?n] @ [m]" using m by (simp add: upt_conv_Cons)
    then have "fold cycleStage (rev [m ..< ?n]) \<lparr>hp_Stages = Sts, hp_LastRetired = r\<rparr> =
        cycleStage m \<lparr>hp_Stages = S, hp_LastRetired = ?r\<rparr>"
      using Suc(1) [OF m(2,1)] by (simp add: S_def)
    moreover have "cycleStage m \<lparr>hp_Stages = S, hp_LastRetired = ?r\<rparr> =
        \<lparr>hp_Stages = (if ?c then S[Suc m := st_execute (st_current (Sts ! m)) (st_cycle (Sts ! Suc m))] else S)
           [m := st_cycle (Sts ! m)], hp_LastRetired = ?r\<rparr>"
      using m(1) S m_last by (simp add: cycleStage_def Let_def)
    moreover have "(if ?c then S[Suc m := st_execute (st_current (Sts ! m)) (st_cycle (Sts ! Suc m))] else S)
           [m := st_cycle (Sts ! m)] =
        map (\<lambda>i. if i < m then Sts ! i else if i = m then st_cycle (Sts ! m) else clocked Sts i) [0 ..< ?n]"
      using m(1) S(3)
      by (intro nth_equalityI) (auto simp: nth_list_update S_def clocked_def Let_def)
    ultimately show ?thesis by simp
  qed
qed simp

lemma clocked_cycle:
  "hp_Stages (hp_cycle P) = map (clocked (hp_Stages P)) [0 ..< getNumStages P] \<and>
   hp_LastRetired (hp_cycle P) =
     (if hp_Stages P = [] \<or> st_isEmpty (last (hp_Stages P)) then hp_LastRetired P
      else st_current (last (hp_Stages P)))"
proof (cases "hp_Stages P = []")
  case False
  then have n: "0 < length (hp_Stages P)" by simp
  have "hp_cycle P = fold cycleStage (rev [0 ..< length (hp_Stages P)])
      \<lparr>hp_Stages = hp_Stages P, hp_LastRetired = hp_LastRetired P\<rparr>"
    by (cases P) (simp add: hp_cycle_def)
  then show ?thesis
    unfolding cycleStages_from [OF n] using False
    by (auto simp: getNumStages_def clocked_def Let_def)
qed (simp add: hp_cycle_def getNumStages_def)

text \<open>C31: Advancing the stages in place, from the last to the first, is one clocked step: every stage
  sees its predecessor as it was when the cycle began, so an instruction moves at most one stage
  per cycle; the instruction marked as retired is the one that was in the
  last stage when the cycle began, if there was one.\<close>

theorem cycle_is_clocked:
  "hp_Stages (hp_cycle P) = map (clocked (hp_Stages P)) [0 ..< getNumStages P] \<and>
   hp_LastRetired (hp_cycle P) =
     (if hp_Stages P = [] \<or> st_isEmpty (last (hp_Stages P)) then hp_LastRetired P
      else st_current (last (hp_Stages P)))"
  by (rule clocked_cycle)

subsection \<open>The least busy time\<close>

definition busyTimes :: "'s HardwarePipeline \<Rightarrow> u32 set" where
  "busyTimes P = {b \<in> st_busy ` set (hp_Stages P). b > 0}"

lemma minBusy_spec:
  "minBusy Sts (b, f) = (b', f') \<Longrightarrow>
   (f' \<longleftrightarrow> f \<or> (\<exists>St \<in> set Sts. st_busy St > 0)) \<and>
   (f' \<longrightarrow> (f \<and> b' = b \<or> b' > 0 \<and> b' \<in> st_busy ` set Sts) \<and> (f \<longrightarrow> b' \<le> b) \<and>
      (\<forall>St \<in> set Sts. st_busy St > 0 \<longrightarrow> b' \<le> st_busy St)) \<and>
   (\<not> f' \<longrightarrow> b' = b)"
proof (induction Sts arbitrary: b f)
  case (Cons St Sts)
  show ?case
  proof (cases "st_busy St > 0 \<and> (\<not> f \<or> st_busy St < b)")
    case True
    then have "minBusy Sts (st_busy St, True) = (b', f')" using Cons.prems by simp
    from Cons.IH [OF this] True show ?thesis by auto
  next
    case False
    then have "minBusy Sts (b, f) = (b', f')" using Cons.prems by auto
    from Cons.IH [OF this] False show ?thesis by (cases f) auto
  qed
qed simp

text \<open>The number of cycles to skip is the least positive busy time of the stages, and zero when no
  stage is busy.\<close>

lemma fast_forward_Min:
  "convertCyclesToFastForward P = (if busyTimes P = {} then 0 else Min (busyTimes P))"
proof -
  obtain b f where m: "minBusy (hp_Stages P) (0, False) = (b, f)" by force
  note s = minBusy_spec [OF m]
  show ?thesis
  proof (cases "busyTimes P = {}")
    case True
    then have "\<not> f" using s by (auto simp: busyTimes_def)
    then show ?thesis using True s m by (simp add: convertCyclesToFastForward_def)
  next
    case False
    then have "f" using s by (auto simp: busyTimes_def)
    then have "b \<in> busyTimes P" "\<And>y. y \<in> busyTimes P \<Longrightarrow> b \<le> y" using s by (auto simp: busyTimes_def)
    moreover have "finite (busyTimes P)" by (simp add: busyTimes_def)
    ultimately have "Min (busyTimes P) = b" by (intro Min_eqI) auto
    then show ?thesis using False m by (simp add: convertCyclesToFastForward_def)
  qed
qed

subsection \<open>One instruction through the pipeline\<close>

text \<open>A stage of one cycle, in the states it gets into: when it is empty it is ready and then holds the
  instruction it is given; a cycle leaves it empty; it never reports to be busy for more.\<close>

definition single_cycle :: "'s AbstractHardwareStage \<Rightarrow> ('s \<Rightarrow> bool) \<Rightarrow> bool" where
  "single_cycle H ok \<longleftrightarrow>
     (\<forall>s. ok s \<longrightarrow> ok (hs_cycle H s) \<and> hs_isEmpty H (hs_cycle H s) \<and> hs_getBusyCycles H s \<le> 1) \<and>
     (\<forall>s MI. ok s \<and> hs_isEmpty H s \<longrightarrow>
        hs_isReady H s \<and> ok (hs_execute H (Some MI) s) \<and> \<not> hs_isEmpty H (hs_execute H (Some MI) s) \<and>
        hs_getCurrentInstruction H (hs_execute H (Some MI) s) = Some MI)"

definition one_cycle :: "'s Stage \<Rightarrow> bool" where
  "one_cycle St \<longleftrightarrow> (\<exists>ok. single_cycle (fst St) ok \<and> ok (snd St))"

lemma one_cycleD:
  assumes "one_cycle St"
  shows "one_cycle (st_cycle St)" "st_isEmpty (st_cycle St)" "st_busy St \<le> 1"
    "st_isEmpty St \<Longrightarrow> st_isReady St" "st_isEmpty St \<Longrightarrow> one_cycle (st_execute (Some MI) St)"
    "st_isEmpty St \<Longrightarrow> \<not> st_isEmpty (st_execute (Some MI) St)"
    "st_isEmpty St \<Longrightarrow> st_current (st_execute (Some MI) St) = Some MI"
  using assms by (auto simp: one_cycle_def single_cycle_def)

definition holds :: "'s HardwarePipeline \<Rightarrow> ptr \<Rightarrow> nat \<Rightarrow> bool" where
  "holds P MI k \<longleftrightarrow>
     (\<forall>St \<in> set (hp_Stages P). one_cycle St) \<and>
     (\<forall>i < length (hp_Stages P). st_isEmpty (hp_Stages P ! i) \<longleftrightarrow> i \<noteq> k) \<and>
     (k < length (hp_Stages P) \<longrightarrow> st_current (hp_Stages P ! k) = Some MI)"

lemma holds_cycle:
  assumes h: "holds P MI k" "k < length (hp_Stages P)"
  shows "holds (hp_cycle P) MI (Suc k)" "length (hp_Stages (hp_cycle P)) = length (hp_Stages P)"
    "hp_LastRetired (hp_cycle P) =
       (if Suc k = length (hp_Stages P) then Some MI else hp_LastRetired P)"
proof -
  let ?S = "hp_Stages P"
  have st: "hp_Stages (hp_cycle P) = map (clocked ?S) [0 ..< length ?S]"
    using clocked_cycle [of P] by (simp add: getNumStages_def)
  show len: "length (hp_Stages (hp_cycle P)) = length ?S" by (simp add: st)
  have s1: "one_cycle (?S ! i)" if "i < length ?S" for i using h(1) that by (auto simp: holds_def)
  have e: "st_isEmpty (?S ! i) \<longleftrightarrow> i \<noteq> k" if "i < length ?S" for i using h(1) that by (auto simp: holds_def)
  have "st_current (?S ! k) = Some MI" using h by (simp add: holds_def)
  then have moved: "clocked ?S i = (if i = Suc k then st_execute (Some MI) (st_cycle (?S ! i)) else st_cycle (?S ! i))"
    if i: "i < length ?S" for i
  proof -
    have r: "st_isReady (st_cycle (?S ! i))" by (rule one_cycleD(4) [OF one_cycleD(1,2) [OF s1 [OF i]]])
    show ?thesis using e [of "i - 1"] i r \<open>st_current (?S ! k) = Some MI\<close>
      by (cases i) (auto simp: clocked_def Let_def)
  qed
  have c: "one_cycle (clocked ?S i) \<and> (st_isEmpty (clocked ?S i) \<longleftrightarrow> i \<noteq> Suc k)" if i: "i < length ?S" for i
  proof -
    note a = one_cycleD(1,2) [OF s1 [OF i]]
    show ?thesis unfolding moved [OF i]
      using a one_cycleD(5,6) [OF a, of MI] by (simp split del: if_split only: split: if_split) blast
  qed
  have "st_current (clocked ?S (Suc k)) = Some MI" if i: "Suc k < length ?S"
    unfolding moved [OF i] using one_cycleD(7) [OF one_cycleD(1,2) [OF s1 [OF i]], of MI] by simp
  then show "holds (hp_cycle P) MI (Suc k)"
    using c by (auto simp: holds_def st)
  have ne: "?S \<noteq> []" using h(2) by auto
  then have l: "last ?S = ?S ! (length ?S - 1)" by (rule last_conv_nth)
  then have "st_isEmpty (last ?S) \<longleftrightarrow> Suc k \<noteq> length ?S"
    using h by (auto simp: holds_def)
  moreover have "st_current (last ?S) = Some MI" if "Suc k = length ?S"
    using h l that [symmetric] by (simp add: holds_def)
  ultimately show "hp_LastRetired (hp_cycle P) = (if Suc k = length ?S then Some MI else hp_LastRetired P)"
    using clocked_cycle [of P] ne by simp
qed

lemma holds_no_skip:
  assumes "holds P MI k"
  shows "\<not> 1 < convertCyclesToFastForward P"
proof (cases "busyTimes P = {}")
  case False
  have fin: "finite (busyTimes P)" by (simp add: busyTimes_def)
  have "b \<le> 1" if b: "b \<in> busyTimes P" for b
  proof -
    obtain St where "St \<in> set (hp_Stages P)" "b = st_busy St" using b unfolding busyTimes_def by blast
    then show ?thesis using assms one_cycleD(3) [of St] by (simp add: holds_def)
  qed
  then have "Min (busyTimes P) \<le> 1" using Min_in [OF fin False] by blast
  then show ?thesis using False by (simp only: fast_forward_Min not_less if_False)
qed (simp add: fast_forward_Min)

lemma retireLoop_holds:
  "holds P MI k \<Longrightarrow> k < length (hp_Stages P) \<Longrightarrow> \<not> isRetired MI P \<Longrightarrow>
   \<exists>P'. retireLoop MI P t = Some (t + word_of_nat (length (hp_Stages P) - k), P') \<and> hp_isEmpty P' \<and>
     isRetired MI P'"
proof (induction "length (hp_Stages P) - k" arbitrary: P k t)
  case (Suc d)
  note c = holds_cycle [OF Suc.prems(1,2)]
  have run: "retireLoop MI P t = retireLoop MI (hp_cycle P) (t + 1)"
    using holds_no_skip [OF Suc.prems(1)] Suc.prems(3) by (subst retireLoop.simps) (simp add: Let_def)
  show ?case
  proof (cases "Suc k = length (hp_Stages P)")
    case True
    then have "isRetired MI (hp_cycle P)" using c(3) by (simp add: isRetired_def)
    moreover have "hp_isEmpty (hp_cycle P)"
      using c(1,2) True by (auto simp: holds_def hp_isEmpty_def list_all_length)
    ultimately show ?thesis
      using True by (auto simp: run retireLoop.simps [of MI "hp_cycle P"] simp flip: True)
  next
    case False
    then have "\<not> isRetired MI (hp_cycle P)" using c(3) Suc.prems(3) by (simp add: isRetired_def)
    moreover have "d = length (hp_Stages (hp_cycle P)) - Suc k" "Suc k < length (hp_Stages (hp_cycle P))"
      using c(2) Suc(2) Suc.prems(2) False by simp_all
    ultimately obtain P' where "retireLoop MI (hp_cycle P) (t + 1) =
        Some (t + 1 + word_of_nat (length (hp_Stages P) - Suc k), P')" "hp_isEmpty P'" "isRetired MI P'"
      using Suc(1) [OF _ c(1)] c(2) by metis
    moreover have "length (hp_Stages P) - k = Suc (length (hp_Stages P) - Suc k)" using Suc.prems(2) by simp
    ultimately show ?thesis using run by (simp add: add.assoc)
  qed
qed simp

lemma injected: "length (hp_Stages (injectInstruction MI P)) = length (hp_Stages P)"
  by (simp add: injectInstruction_def split: list.splits)

lemma injected_retired: "isRetired MI (injectInstruction MI P) \<longleftrightarrow> isRetired MI P"
  by (simp add: injectInstruction_def isRetired_def split: list.splits)

lemma injected_holds:
  assumes "\<forall>St \<in> set (hp_Stages P). one_cycle St" "hp_isEmpty P" "hp_Stages P \<noteq> []"
  shows "holds (injectInstruction MI P) MI 0"
proof -
  obtain St Sts where S: "hp_Stages P = St # Sts" using assms(3) by (cases "hp_Stages P") auto
  have "one_cycle St" "st_isEmpty St" using assms(1,2) by (simp_all add: S hp_isEmpty_def)
  then show ?thesis
    using assms(1,2) one_cycleD(5-7) [of St MI]
    by (auto simp: holds_def injectInstruction_def S hp_isEmpty_def nth_Cons list_all_length split: nat.splits)
qed

text \<open>C32: An instruction that enters an empty pipeline of stages of one cycle leaves it after exactly as
  many cycles as there are stages, and the pipeline is empty again: \<open>process\<close> returns. The pipeline has a
  stage, and the instruction is not the one it retired last (then it takes no cycle at all).\<close>

theorem single_cycle_latency:
  assumes "\<forall>St \<in> set (hp_Stages P). one_cycle St" "hp_isEmpty P" "hp_Stages P \<noteq> []"
    and "\<not> isRetired (mi_id MI) P"
  shows "\<exists>P'. MicroArch_process P MI = Some (word_of_nat (getNumStages P), P') \<and> hp_isEmpty P'"
proof -
  let ?P = "injectInstruction (mi_id MI) P"
  have "0 < length (hp_Stages ?P)" "\<not> isRetired (mi_id MI) ?P"
    using assms(3,4) by (simp_all add: injected injected_retired)
  then obtain P' where "retireLoop (mi_id MI) ?P 0 = Some (0 + word_of_nat (length (hp_Stages ?P) - 0), P')" "hp_isEmpty P'"
    using retireLoop_holds [OF injected_holds [OF assms(1-3)]] by blast
  then show ?thesis by (simp add: MicroArch_process_def getNumStages_def injected)
qed

text \<open>The stage the documentation gives as an example, with its number of cycles.\<close>

definition example_stage :: "u32 \<Rightarrow> (ptr option \<times> u32) AbstractHardwareStage" where
  "example_stage L = \<lparr>hs_cycle = (\<lambda>(MI, n). if n \<le> 1 then (None, 0) else (MI, n - 1)), hs_isReady = (\<lambda>(MI, n). MI = None),
     hs_execute = (\<lambda>MI _. (MI, L)), hs_clone = (\<lambda>s. s), hs_getBusyCycles = snd, hs_isEmpty = (\<lambda>s. fst s = None),
     hs_getCurrentInstruction = fst\<rparr>"

definition three_stages :: "(ptr option \<times> u32) HardwarePipeline" where
  "three_stages = addStage (example_stage 1, (None, 0))
     (addStage (example_stage 1, (None, 0)) (addStage (example_stage 1, (None, 0)) newPipeline))"

lemma example_one_cycle: "one_cycle (example_stage 1, (None, 0))"
  unfolding one_cycle_def
  by (rule exI [of _ "\<lambda>s. snd s \<le> 1"]) (auto simp: single_cycle_def example_stage_def)

lemma three_stages: "hp_Stages three_stages = replicate 3 (example_stage 1, (None, 0))" "hp_LastRetired three_stages = None"
  by (simp_all add: three_stages_def addStage_def newPipeline_def eval_nat_numeral)

lemma three_empty: "hp_isEmpty three_stages" "\<forall>St \<in> set (hp_Stages three_stages). one_cycle St"
proof -
  have "st_isEmpty (example_stage 1, (None, 0))" by (simp add: example_stage_def)
  then show "hp_isEmpty three_stages" unfolding hp_isEmpty_def three_stages list_all_iff by simp
  show "\<forall>St \<in> set (hp_Stages three_stages). one_cycle St" by (simp add: three_stages example_one_cycle)
qed

theorem single_cycle_latency_witness:
  "\<exists>P'. MicroArch_process three_stages demo_jump = Some (3, P') \<and> hp_isEmpty P'"
  using single_cycle_latency [of three_stages demo_jump, OF three_empty(2,1)]
  by (simp add: three_stages isRetired_def getNumStages_def)

subsection \<open>When the loop returns\<close>

lemma retireLoop_retired:
  assumes "retireLoop MI P t = Some y"
  shows "isRetired MI (snd y)"
proof -
  have "(\<lambda>((MI, P), t) y. isRetired MI (snd y)) ((MI, P), t) y"
    by (rule retireLoop.raw_induct [OF _ assms]) (auto simp: Let_def split: if_splits)
  then show ?thesis by simp
qed

lemma no_stages:
  "hp_Stages P = [] \<Longrightarrow> hp_cycle P = P \<and> \<not> 1 < convertCyclesToFastForward P"
  by (simp add: hp_cycle_def convertCyclesToFastForward_def)

lemma retireLoop_stuck:
  assumes "retireLoop MI P t = Some y" "hp_Stages P = []"
  shows "isRetired MI P"
proof -
  have "(\<lambda>((MI, P), t) y. hp_Stages P = [] \<longrightarrow> isRetired MI P) ((MI, P), t) y"
    by (rule retireLoop.raw_induct [OF _ assms(1)]) (auto simp: Let_def no_stages split: if_splits)
  then show ?thesis using assms(2) by simp
qed

text \<open>Without stages nothing is ever retired: \<open>process\<close> never returns for a pipeline nothing was
  added to.\<close>

lemma no_stages_no_return:
  assumes "hp_Stages P = []" "\<not> isRetired (mi_id MI) P"
  shows "MicroArch_process P MI = None"
proof (cases "MicroArch_process P MI")
  case (Some y)
  then show ?thesis
    using retireLoop_stuck [of "mi_id MI" P 0 y] assms by (simp add: MicroArch_process_def injectInstruction_def)
qed

text \<open>C33: The analysis keeps the last retired instruction in its state, so an instruction that is
  processed twice in a row -- the only one of a loop, say -- takes no cycle the second time, whatever
  the stages.\<close>

theorem second_run_free:
  assumes "MicroArch_process P MI = Some (c, P')"
  shows "\<exists>P''. MicroArch_process P' MI = Some (0, P'')"
proof -
  have "isRetired (mi_id MI) P'"
    using retireLoop_retired [of "mi_id MI" "injectInstruction (mi_id MI) P" 0 "(c, P')"] assms
    by (simp add: MicroArch_process_def)
  then have "isRetired (mi_id MI) (injectInstruction (mi_id MI) P')" by (simp add: injected_retired)
  then show ?thesis by (simp add: MicroArch_process_def retireLoop.simps)
qed

text \<open>Two stages that stay busy for 2 and 5 cycles: the first hands its instruction on while it is still
  busy with it, and an instruction counts as retired when it is seen in the last stage, so the two
  stages together take the two cycles of the first.\<close>

definition two_stages :: "(ptr option \<times> u32) HardwarePipeline" where
  "two_stages = addStage (example_stage 5, (None, 0)) (addStage (example_stage 2, (None, 0)) newPipeline)"

lemma latencies_not_added: "map_option fst (MicroArch_process two_stages demo_jump) = Some 2"
proof -
  define P where "P = (\<lambda>a b r. \<lparr>hp_Stages = [(example_stage 2, a), (example_stage 5, b)], hp_LastRetired = r\<rparr>)"
  let ?i = "Some (mi_id demo_jump)"
  have "injectInstruction (mi_id demo_jump) two_stages = P (?i, 2) (None, 0) None"
    by (simp add: two_stages_def addStage_def newPipeline_def injectInstruction_def P_def example_stage_def)
  moreover have "convertCyclesToFastForward (P (?i, 2) (None, 0) None) = 2"
    by (simp add: convertCyclesToFastForward_def P_def example_stage_def)
  moreover have "hp_cycle (P (?i, 2) (None, 0) None) = P (?i, 1) (?i, 5) None"
    "hp_cycle (P (?i, 1) (?i, 5) None) = P (None, 0) (?i, 4) ?i"
    by (simp_all add: hp_cycle_def cycleStage_def P_def example_stage_def upt_rec word_le_nat_alt)
  moreover have "\<not> isRetired (mi_id demo_jump) (P (?i, 2) (None, 0) None)"
    "isRetired (mi_id demo_jump) (P (None, 0) (?i, 4) ?i)"
    by (simp_all add: isRetired_def P_def)
  moreover have "(hp_cycle ^^ unat (2 :: u32)) X = hp_cycle (hp_cycle X)" for X :: "(ptr option \<times> u32) HardwarePipeline"
  proof -
    have "unat (2 :: u32) = Suc (Suc 0)" by simp
    then show ?thesis by (simp only: funpow.simps o_apply id_apply)
  qed
  ultimately show ?thesis
    by (simp add: MicroArch_process_def retireLoop.simps Let_def del: unat_numeral unsigned_numeral)
qed

theorem second_run_free_witness:
  "\<exists>c P'. MicroArch_process three_stages demo_jump = Some (c, P') \<and>
     (\<exists>P''. MicroArch_process P' demo_jump = Some (0, P''))"
proof -
  let ?P = "injectInstruction (mi_id demo_jump) three_stages"
  have "hp_Stages three_stages \<noteq> []" "0 < length (hp_Stages ?P)" "\<not> isRetired (mi_id demo_jump) ?P"
    by (simp_all add: injected injected_retired) (simp_all add: three_stages isRetired_def)
  then obtain c P' where "MicroArch_process three_stages demo_jump = Some (c, P')"
    using retireLoop_holds [OF injected_holds [OF three_empty(2,1)], of "mi_id demo_jump" 0]
    unfolding MicroArch_process_def by blast
  then show ?thesis using second_run_free by blast
qed

end
