(* ===== verification/ModuleGraph.thy ===== *)
theory ModuleGraph
  imports GraphPasses PathAnalysis CallSplitter
begin

text \<open>
  \<open>FillMuGraphPass\<close> over a whole module, in the order the pass manager hands it the functions. The
  invariant of the graph while it is filled (\<open>module_inv\<close>) says whose nodes the maps and call sites
  name; filling in one more function keeps it, and finalising a graph that has it gives a graph
  in the shape \<open>pg_ready\<close> the path analysis rests on.
\<close>

subsection \<open>The call sites of a function\<close>

text \<open>The function an instruction calls by name, and the block control comes back to.\<close>

definition calledFunction :: "MachineInstr \<Rightarrow> ptr option" where
  "calledFunction MI =
     (if mi_isCall MI then
        (case mi_operands MI of MO_GlobalAddress (GV_Function F) # _ \<Rightarrow> Some F | _ \<Rightarrow> None)
      else None)"

definition calledSymbol :: "MachineInstr \<Rightarrow> string option" where
  "calledSymbol MI =
     (if mi_isCall MI then (case mi_operands MI of MO_ExternalSymbol S # _ \<Rightarrow> Some S | _ \<Rightarrow> None) else None)"

definition landingBlock :: "MachineBasicBlock \<Rightarrow> ptr option" where
  "landingBlock B =
     (if length (mbb_succs B) = 1 then Some (hd (mbb_succs B)) else mbb_fallThrough B)"

definition blockCalls :: "MachineBasicBlock \<Rightarrow> ptr list" where
  "blockCalls B = List.map_filter calledFunction (mbb_instrs B)"

definition blockSymbols :: "MachineBasicBlock \<Rightarrow> string list" where
  "blockSymbols B = List.map_filter calledSymbol (mbb_instrs B)"

definition nodeFor :: "(ptr \<rightharpoonup> nat) \<Rightarrow> MachineBasicBlock \<Rightarrow> nat" where
  "nodeFor m B = (case m (mbb_id B) of Some n \<Rightarrow> n | None \<Rightarrow> 0)"

lemma nodeOf_nodeFor: "nodeOf G (mbb_id B) = nodeFor (map_of (MBBToNodeMap G)) B"
  by (simp add: nodeOf_def nodeFor_def omap_get_def)

definition siteOf :: "(ptr \<rightharpoonup> nat) \<Rightarrow> MachineBasicBlock \<Rightarrow> ptr \<Rightarrow> CallSite" where
  "siteOf m B F =
     (let Land = (case landingBlock B of Some L \<Rightarrow> m L | None \<Rightarrow> None) in
      \<lparr>CallNode = nodeFor m B, Callee = F,
       LandingNode = (case Land of Some n \<Rightarrow> n | None \<Rightarrow> 0), HasLanding = (Land \<noteq> None)\<rparr>)"

definition blockSites :: "(ptr \<rightharpoonup> nat) \<Rightarrow> MachineBasicBlock \<Rightarrow> CallSite list" where
  "blockSites m B = map (siteOf m B) (blockCalls B)"

definition calls_frame :: "ProgramGraph \<Rightarrow> ProgramGraph \<Rightarrow> bool" where
  "calls_frame G G' \<longleftrightarrow> G'\<lparr>CallSites := [], ExternalSymbolCallSites := []\<rparr> =
     G\<lparr>CallSites := [], ExternalSymbolCallSites := []\<rparr>"

lemma calls_frameD:
  assumes "calls_frame G G'"
  shows "MBBToNodeMap G' = MBBToNodeMap G" "FunctionToReturnNodesMap G' = FunctionToReturnNodesMap G"
    "nodeOf G' = nodeOf G" "NodeToFunctionMap G' = NodeToFunctionMap G"
    "FunctionToEntryNodeMap G' = FunctionToEntryNodeMap G" "HasEntryNode G' = HasEntryNode G"
    "EntryNodeId G' = EntryNodeId G" "StartFunction G' = StartFunction G"
  using assms by (cases G; cases G'; simp add: calls_frame_def nodeOf_def fun_eq_iff)+

lemma captureCall_sites:
  assumes "captureCall B MI G = Some G'"
  shows "calls_frame G G'"
    "CallSites G' = CallSites G @
       (case calledFunction MI of Some F \<Rightarrow> [siteOf (map_of (MBBToNodeMap G)) B F] | None \<Rightarrow> [])"
    "ExternalSymbolCallSites G' = ExternalSymbolCallSites G @
       (case calledSymbol MI of Some S \<Rightarrow> [(nodeOf G (mbb_id B), S)] | None \<Rightarrow> [])"
proof -
  show "calls_frame G G'"
    using assms by (auto simp: captureCall_def calls_frame_def Let_def split: if_splits list.splits
        MachineOperand.splits GlobalValue.splits)
  show "CallSites G' = CallSites G @
       (case calledFunction MI of Some F \<Rightarrow> [siteOf (map_of (MBBToNodeMap G)) B F] | None \<Rightarrow> [])"
    using assms unfolding captureCall_def
    by (auto simp: calledFunction_def landingBlock_def Let_def siteOf_def nodeOf_nodeFor
        split: if_splits list.splits MachineOperand.splits GlobalValue.splits)
  show "ExternalSymbolCallSites G' = ExternalSymbolCallSites G @
       (case calledSymbol MI of Some S \<Rightarrow> [(nodeOf G (mbb_id B), S)] | None \<Rightarrow> [])"
    using assms by (auto simp: captureCall_def calledSymbol_def Let_def split: if_splits list.splits
        MachineOperand.splits GlobalValue.splits)
qed

lemma captureCalls_sites:
  "captureCalls B MIs G = Some G' \<Longrightarrow> calls_frame G G' \<and>
   CallSites G' = CallSites G @ map (siteOf (map_of (MBBToNodeMap G)) B) (List.map_filter calledFunction MIs) \<and>
   ExternalSymbolCallSites G' = ExternalSymbolCallSites G @
     map (Pair (nodeOf G (mbb_id B))) (List.map_filter calledSymbol MIs)"
proof (induction MIs arbitrary: G)
  case Nil
  then show ?case by (simp add: calls_frame_def map_filter_simps)
next
  case (Cons MI MIs)
  then obtain G1 where G1: "captureCall B MI G = Some G1" "captureCalls B MIs G1 = Some G'"
    by (auto simp: bind_eq_Some_conv)
  note c = captureCall_sites [OF G1(1)] and i = Cons.IH [OF G1(2)]
  note f = calls_frameD [OF c(1)]
  have "calls_frame G G'" using c(1) i by (simp add: calls_frame_def)
  moreover have "ExternalSymbolCallSites G' = ExternalSymbolCallSites G @
     map (Pair (nodeOf G (mbb_id B))) (List.map_filter calledSymbol (MI # MIs))"
    using c(3) i by (simp add: f(3) map_filter_simps split: option.splits)
  ultimately show ?case
    using c(2) i by (simp add: f(1) map_filter_simps split: option.splits)
qed

lemma fillCalls_sites:
  "fillCalls F Bs G = Some G' \<Longrightarrow>
   MBBToNodeMap G' = MBBToNodeMap G \<and> NodeToFunctionMap G' = NodeToFunctionMap G \<and>
   FunctionToEntryNodeMap G' = FunctionToEntryNodeMap G \<and> HasEntryNode G' = HasEntryNode G \<and>
   EntryNodeId G' = EntryNodeId G \<and> StartFunction G' = StartFunction G \<and>
   CallSites G' = CallSites G @ concat (map (blockSites (map_of (MBBToNodeMap G))) Bs) \<and>
   ExternalSymbolCallSites G' = ExternalSymbolCallSites G @
     concat (map (\<lambda>B. map (Pair (nodeOf G (mbb_id B))) (blockSymbols B)) Bs) \<and>
   (omap_ok (FunctionToReturnNodesMap G) \<longrightarrow> omap_ok (FunctionToReturnNodesMap G')) \<and>
   (\<forall>H. omap_get [] (FunctionToReturnNodesMap G') H = omap_get [] (FunctionToReturnNodesMap G) H @
     (if H = F then map (nodeOf G \<circ> mbb_id) (filter mbb_isReturnBlock Bs) else []))"
proof (induction Bs arbitrary: G)
  case Nil
  then show ?case by simp
next
  case (Cons B Bs)
  define G1 where "G1 = (if mbb_isReturnBlock B
      then G\<lparr>FunctionToReturnNodesMap :=
        omap_put F (omap_get [] (FunctionToReturnNodesMap G) F @ [nodeOf G (mbb_id B)])
          (FunctionToReturnNodesMap G)\<rparr> else G)"
  obtain G2 where G2: "captureCalls B (mbb_instrs B) G1 = Some G2" "fillCalls F Bs G2 = Some G'"
    using Cons.prems by (auto simp: bind_eq_Some_conv G1_def Let_def)
  have 1: "MBBToNodeMap G1 = MBBToNodeMap G" "nodeOf G1 = nodeOf G" "CallSites G1 = CallSites G"
    "NodeToFunctionMap G1 = NodeToFunctionMap G" "FunctionToEntryNodeMap G1 = FunctionToEntryNodeMap G"
    "HasEntryNode G1 = HasEntryNode G" "EntryNodeId G1 = EntryNodeId G" "StartFunction G1 = StartFunction G"
    "ExternalSymbolCallSites G1 = ExternalSymbolCallSites G"
    by (simp_all add: G1_def nodeOf_def fun_eq_iff)
  have r: "omap_get [] (FunctionToReturnNodesMap G1) H = omap_get [] (FunctionToReturnNodesMap G) H @
      (if H = F \<and> mbb_isReturnBlock B then [nodeOf G (mbb_id B)] else [])" for H
    by (simp add: G1_def)
  have o: "omap_ok (FunctionToReturnNodesMap G) \<Longrightarrow> omap_ok (FunctionToReturnNodesMap G1)"
    by (simp add: G1_def)
  note c = captureCalls_sites [OF G2(1), unfolded 1]
  note f = calls_frameD [OF conjunct1 [OF c], unfolded 1]
  note i = Cons.IH [OF G2(2), unfolded f]
  have "ExternalSymbolCallSites G' = ExternalSymbolCallSites G @
     concat (map (\<lambda>B. map (Pair (nodeOf G (mbb_id B))) (blockSymbols B)) (B # Bs))"
    using c i by (simp add: blockSymbols_def)
  moreover have "CallSites G' = CallSites G @ concat (map (blockSites (map_of (MBBToNodeMap G))) (B # Bs))"
    using c i by (simp add: blockSites_def [abs_def] blockCalls_def)
  ultimately show ?case
    using i r o by simp
qed

subsection \<open>The invariant of the fill\<close>

abbreviation returnNodes :: "ProgramGraph \<Rightarrow> ptr \<Rightarrow> nat list" where
  "returnNodes G F \<equiv> omap_get [] (FunctionToReturnNodesMap G) F"

text \<open>What the call splitter and the back end leave of a function: a call is the last instruction of
  its block and the block does not return, control falls into a successor, and two
  calls of one function come back to different blocks.\<close>

definition callLandings :: "MachineFunction \<Rightarrow> (ptr \<times> ptr) list" where
  "callLandings MF =
     concat (map (\<lambda>B. case landingBlock B of Some L \<Rightarrow> map (\<lambda>F. (F, L)) (blockCalls B) | None \<Rightarrow> [])
       (mf_blocks MF))"

definition fn_shape :: "MachineFunction \<Rightarrow> bool" where
  "fn_shape MF \<longleftrightarrow>
     mf_wf MF \<and> calls_ok MF \<and> distinct (callLandings MF) \<and>
     (\<forall>B \<in> set (mf_blocks MF). mbb_name B \<noteq> ''Entry'' \<and> calls_last (mbb_instrs B) \<and>
        (mbb_isReturnBlock B \<longrightarrow> blockCalls B = []) \<and>
        (\<forall>L. mbb_fallThrough B = Some L \<longrightarrow> L \<in> set (mbb_succs B)))"

lemma one_call:
  assumes "calls_last MIs"
  shows "length (List.map_filter calledFunction MIs) \<le> 1"
proof (cases MIs rule: rev_cases)
  case (snoc xs x)
  have "calledFunction y = None" if "y \<in> set xs" for y
    using assms that by (simp add: calls_last_def snoc calledFunction_def)
  then have "List.map_filter calledFunction xs = []"
    by (induction xs) (auto simp: map_filter_simps)
  then show ?thesis by (simp add: snoc map_filter_def)
qed (simp add: map_filter_simps)

lemma one_block_call:
  "fn_shape MF \<Longrightarrow> B \<in> set (mf_blocks MF) \<Longrightarrow> blockCalls B = [] \<or> (\<exists>F. blockCalls B = [F])"
  using one_call [of "mbb_instrs B"] by (auto simp: fn_shape_def blockCalls_def le_Suc_eq length_Suc_conv)

lemma landing_succ:
  "fn_shape MF \<Longrightarrow> B \<in> set (mf_blocks MF) \<Longrightarrow> landingBlock B = Some L \<Longrightarrow> L \<in> set (mbb_succs B)"
  by (cases "length (mbb_succs B) = 1") (auto simp: fn_shape_def landingBlock_def length_Suc_conv)

lemma landing_in:
  "fn_shape MF \<Longrightarrow> B \<in> set (mf_blocks MF) \<Longrightarrow> landingBlock B = Some L \<Longrightarrow> L \<in> mbb_id ` set (mf_blocks MF)"
  using landing_succ [of MF B L] by (auto simp: fn_shape_def mf_wf_def)

text \<open>The nodes of the graph belong to the functions filled in, the entry to none. Sites and return
  nodes are told apart by the function of their nodes.\<close>

definition sites_apart :: "ProgramGraph \<Rightarrow> bool" where
  "sites_apart G \<longleftrightarrow>
     distinct (map CallNode (CallSites G)) \<and>
     distinct (map (\<lambda>CS. (Callee CS, LandingNode CS)) (filter HasLanding (CallSites G))) \<and>
     (\<forall>CS \<in> set (CallSites G). \<forall>F. CallNode CS \<notin> set (returnNodes G F))"

definition nodes_owned :: "ProgramGraph \<Rightarrow> bool" where
  "nodes_owned G \<longleftrightarrow>
     dom (map_of (NodeToFunctionMap G)) \<subseteq> node_ids G \<and>
     (\<forall>F n. map_of (FunctionToEntryNodeMap G) F = Some n \<longrightarrow> map_of (NodeToFunctionMap G) n = Some F) \<and>
     (\<forall>F. distinct (returnNodes G F)) \<and>
     (\<forall>F. \<forall>n \<in> set (returnNodes G F). map_of (NodeToFunctionMap G) n = Some F) \<and>
     (\<forall>CS \<in> set (CallSites G). CallNode CS \<in> dom (map_of (NodeToFunctionMap G)) \<and>
        (HasLanding CS \<longrightarrow> LandingNode CS \<in> dom (map_of (NodeToFunctionMap G)))) \<and>
     (\<forall>p \<in> set (ExternalSymbolCallSites G). fst p \<in> dom (map_of (NodeToFunctionMap G)))"

definition entry_apart :: "ProgramGraph \<Rightarrow> bool" where
  "entry_apart G \<longleftrightarrow>
     (\<forall>i N. node_at G i = Some N \<and> nd_Name N = ''Entry'' \<longrightarrow> HasEntryNode G \<and> i = EntryNodeId G) \<and>
     (HasEntryNode G \<longrightarrow> EntryNodeId G \<in> node_ids G \<and>
        map_of (NodeToFunctionMap G) (EntryNodeId G) = None \<and> preds G (EntryNodeId G) = {})"

definition module_inv :: "ptr set \<Rightarrow> ProgramGraph \<Rightarrow> bool" where
  "module_inv Fs G \<longleftrightarrow>
     pg_wf G \<and> maps_ok G \<and> nodes_owned G \<and> sites_apart G \<and> entry_apart G \<and>
     ran (map_of (NodeToFunctionMap G)) \<subseteq> Fs"

lemma module_inv_empty: "module_inv {} emptyPG"
  by (simp add: module_inv_def maps_ok_def nodes_owned_def sites_apart_def entry_apart_def
      omap_get_def node_at_def) (simp add: emptyPG_def)

lemma module_inv_sites: "module_inv Fs G \<Longrightarrow> sites_ok G"
  unfolding module_inv_def nodes_owned_def sites_ok_def by blast

subsection \<open>Finalisation makes the graph ready\<close>

lemma distinct_concat_apart:
  assumes "distinct xs" "\<And>x. x \<in> set xs \<Longrightarrow> distinct (f x)"
    and "\<And>x y. x \<in> set xs \<Longrightarrow> y \<in> set xs \<Longrightarrow> x \<noteq> y \<Longrightarrow> set (f x) \<inter> set (f y) = {}"
  shows "distinct (concat (map f xs))"
  using assms
proof (induction xs)
  case (Cons a xs)
  have "distinct (concat (map f xs))"
    by (rule Cons.IH) (use Cons.prems in \<open>simp_all\<close>)
  moreover have "set (f a) \<inter> set (f y) = {}" if "y \<in> set xs" for y
    by (rule Cons.prems(3)) (use Cons.prems(1) that in auto)
  then have "set (f a) \<inter> set (concat (map f xs)) = {}" by auto
  ultimately show ?case using Cons.prems(2) [of a] by simp
qed simp

lemma edges_apart:
  assumes own: "nodes_owned G" and ap: "sites_apart G"
    and same: "CallSites H = CallSites G" "FunctionToReturnNodesMap H = FunctionToReturnNodesMap G"
  shows "distinct (concat (map (\<lambda>CS. pg_callEdges H CS @ pg_returnEdges H CS) (pg_sites H)))"
proof (rule distinct_concat_apart)
  note cn = ap [unfolded sites_apart_def, THEN conjunct1]
  note ld = ap [unfolded sites_apart_def, THEN conjunct2, THEN conjunct1]
  note nr = ap [unfolded sites_apart_def, THEN conjunct2, THEN conjunct2]
  have sub: "set (pg_sites H) \<subseteq> {CS \<in> set (CallSites G). HasLanding CS}"
    by (auto simp: pg_sites_def same)
  show "distinct (pg_sites H)"
    using cn by (simp add: pg_sites_def same distinct_map)
  have call: "\<And>CS e. e \<in> set (pg_callEdges H CS) \<Longrightarrow> fst e = CallNode CS"
    by (auto simp: pg_callEdges_def split: option.splits if_splits)
  have ret: "\<And>CS e. e \<in> set (pg_returnEdges H CS) \<Longrightarrow> fst e \<in> set (returnNodes G (Callee CS)) \<and> snd e = LandingNode CS"
    by (auto simp: pg_returnEdges_def same)
  have no: "fst e \<notin> set (returnNodes G F)" if "CS \<in> set (pg_sites H)" "e \<in> set (pg_callEdges H CS)" for CS e F
    using nr call [OF that(2)] that(1) sub by auto
  show "distinct (pg_callEdges H CS @ pg_returnEdges H CS)" if "CS \<in> set (pg_sites H)" for CS
  proof -
    have "distinct (pg_callEdges H CS)" by (auto simp: pg_callEdges_def split: option.splits)
    moreover have "distinct (pg_returnEdges H CS)"
      using own by (auto simp: pg_returnEdges_def same nodes_owned_def distinct_map inj_on_def)
    moreover have "set (pg_callEdges H CS) \<inter> set (pg_returnEdges H CS) = {}"
      using no [OF that] ret by blast
    ultimately show ?thesis by simp
  qed
  show "set (pg_callEdges H CS @ pg_returnEdges H CS) \<inter> set (pg_callEdges H DS @ pg_returnEdges H DS) = {}"
    if CS: "CS \<in> set (pg_sites H)" and DS: "DS \<in> set (pg_sites H)" and ne: "CS \<noteq> DS" for CS DS
  proof -
    have in': "CS \<in> set (CallSites G)" "HasLanding CS" "DS \<in> set (CallSites G)" "HasLanding DS"
      using CS DS sub by auto
    have "CallNode CS \<noteq> CallNode DS" using cn in' ne by (auto simp: distinct_map inj_on_def)
    then have cc: "set (pg_callEdges H CS) \<inter> set (pg_callEdges H DS) = {}" using call by force
    have land: "(Callee CS, LandingNode CS) \<noteq> (Callee DS, LandingNode DS)"
      using ld in' ne by (auto simp: distinct_map inj_on_def)
    have rr: "set (pg_returnEdges H CS) \<inter> set (pg_returnEdges H DS) = {}"
    proof (rule equals0I)
      fix e assume "e \<in> set (pg_returnEdges H CS) \<inter> set (pg_returnEdges H DS)"
      then have "fst e \<in> set (returnNodes G (Callee CS))" "fst e \<in> set (returnNodes G (Callee DS))"
        "LandingNode CS = LandingNode DS" using ret [of e CS] ret [of e DS] by simp_all
      then have "Callee CS = Callee DS" using own unfolding nodes_owned_def by (metis option.inject)
      then show False using land \<open>LandingNode CS = LandingNode DS\<close> by simp
    qed
    have "set (pg_callEdges H CS) \<inter> set (pg_returnEdges H DS) = {}"
      "set (pg_returnEdges H CS) \<inter> set (pg_callEdges H DS) = {}"
      using no CS DS ret by blast+
    then show ?thesis using cc rr by auto
  qed
qed

lemma finalize_ready:
  assumes inv: "module_inv Fs G" and en: "HasEntryNode G"
  shows "\<exists>G'. finalize env T RB G = Some G' \<and> pg_ready G' \<and> finalized G G'"
proof -
  have wf: "pg_wf G" and own: "nodes_owned G" and ap: "sites_apart G" and ea: "entry_apart G" and mp: "maps_ok G"
    using inv by (simp_all add: module_inv_def)
  have ent: "EntryNodeId G \<in> node_ids G" "map_of (NodeToFunctionMap G) (EntryNodeId G) = None"
    "preds G (EntryNodeId G) = {}" using ea en by (simp_all add: entry_apart_def)
  obtain G' where G': "finalize env T RB G = Some G'" "pg_wf G'" "node_ids G' = (flow G')\<^sup>* `` {EntryNodeId G}"
    "\<forall>a \<in> node_ids G'. a \<noteq> EntryNodeId G \<longrightarrow> preds G' a \<noteq> {}" "finalized G G'"
    using finalize_spec [OF wf module_inv_sites [OF inv] en ent(1)] by blast
  note fin = G'(5) [unfolded finalized_def]
  have same: "EntryNodeId G' = EntryNodeId G" "CallSites G' = CallSites G"
    "FunctionToReturnNodesMap G' = FunctionToReturnNodesMap G" "FunctionToEntryNodeMap G' = FunctionToEntryNodeMap G"
    using fin by simp_all
  have "targets G \<subseteq> dom (map_of (NodeToFunctionMap G))"
    using own by (fastforce simp: targets_def nodes_owned_def ran_def)
  then have "EntryNodeId G \<notin> targets G" using ent(2) by blast
  then have pe: "preds G' (EntryNodeId G) = {}" using fin ent(3) by blast
  have ee: "EntryNodeId G \<in> node_ids G'" using G'(3) by auto
  have named: "i = EntryNodeId G" if P: "node_at G' i = Some P" "nd_Name P = ''Entry'' \<or> Predecessors P = []" for i P
  proof (rule ccontr)
    assume ne: "i \<noteq> EntryNodeId G"
    have i: "i \<in> node_ids G'" using P by (simp add: node_ids_def)
    then have "preds G' i \<noteq> {}" using G'(4) ne by blast
    then have "nd_Name P = ''Entry''" using P by (auto simp: preds_def)
    moreover have "map_option nd_Name (node_at G' i) = map_option nd_Name (node_at G i)" using fin i by blast
    ultimately obtain N where "node_at G i = Some N" "nd_Name N = ''Entry''" using P(1) by (cases "node_at G i") auto
    then show False using ea ne unfolding entry_apart_def by blast
  qed
  have "pg_ready G'"
    unfolding pg_ready_def same(1)
    using G'(2) mp ee pe named edges_apart [OF own ap same(2,3)]
    by (simp add: maps_ok_def same)
  then show ?thesis using G' by blast
qed

subsection \<open>What filling in one function adds\<close>

text \<open>The blocks have the new nodes \<open>n, n + 1, \<dots>\<close>, \<open>m\<close> maps them; \<open>G'\<close> has what \<open>G\<close> has and the
  function's entry, returns and calls.\<close>

abbreviation nodeFun :: "ProgramGraph \<Rightarrow> nat \<rightharpoonup> ptr" where
  "nodeFun G \<equiv> map_of (NodeToFunctionMap G)"

definition newNodes :: "MachineFunction \<Rightarrow> nat \<Rightarrow> nat set" where
  "newNodes MF n = {n..<n + length (mf_blocks MF)}"

definition blocks_at :: "MachineFunction \<Rightarrow> nat \<Rightarrow> (ptr \<rightharpoonup> nat) \<Rightarrow> bool" where
  "blocks_at MF n m \<longleftrightarrow>
     (\<forall>B \<in> set (mf_blocks MF). m (mbb_id B) = Some (nodeFor m B) \<and> nodeFor m B \<in> newNodes MF n) \<and>
     inj_on (nodeFor m) (set (mf_blocks MF))"

definition fn_added ::
  "MachineFunction \<Rightarrow> nat \<Rightarrow> (ptr \<rightharpoonup> nat) \<Rightarrow> ProgramGraph \<Rightarrow> ProgramGraph \<Rightarrow> bool" where
  "fn_added MF n m G G' \<longleftrightarrow>
     blocks_at MF n m \<and> node_ids G \<union> newNodes MF n \<subseteq> node_ids G' \<and> newNodes MF n \<inter> node_ids G = {} \<and>
     (\<forall>j. nodeFun G' j = (if j \<in> newNodes MF n then Some (mf_function MF) else nodeFun G j)) \<and>
     map_of (FunctionToEntryNodeMap G') =
       (if mf_blocks MF = [] then map_of (FunctionToEntryNodeMap G)
        else (map_of (FunctionToEntryNodeMap G))(mf_function MF \<mapsto> nodeFor m (hd (mf_blocks MF)))) \<and>
     (maps_ok G \<longrightarrow> maps_ok G') \<and>
     CallSites G' = CallSites G @ concat (map (blockSites m) (mf_blocks MF)) \<and>
     ExternalSymbolCallSites G' = ExternalSymbolCallSites G @
       concat (map (\<lambda>B. map (Pair (nodeFor m B)) (blockSymbols B)) (mf_blocks MF)) \<and>
     (\<forall>H. returnNodes G' H = returnNodes G H @
        (if H = mf_function MF then map (nodeFor m) (filter mbb_isReturnBlock (mf_blocks MF)) else []))"

text \<open>The entry of the program: new with the start function, otherwise as before.\<close>

definition entry_added :: "bool \<Rightarrow> ProgramGraph \<Rightarrow> ProgramGraph \<Rightarrow> bool" where
  "entry_added e G G' \<longleftrightarrow>
     (if e then HasEntryNode G' \<and> EntryNodeId G' \<notin> node_ids G \<and> EntryNodeId G' \<in> node_ids G' \<and>
        nodeFun G' (EntryNodeId G') = nodeFun G (EntryNodeId G') \<and> preds G' (EntryNodeId G') = {}
      else HasEntryNode G' = HasEntryNode G \<and> EntryNodeId G' = EntryNodeId G) \<and>
     (\<forall>i \<in> node_ids G. preds G' i = preds G i) \<and>
     (\<forall>i N. node_at G' i = Some N \<and> nd_Name N = ''Entry'' \<longrightarrow>
        e \<and> i = EntryNodeId G' \<or> (\<exists>M. node_at G i = Some M \<and> nd_Name M = ''Entry''))"

definition start_added :: "bool \<Rightarrow> MachineFunction \<Rightarrow> (ptr \<rightharpoonup> nat) \<Rightarrow> ProgramGraph \<Rightarrow> ProgramGraph \<Rightarrow> bool" where
  "start_added e MF m G G' \<longleftrightarrow>
     StartFunction G' = (if e then Some (mf_function MF) else StartFunction G) \<and>
     (e \<longrightarrow> (mf_blocks MF \<noteq> [] \<longrightarrow> nodeFor m (hd (mf_blocks MF)) \<in> succs G' (EntryNodeId G')) \<and>
       (\<exists>Xt. map_option nd_Name (node_at G' Xt) = Some ''Exit'' \<and> Xt \<notin> node_ids G \<and>
          nodeFun G' Xt = nodeFun G Xt \<and>
          (\<forall>B \<in> set (mf_blocks MF). mbb_isReturnBlock B \<longrightarrow> Xt \<in> succs G' (nodeFor m B))))"

lemma filled_blocks_at:
  assumes "filled F Lat LB (mf_blocks MF) G Ret G'" "distinct (map mbb_id (mf_blocks MF))"
  shows "blocks_at MF (NextNodeId G) (map_of (MBBToNodeMap G'))"
proof -
  have at: "map_of (MBBToNodeMap G') (mbb_id (mf_blocks MF ! k)) = Some (NextNodeId G + k)"
    if "k < length (mf_blocks MF)" for k
    using assms(1) that by (simp add: filled_def Let_def)
  then have v: "nodeFor (map_of (MBBToNodeMap G')) (mf_blocks MF ! k) = NextNodeId G + k"
    if "k < length (mf_blocks MF)" for k
    using that by (simp add: nodeFor_def)
  show ?thesis
    unfolding blocks_at_def
  proof
    show "\<forall>B \<in> set (mf_blocks MF). map_of (MBBToNodeMap G') (mbb_id B) = Some (nodeFor (map_of (MBBToNodeMap G')) B) \<and>
        nodeFor (map_of (MBBToNodeMap G')) B \<in> newNodes MF (NextNodeId G)"
      by (auto simp: in_set_conv_nth at v newNodes_def)
    show "inj_on (nodeFor (map_of (MBBToNodeMap G'))) (set (mf_blocks MF))"
      by (rule inj_onI) (auto simp: in_set_conv_nth v)
  qed
qed

text \<open>The graph after the synthetic nodes.\<close>

lemma start_fields:
  assumes wf: "pg_wf G" and room: "NextNodeId G + 2 < 2 ^ 32"
    and s: "(if e then fillEntry F G else Some (0, 0, G)) = Some (En, Xt, G1)"
  shows "frame_entry G G1" "MBBToNodeMap G1 = MBBToNodeMap G" "preds G1 = preds G"
    "if e then HasEntryNode G1 \<and> EntryNodeId G1 = En \<and> En \<noteq> Xt \<and> preds G En = {}
     else HasEntryNode G1 = HasEntryNode G \<and> EntryNodeId G1 = EntryNodeId G"
    "node_at G1 i = Some N \<Longrightarrow> nd_Name N = ''Entry'' \<Longrightarrow> e \<and> i = En \<or> node_at G i = Some N"
    "StartFunction G1 = (if e then Some F else StartFunction G)"
    "e \<Longrightarrow> map_option nd_Name (node_at G1 Xt) = Some ''Exit''"
proof -
  note f = fillEntry_spec [OF wf room, of F]
  have "NextNodeId G \<notin> node_ids G" using pg_wf_ids_less [OF wf] by fastforce
  then have p: "preds G (NextNodeId G) = {}" by (simp add: preds_def node_ids_def)
  show "frame_entry G G1" "MBBToNodeMap G1 = MBBToNodeMap G" "preds G1 = preds G"
    using s f by (cases e; auto simp: frame_entry_def)+
  show "if e then HasEntryNode G1 \<and> EntryNodeId G1 = En \<and> En \<noteq> Xt \<and> preds G En = {}
     else HasEntryNode G1 = HasEntryNode G \<and> EntryNodeId G1 = EntryNodeId G"
    using s f p by (cases e) auto
  show "e \<and> i = En \<or> node_at G i = Some N" if "node_at G1 i = Some N" "nd_Name N = ''Entry''"
    using s f that by (cases e) (auto split: if_splits)
  show "StartFunction G1 = (if e then Some F else StartFunction G)"
    "e \<Longrightarrow> map_option nd_Name (node_at G1 Xt) = Some ''Exit''"
    using s f by (cases e; auto)+
qed

lemma grown_fields:
  assumes "grown G es bs G'"
  shows "NodeToFunctionMap G' = NodeToFunctionMap G" "FunctionToEntryNodeMap G' = FunctionToEntryNodeMap G"
    "FunctionToReturnNodesMap G' = FunctionToReturnNodesMap G" "CallSites G' = CallSites G"
    "ExternalSymbolCallSites G' = ExternalSymbolCallSites G" "HasEntryNode G' = HasEntryNode G"
    "EntryNodeId G' = EntryNodeId G" "MBBToNodeMap G' = MBBToNodeMap G" "NextNodeId G' = NextNodeId G"
    "StartFunction G' = StartFunction G"
  using frameD [OF grownD(2) [OF assms]] by simp_all

lemma setEntry_fields:
  "NodeToFunctionMap (setEntry MF G) = NodeToFunctionMap G" "MBBToNodeMap (setEntry MF G) = MBBToNodeMap G"
  "FunctionToReturnNodesMap (setEntry MF G) = FunctionToReturnNodesMap G"
  "CallSites (setEntry MF G) = CallSites G" "HasEntryNode (setEntry MF G) = HasEntryNode G"
  "ExternalSymbolCallSites (setEntry MF G) = ExternalSymbolCallSites G"
  "EntryNodeId (setEntry MF G) = EntryNodeId G" "NextNodeId (setEntry MF G) = NextNodeId G"
  "StartFunction (setEntry MF G) = StartFunction G"
  "FunctionToEntryNodeMap (setEntry MF G) = (if mf_blocks MF = [] then FunctionToEntryNodeMap G
     else omap_put (mf_function MF) (nodeOf G (mbb_id (hd (mf_blocks MF)))) (FunctionToEntryNodeMap G))"
  by (auto simp: setEntry_def split: list.splits)

lemma fill_added:
  assumes wf: "pg_wf G" and mf: "mf_wf MF" and ok: "calls_ok MF"
    and names: "\<forall>B \<in> set (mf_blocks MF). mbb_name B \<noteq> ''Entry''"
    and room: "NextNodeId G + length (mf_blocks MF) + 2 < 2 ^ 32"
  shows "\<exists>G' n m. fillGraphWithFunction MF e Lat LB MLI Irr G = Some G' \<and> pg_wf G' \<and>
    NextNodeId G' \<le> NextNodeId G + length (mf_blocks MF) + 2 \<and>
    fn_added MF n m G G' \<and> entry_added e G G' \<and> start_added e MF m G G' \<and> m = map_of (MBBToNodeMap G') \<and>
    (\<forall>b. b \<notin> mbb_id ` set (mf_blocks MF) \<longrightarrow> map_of (MBBToNodeMap G') b = map_of (MBBToNodeMap G) b)"
proof -
  let ?Bs = "mf_blocks MF" and ?F = "mf_function MF"
  have d: "distinct (map mbb_id ?Bs)" using mf by (simp add: mf_wf_def)
  obtain En Xt G1 Ret G2 G3 G4 G6 where
    s: "(if e then fillEntry ?F G else Some (0, 0, G)) = Some (En, Xt, G1)"
      "pg_wf G1" "NextNodeId G1 \<le> NextNodeId G + 2"
      "node_ids G1 = node_ids G \<union> (if e then {En, Xt} else {})"
      "e \<longrightarrow> En \<notin> node_ids G \<and> Xt \<notin> node_ids G"
      "succs G1 = succs G" "backs G1 = backs G" "\<forall>i \<in> node_ids G. node_at G1 i = node_at G i"
    and f: "filled ?F Lat LB ?Bs G1 Ret G2"
    and G3: "grown G2 (startEdges e (blockIds MF G1) Ret En Xt) {} G3"
    and G4: "grown G3 (nodeEdge G3 ` set (cfgEdges ?Bs))
       (nodeEdge G3 ` {x \<in> set (cfgEdges ?Bs). isBackEdge MLI Irr x}) G4"
    and G6: "fillCalls ?F ?Bs (setEntry MF G4) = Some G6" "frame_calls (setEntry MF G4) G6"
    and run: "fillGraphWithFunction MF e Lat LB MLI Irr G = Some G6"
    by (rule fill_stages [OF wf mf ok room])
  define n where "n = NextNodeId G1"
  define m where "m = map_of (MBBToNodeMap G2)"
  have r2: "NextNodeId G + 2 < 2 ^ 32" using room by simp
  note st = start_fields [OF wf r2 s(1)]
  note se = frame_entryD [OF st(1)]
  note ff = f [unfolded filled_def Let_def]
  have fr2: "frame_fill G1 G2" and wf2: "pg_wf G2" using ff by simp_all
  note F2 = frame_fillD [OF fr2] and F3 = grown_fields [OF G3] and F4 = grown_fields [OF G4]
  note F = filledD [OF f d s(2)]
  note fc = fillCalls_sites [OF G6(1), unfolded setEntry_fields F4 F3 F2 se]
  have nd: "node_at G6 = node_at G4" using frame_calls_graph(1) [OF G6(2)] setEntry_graph by simp
  have v: "nodeOf (setEntry MF G4) \<circ> mbb_id = nodeFor m"
    by (simp add: fun_eq_iff nodeOf_nodeFor setEntry_fields F4 F3 m_def)
  have bl: "blocks_at MF n m" unfolding n_def m_def by (rule filled_blocks_at [OF f d])
  have new: "newNodes MF n = set (blockIds MF G1)" by (simp add: newNodes_def blockIds_def n_def)
  have ids: "node_ids G6 = node_ids G2"
    using grownD(3) [OF G4] grownD(3) [OF G3] by (simp add: node_at_edges(4) [OF nd])
  have sub: "node_ids G1 \<subseteq> node_ids G2" "newNodes MF n \<subseteq> node_ids G2"
    using F(7,9) by (simp_all add: newNodes_def n_def)
  have fresh: "newNodes MF n \<inter> node_ids G1 = {}"
    using pg_wf_ids_less [OF s(2)] by (fastforce simp: newNodes_def n_def)
  have added: "fn_added MF n m G G6"
    unfolding fn_added_def
  proof (intro conjI allI)
    show "node_ids G \<union> newNodes MF n \<subseteq> node_ids G6" using sub s(4) ids by auto
    show "newNodes MF n \<inter> node_ids G = {}" using fresh s(4) by auto
    show "nodeFun G6 j = (if j \<in> newNodes MF n then Some ?F else nodeFun G j)" for j
      using ff fc by (simp add: newNodes_def n_def se(1) F3 F4 setEntry_fields)
    show "map_of (FunctionToEntryNodeMap G6) =
       (if ?Bs = [] then map_of (FunctionToEntryNodeMap G)
        else (map_of (FunctionToEntryNodeMap G))(?F \<mapsto> nodeFor m (hd ?Bs)))"
      using fc by (simp add: nodeOf_nodeFor m_def F4 F3)
    show "maps_ok G \<longrightarrow> maps_ok G6" using fc by (simp add: maps_ok_def)
    show "CallSites G6 = CallSites G @ concat (map (blockSites m) ?Bs)"
      using fc by (simp add: m_def)
    show "ExternalSymbolCallSites G6 = ExternalSymbolCallSites G @
       concat (map (\<lambda>B. map (Pair (nodeFor m B)) (blockSymbols B)) ?Bs)"
      using fc v by (simp add: fun_eq_iff)
    show "returnNodes G6 H = returnNodes G H @
        (if H = ?F then map (nodeFor m) (filter mbb_isReturnBlock ?Bs) else [])" for H
      using fc by (simp add: v)
  qed (rule bl)
  have es: "NextNodeId G6 = n + length ?Bs"
    using frame_callsD(2) [OF G6(2)] ff by (simp add: setEntry_fields F4 F3 n_def)
  have tgt: "b \<in> newNodes MF n \<union> (if e then {Xt} else {})"
    if "(a, b) \<in> startEdges e (blockIds MF G1) Ret En Xt \<union> nodeEdge G3 ` set (cfgEdges ?Bs)" for a b
  proof -
    have "nodeOf G3 c \<in> newNodes MF n" if "c \<in> mbb_id ` set ?Bs" for c
      using that bl by (auto simp: blocks_at_def nodeOf_nodeFor F3 m_def)
    then have "b \<in> newNodes MF n" if "(a, b) \<in> nodeEdge G3 ` set (cfgEdges ?Bs)"
      using that mf_edges_in [OF mf] by (force simp: nodeEdge_def)
    moreover have "b \<in> newNodes MF n \<union> (if e then {Xt} else {})" if "(a, b) \<in> startEdges e (blockIds MF G1) Ret En Xt"
      using that unfolding new by (auto simp: startEdges_def entryExitEdges_def split: if_splits)
    ultimately show ?thesis using that by blast
  qed
  have pr: "preds G6 j = preds G j" if "j \<notin> newNodes MF n" "e \<Longrightarrow> j \<noteq> Xt" for j
  proof -
    have wf3: "pg_wf G3" by (rule grownD(1) [OF G3])
    have "preds G2 = preds G1"
      using pg_wf_sym [OF wf2] pg_wf_sym [OF s(2)] F(4) by (simp add: fun_eq_iff set_eq_iff)
    then have p6: "preds G6 j = preds G j \<union>
        {a. (a, j) \<in> startEdges e (blockIds MF G1) Ret En Xt \<union> nodeEdge G3 ` set (cfgEdges ?Bs)}"
      using grown_preds [OF G4 wf3, of j] grown_preds [OF G3 wf2, of j] st(3)
      by (auto simp: node_at_edges(2) [OF nd])
    have "j \<notin> newNodes MF n \<union> (if e then {Xt} else {})" using that by simp
    then have "{a. (a, j) \<in> startEdges e (blockIds MF G1) Ret En Xt \<union> nodeEdge G3 ` set (cfgEdges ?Bs)} = {}"
      using tgt by blast
    then show ?thesis using p6 by simp
  qed
  have hd: "HasEntryNode G6 = HasEntryNode G1" "EntryNodeId G6 = EntryNodeId G1" using fc by simp_all
  have "entry_added e G G6"
    unfolding entry_added_def
  proof (intro conjI ballI allI impI)
    show "if e then HasEntryNode G6 \<and> EntryNodeId G6 \<notin> node_ids G \<and> EntryNodeId G6 \<in> node_ids G6 \<and>
        nodeFun G6 (EntryNodeId G6) = nodeFun G (EntryNodeId G6) \<and> preds G6 (EntryNodeId G6) = {}
      else HasEntryNode G6 = HasEntryNode G \<and> EntryNodeId G6 = EntryNodeId G"
    proof (cases e)
      case True
      then have en: "EntryNodeId G6 = En" "En \<in> node_ids G1" "En \<noteq> Xt" "preds G En = {}" "HasEntryNode G1"
        using st(4) s(4) hd by auto
      then have nn: "En \<notin> newNodes MF n" using fresh by blast
      then have "nodeFun G6 En = nodeFun G En" using added by (simp add: fn_added_def)
      moreover have "preds G6 En = {}" using pr [OF nn] en by auto
      ultimately show ?thesis using True en s(5) sub ids hd by auto
    next
      case False
      then show ?thesis using st(4) hd by simp
    qed
    show "preds G6 i = preds G i" if "i \<in> node_ids G" for i
      using that s(4,5) fresh by (intro pr) auto
    show "e \<and> i = EntryNodeId G6 \<or> (\<exists>M. node_at G i = Some M \<and> nd_Name M = ''Entry'')"
      if N: "node_at G6 i = Some N \<and> nd_Name N = ''Entry''" for i N
    proof -
      have "map_option node_body (node_at G6 i) = map_option node_body (node_at G2 i)"
        using G3 G4 by (simp add: grown_def nd)
      then have "map_option nd_Name (node_at G2 i) = Some ''Entry''" using same_names [of G6 i G2] N by simp
      then obtain M where M: "node_at G2 i = Some M" "nd_Name M = ''Entry''" by auto
      have "i \<notin> newNodes MF n"
      proof
        assume i: "i \<in> newNodes MF n"
        then have "node_at G2 i = Some (bodyNode Lat LB i (?Bs ! (i - n)))" "?Bs ! (i - n) \<in> set ?Bs"
          using ff by (auto simp: newNodes_def n_def)
        moreover have "nd_Name (bodyNode Lat LB i B) = mbb_name B" for B
          by (simp add: bodyNode_def newNode_def Let_def split: option.splits)
        ultimately show False using M names by auto
      qed
      then have "node_at G1 i = Some M" using ff M(1) by (auto simp: newNodes_def n_def)
      then show ?thesis using st(4,5) M(2) hd by (auto split: if_splits)
    qed
  qed
  moreover have "pg_wf G6" using frame_calls_graph(5) [OF G6(2)] grownD(1) [OF G4] by (simp add: setEntry_graph)
  moreover have "NextNodeId G6 \<le> NextNodeId G + length ?Bs + 2" using es s(3) by (simp add: n_def)
  moreover have "m = map_of (MBBToNodeMap G6)" using fc by (simp add: m_def)
  moreover have "start_added e MF m G G6"
    unfolding start_added_def
  proof (intro conjI impI)
    show "StartFunction G6 = (if e then Some ?F else StartFunction G)" using fc st(6) by simp
  next
    assume e: e
    have ext: "succs G6 i \<supseteq> {j. (i, j) \<in> startEdges e (blockIds MF G1) Ret En Xt}" for i
      using G3 G4 by (auto simp: node_at_edges(1) [OF nd] grown_def)
    have pos: "nodeFor m (?Bs ! k) = n + k" if "k < length ?Bs" for k
      using ff that by (simp add: nodeFor_def m_def n_def)
    show "nodeFor m (hd ?Bs) \<in> succs G6 (EntryNodeId G6)" if "?Bs \<noteq> []"
    proof -
      have "nodeFor m (hd ?Bs) = hd (blockIds MF G1)" "blockIds MF G1 \<noteq> []"
        using that pos [of 0] by (simp_all add: hd_conv_nth blockIds_def n_def)
      then have "(En, nodeFor m (hd ?Bs)) \<in> startEdges e (blockIds MF G1) Ret En Xt"
        using e by (simp add: startEdges_def entryExitEdges_def)
      then show ?thesis using ext st(4) hd e by auto
    qed
    have "map_option node_body (node_at G6 Xt) = map_option node_body (node_at G2 Xt)"
      using G3 G4 by (simp add: grown_def nd)
    then have "map_option nd_Name (node_at G6 Xt) = map_option nd_Name (node_at G2 Xt)" by (rule same_names)
    also have "\<dots> = Some ''Exit''"
      using F(6) s(4) st(7) e by simp
    finally have x: "map_option nd_Name (node_at G6 Xt) = Some ''Exit''" .
    have "Xt \<in> succs G6 (nodeFor m B)" if B: "B \<in> set ?Bs" "mbb_isReturnBlock B" for B
    proof -
      obtain k where k: "k < length ?Bs" "B = ?Bs ! k" using B(1) by (metis in_set_conv_nth)
      then have "nodeFor m B \<in> set Ret" using ff B(2) pos by (auto simp: n_def)
      then have "(nodeFor m B, Xt) \<in> startEdges e (blockIds MF G1) Ret En Xt"
        using e by (simp add: startEdges_def entryExitEdges_def)
      then show ?thesis using ext by auto
    qed
    moreover have "Xt \<notin> newNodes MF n" "Xt \<notin> node_ids G" using fresh s(4,5) e by auto
    then have "Xt \<notin> node_ids G" "nodeFun G6 Xt = nodeFun G Xt" using added by (simp_all add: fn_added_def)
    ultimately show "\<exists>Xt. map_option nd_Name (node_at G6 Xt) = Some ''Exit'' \<and> Xt \<notin> node_ids G \<and>
        nodeFun G6 Xt = nodeFun G Xt \<and>
        (\<forall>B \<in> set ?Bs. mbb_isReturnBlock B \<longrightarrow> Xt \<in> succs G6 (nodeFor m B))" using x by blast
  qed
  moreover have "\<forall>b. b \<notin> mbb_id ` set ?Bs \<longrightarrow> map_of (MBBToNodeMap G6) b = map_of (MBBToNodeMap G) b"
    using fc ff st(2) by simp
  ultimately show ?thesis using run added by blast
qed

lemma blockSites_fields:
  "CS \<in> set (blockSites m B) \<Longrightarrow> CallNode CS = nodeFor m B \<and> Callee CS \<in> set (blockCalls B) \<and>
     (HasLanding CS \<longrightarrow> (\<exists>L. landingBlock B = Some L \<and> m L = Some (LandingNode CS)))"
  by (auto simp: blockSites_def siteOf_def nodeFor_def Let_def split: option.splits)

lemma new_callNodes:
  assumes "fn_shape MF" "blocks_at MF n m"
  shows "distinct (map CallNode (concat (map (blockSites m) (mf_blocks MF))))"
proof -
  have d: "distinct (mf_blocks MF)" using assms(1) by (simp add: fn_shape_def mf_wf_def distinct_map)
  have "distinct (concat (map (\<lambda>B. map CallNode (blockSites m B)) (mf_blocks MF)))"
  proof (rule distinct_concat_apart [OF d])
    show "distinct (map CallNode (blockSites m B))" if "B \<in> set (mf_blocks MF)" for B
      using one_block_call [OF assms(1) that] by (auto simp: blockSites_def)
    show "set (map CallNode (blockSites m B)) \<inter> set (map CallNode (blockSites m C)) = {}"
      if "B \<in> set (mf_blocks MF)" "C \<in> set (mf_blocks MF)" "B \<noteq> C" for B C
      using assms(2) that by (auto simp: blocks_at_def inj_on_def dest!: blockSites_fields)
  qed
  then show ?thesis by (simp add: map_concat comp_def)
qed

lemma new_landings:
  assumes "fn_shape MF" "blocks_at MF n m"
  shows "distinct (map (\<lambda>CS. (Callee CS, LandingNode CS))
    (filter HasLanding (concat (map (blockSites m) (mf_blocks MF)))))"
proof -
  let ?v = "\<lambda>L. case m L of Some k \<Rightarrow> k | None \<Rightarrow> 0"
  have in': "\<exists>C \<in> set (mf_blocks MF). L = mbb_id C \<and> m L = Some (nodeFor m C)"
    if "B \<in> set (mf_blocks MF)" "landingBlock B = Some L" for B L
    using landing_in [OF assms(1) that] assms(2) by (auto simp: blocks_at_def)
  have one: "map (\<lambda>CS. (Callee CS, LandingNode CS)) (filter HasLanding (blockSites m B)) =
      map (map_prod id ?v) (case landingBlock B of Some L \<Rightarrow> map (\<lambda>F. (F, L)) (blockCalls B) | None \<Rightarrow> [])"
    if B: "B \<in> set (mf_blocks MF)" for B
  proof (cases "landingBlock B")
    case None
    then have "filter HasLanding (blockSites m B) = []" by (auto simp: blockSites_def siteOf_def filter_empty_conv)
    then show ?thesis using None by simp
  next
    case (Some L)
    then obtain k where "m L = Some k" using in' [OF B] by blast
    then have "siteOf m B F = \<lparr>CallNode = nodeFor m B, Callee = F, LandingNode = k, HasLanding = True\<rparr>" for F
      by (simp add: siteOf_def Some nodeFor_def)
    then show ?thesis using Some \<open>m L = Some k\<close> by (simp add: blockSites_def comp_def filter_map)
  qed
  have "map (\<lambda>CS. (Callee CS, LandingNode CS)) (filter HasLanding (concat (map (blockSites m) Bs))) =
      map (map_prod id ?v) (concat (map (\<lambda>B. case landingBlock B of Some L \<Rightarrow> map (\<lambda>F. (F, L)) (blockCalls B) | None \<Rightarrow> []) Bs))"
    if "set Bs \<subseteq> set (mf_blocks MF)" for Bs
    using that by (induction Bs) (simp_all add: one)
  then have eq: "map (\<lambda>CS. (Callee CS, LandingNode CS)) (filter HasLanding (concat (map (blockSites m) (mf_blocks MF)))) =
      map (map_prod id ?v) (callLandings MF)"
    by (simp add: callLandings_def)
  have snds: "\<exists>C \<in> set (mf_blocks MF). snd p = mbb_id C \<and> m (snd p) = Some (nodeFor m C)"
    if "p \<in> set (callLandings MF)" for p
    using that in' by (auto simp: callLandings_def split: option.splits)
  have "inj_on (map_prod id ?v) (set (callLandings MF))"
  proof (rule inj_onI)
    fix p q assume pq: "p \<in> set (callLandings MF)" "q \<in> set (callLandings MF)" "map_prod id ?v p = map_prod id ?v q"
    obtain C where C: "C \<in> set (mf_blocks MF)" "snd p = mbb_id C" "m (snd p) = Some (nodeFor m C)" using snds [OF pq(1)] by blast
    obtain D where D: "D \<in> set (mf_blocks MF)" "snd q = mbb_id D" "m (snd q) = Some (nodeFor m D)" using snds [OF pq(2)] by blast
    have "nodeFor m C = nodeFor m D" using pq(3) C(3) D(3) by (cases p; cases q) simp
    then have "C = D" using assms(2) C(1) D(1) by (auto simp: blocks_at_def inj_on_def)
    then show "p = q" using pq(3) C(2) D(2) by (cases p; cases q) simp
  qed
  moreover have "distinct (callLandings MF)" using assms(1) by (simp add: fn_shape_def)
  ultimately show ?thesis unfolding eq by (simp add: distinct_map)
qed

lemma added_owned:
  assumes inv: "module_inv Fs G" and sh: "fn_shape MF" and F: "mf_function MF \<notin> Fs"
    and ad: "fn_added MF n m G G'"
  shows "nodes_owned G'" "ran (nodeFun G') \<subseteq> insert (mf_function MF) Fs" "returnNodes G (mf_function MF) = []"
proof -
  let ?F = "mf_function MF" and ?Bs = "mf_blocks MF" and ?N = "newNodes MF n"
  note a = ad [unfolded fn_added_def]
  note o = inv [unfolded module_inv_def nodes_owned_def]
  have bl: "\<And>B. B \<in> set ?Bs \<Longrightarrow> m (mbb_id B) = Some (nodeFor m B) \<and> nodeFor m B \<in> ?N"
    and inj: "inj_on (nodeFor m) (set ?Bs)" using a by (simp_all add: blocks_at_def)
  have nf: "nodeFun G' j = (if j \<in> ?N then Some ?F else nodeFun G j)" for j using a by simp
  have new: "j \<in> ?N \<Longrightarrow> nodeFun G' j = Some ?F" for j by (simp add: nf)
  have old: "nodeFun G j = Some H \<Longrightarrow> nodeFun G' j = Some H" for j H
    using a o by (subst nf) (auto simp: dom_def)
  show "ran (nodeFun G') \<subseteq> insert ?F Fs"
    using o by (auto simp: ran_def nf split: if_splits)
  have rF: "k \<notin> set (returnNodes G ?F)" for k
  proof
    assume "k \<in> set (returnNodes G ?F)"
    then have "nodeFun G k = Some ?F" using o by blast
    then have "?F \<in> ran (nodeFun G)" by (rule ranI)
    then show False using o F by blast
  qed
  then show rN: "returnNodes G ?F = []" using list.set_sel(1) by blast
  have d: "distinct ?Bs" using sh by (simp add: fn_shape_def mf_wf_def distinct_map)
  have ret: "returnNodes G' H = (if H = ?F then map (nodeFor m) (filter mbb_isReturnBlock ?Bs) else returnNodes G H)" for H
    using a rN by simp
  show "nodes_owned G'"
    unfolding nodes_owned_def
  proof (intro conjI allI ballI impI)
    show "dom (nodeFun G') \<subseteq> node_ids G'"
    proof
      fix j assume j: "j \<in> dom (nodeFun G')"
      have "dom (nodeFun G) \<subseteq> node_ids G'" "?N \<subseteq> node_ids G'" using a o by auto
      moreover have "j \<in> ?N \<or> j \<in> dom (nodeFun G)" using j nf [of j] by (auto simp: dom_def split: if_splits)
      ultimately show "j \<in> node_ids G'" by blast
    qed
    show "nodeFun G' k = Some H" if "map_of (FunctionToEntryNodeMap G') H = Some k" for H k
    proof (cases "?Bs = [] \<or> H \<noteq> ?F")
      case True
      then have "map_of (FunctionToEntryNodeMap G) H = Some k" using a that by (auto split: if_splits)
      then show ?thesis using o old by blast
    next
      case False
      then show ?thesis using a that new bl [of "hd ?Bs"] by auto
    qed
    show "distinct (returnNodes G' H)" for H
      using o d inj by (auto simp: ret distinct_map inj_on_def)
    show "nodeFun G' k = Some H" if "k \<in> set (returnNodes G' H)" for H k
      using that o bl new old by (auto simp: ret split: if_splits)
    fix CS assume "CS \<in> set (CallSites G')"
    then consider "CS \<in> set (CallSites G)" | B where "B \<in> set ?Bs" "CS \<in> set (blockSites m B)" using a by auto
    note cs = this
    show "CallNode CS \<in> dom (nodeFun G')"
      using cs by cases (use o old in blast, use bl new blockSites_fields in fastforce)
    show "LandingNode CS \<in> dom (nodeFun G')" if h: "HasLanding CS"
      using cs
    proof cases
      case 1
      then show ?thesis using o old h by blast
    next
      case (2 B)
      then obtain L where L: "landingBlock B = Some L" "m L = Some (LandingNode CS)" using blockSites_fields h by blast
      then obtain C where "C \<in> set ?Bs" "L = mbb_id C" using landing_in [OF sh 2(1)] by blast
      then show ?thesis using L bl new by force
    qed
  next
    fix p assume "p \<in> set (ExternalSymbolCallSites G')"
    then consider "p \<in> set (ExternalSymbolCallSites G)" | B where "B \<in> set ?Bs" "fst p = nodeFor m B" using a by auto
    then show "fst p \<in> dom (nodeFun G')"
      by cases (use o old in blast, use bl new in force)
  qed
qed

lemma added_apart:
  assumes inv: "module_inv Fs G" and sh: "fn_shape MF" and F: "mf_function MF \<notin> Fs"
    and ad: "fn_added MF n m G G'"
  shows "sites_apart G'"
proof -
  let ?F = "mf_function MF" and ?Bs = "mf_blocks MF" and ?N = "newNodes MF n"
  let ?new = "concat (map (blockSites m) ?Bs)" and ?p = "\<lambda>CS. (Callee CS, LandingNode CS)"
  note a = ad [unfolded fn_added_def]
  note o = inv [unfolded module_inv_def nodes_owned_def]
  note ap = inv [unfolded module_inv_def sites_apart_def]
  have bl: "\<And>B. B \<in> set ?Bs \<Longrightarrow> m (mbb_id B) = Some (nodeFor m B) \<and> nodeFor m B \<in> ?N"
    and at: "blocks_at MF n m" and inj: "inj_on (nodeFor m) (set ?Bs)" using a by (simp_all add: blocks_at_def)
  have dis: "?N \<inter> dom (nodeFun G) = {}" using a o by blast
  have newC: "CallNode CS \<in> ?N \<and> (HasLanding CS \<longrightarrow> LandingNode CS \<in> ?N)" if in_new: "CS \<in> set ?new" for CS
  proof -
    obtain B where B: "B \<in> set ?Bs" "CS \<in> set (blockSites m B)" using in_new by auto
    note f = blockSites_fields [OF B(2)]
    have "LandingNode CS \<in> ?N" if h: "HasLanding CS"
    proof -
      obtain L where L: "landingBlock B = Some L" "m L = Some (LandingNode CS)" using f h by blast
      then obtain C where "C \<in> set ?Bs" "L = mbb_id C" using landing_in [OF sh B(1)] by blast
      then show ?thesis using L bl by force
    qed
    then show ?thesis using f bl [OF B(1)] by simp
  qed
  have oldC: "CallNode CS \<in> dom (nodeFun G) \<and> (HasLanding CS \<longrightarrow> LandingNode CS \<in> dom (nodeFun G))"
    if "CS \<in> set (CallSites G)" for CS
    using o that by blast
  have cs: "CallSites G' = CallSites G @ ?new" using a by simp
  have ret: "returnNodes G' H = (if H = ?F then map (nodeFor m) (filter mbb_isReturnBlock ?Bs) else returnNodes G H)" for H
    using a added_owned(3) [OF assms] by simp
  have rdom: "set (returnNodes G H) \<subseteq> dom (nodeFun G)" for H using o by blast
  show ?thesis
    unfolding sites_apart_def
  proof (intro conjI ballI allI)
    have "CallNode CS \<noteq> CallNode DS" if "CS \<in> set (CallSites G)" "DS \<in> set ?new" for CS DS
      using newC [OF that(2)] oldC [OF that(1)] dis by (metis disjoint_iff)
    then have "set (map CallNode (CallSites G)) \<inter> set (map CallNode ?new) = {}" by fastforce
    then show "distinct (map CallNode (CallSites G'))"
      using ap new_callNodes [OF sh at] by (simp only: cs map_append distinct_append simp_thms)
    have "?p CS \<noteq> ?p DS" if CS: "CS \<in> set (filter HasLanding (CallSites G))" and DS: "DS \<in> set (filter HasLanding ?new)" for CS DS
    proof -
      have "LandingNode CS \<in> dom (nodeFun G)" using oldC [of CS] CS by simp
      moreover have "DS \<in> set ?new" "HasLanding DS" using DS by (simp_all only: set_filter mem_Collect_eq)
      then have "LandingNode DS \<in> ?N" using newC by blast
      ultimately show ?thesis using dis by (metis disjoint_iff prod.inject)
    qed
    then have "set (map ?p (filter HasLanding (CallSites G))) \<inter> set (map ?p (filter HasLanding ?new)) = {}"
      by (simp only: set_map) fastforce
    then show "distinct (map ?p (filter HasLanding (CallSites G')))"
      using ap new_landings [OF sh at] by (simp only: cs filter_append map_append distinct_append simp_thms)
  next
    fix CS H assume "CS \<in> set (CallSites G')"
    then consider (old) "CS \<in> set (CallSites G)" | (new) "CS \<in> set ?new" using cs by auto
    then show "CallNode CS \<notin> set (returnNodes G' H)"
    proof cases
      case old
      then have "CallNode CS \<notin> ?N" using oldC dis by blast
      then show ?thesis using ap old bl by (auto simp: ret)
    next
      case new
      then have "CallNode CS \<notin> set (returnNodes G H)" using newC rdom dis by blast
      moreover obtain B where B: "B \<in> set ?Bs" "CS \<in> set (blockSites m B)" using new by auto
      have "\<not> mbb_isReturnBlock B"
        using sh B blockSites_fields [OF B(2)] by (auto simp: fn_shape_def)
      then have "CallNode CS \<notin> nodeFor m ` {C \<in> set ?Bs. mbb_isReturnBlock C}"
        using blockSites_fields [OF B(2)] inj B(1) by (auto simp: inj_on_def)
      ultimately show ?thesis by (simp add: ret)
    qed
  qed
qed

lemma added_entry:
  assumes inv: "module_inv Fs G" and wf': "pg_wf G'" and ad: "fn_added MF n m G G'" and en: "entry_added e G G'"
    and e: "e \<Longrightarrow> \<not> HasEntryNode G"
  shows "entry_apart G'" "HasEntryNode G' \<longleftrightarrow> e \<or> HasEntryNode G"
proof -
  note a = ad [unfolded fn_added_def] and en' = en [unfolded entry_added_def]
  note o = inv [unfolded module_inv_def nodes_owned_def] and ap = inv [unfolded module_inv_def entry_apart_def]
  show h: "HasEntryNode G' \<longleftrightarrow> e \<or> HasEntryNode G" using en' by (cases e) simp_all
  show "entry_apart G'"
    unfolding entry_apart_def
  proof (intro conjI allI impI)
    fix i N assume N: "node_at G' i = Some N \<and> nd_Name N = ''Entry''"
    then consider "e \<and> i = EntryNodeId G'" | M where "node_at G i = Some M" "nd_Name M = ''Entry''"
      using en' by blast
    then have "(e \<or> HasEntryNode G) \<and> i = EntryNodeId G'"
    proof cases
      case 2
      then have "HasEntryNode G" "i = EntryNodeId G" using ap by blast+
      moreover have "\<not> e" using e \<open>HasEntryNode G\<close> by blast
      ultimately show ?thesis using en' by simp
    qed simp
    then show "HasEntryNode G'" "i = EntryNodeId G'" using h by simp_all
  next
    assume "HasEntryNode G'"
    have *: "EntryNodeId G' \<in> node_ids G' \<and> nodeFun G' (EntryNodeId G') = None \<and> preds G' (EntryNodeId G') = {}"
    proof (cases e)
      case True
      then have new: "EntryNodeId G' \<notin> node_ids G" "EntryNodeId G' \<in> node_ids G'" "preds G' (EntryNodeId G') = {}"
        "nodeFun G' (EntryNodeId G') = nodeFun G (EntryNodeId G')" using en' by simp_all
      then have "nodeFun G (EntryNodeId G') = None" using o by blast
      then show ?thesis using new by simp
    next
      case False
      then have h: "HasEntryNode G" "EntryNodeId G' = EntryNodeId G" using \<open>HasEntryNode G'\<close> en' by simp_all
      then have g: "EntryNodeId G \<in> node_ids G" "nodeFun G (EntryNodeId G) = None" "preds G (EntryNodeId G) = {}"
        using ap by simp_all
      then have "EntryNodeId G \<notin> newNodes MF n" using a by blast
      then show ?thesis using g a en' h by auto
    qed
    then show "EntryNodeId G' \<in> node_ids G'" "nodeFun G' (EntryNodeId G') = None" "preds G' (EntryNodeId G') = {}"
      by simp_all
  qed
qed

end
