(* ===== verification/FinalizeCost.thy ===== *)
theory FinalizeCost
  imports FinalizeProps
begin

text \<open>
  What finalisation adds to a filled graph, exactly: every call of a function of the graph gets its
  call edge and its return edges, a call of a function without a body adds the target's cost to
  its block, a call by symbol the cost of the symbol; no other cost changes, and what stays after
  pruning keeps its edges and its cost.
\<close>

subsection \<open>Costs and edges\<close>

definition cycles :: "ProgramGraph \<Rightarrow> nat \<Rightarrow> u32 option" where
  "cycles G i = map_option (\<lambda>N. MaxCycles (nd_State N)) (node_at G i)"

lemma same_cycles:
  "map_option node_body (node_at G' a) = map_option node_body (node_at G a) \<Longrightarrow> cycles G' a = cycles G a"
  "map_option node_core (node_at G' a) = map_option node_core (node_at G a) \<Longrightarrow> cycles G' a = cycles G a"
proof -
  have b: "MaxCycles (nd_State N) = MaxCycles (nd_State (node_body N))" for N by (simp add: node_body_def)
  have "cycles H a = map_option (\<lambda>N. MaxCycles (nd_State N)) (map_option node_body (node_at H a))" for H
    by (simp add: cycles_def option.map_comp comp_def b [symmetric])
  then show body: "cycles G' a = cycles G a"
    if "map_option node_body (node_at G' a) = map_option node_body (node_at G a)"
    using that by metis
  show "cycles G' a = cycles G a"
    if "map_option node_core (node_at G' a) = map_option node_core (node_at G a)"
    by (rule body [OF core_body(1) [OF that]])
qed

text \<open>Edges only get more, everything but the nodes stays.\<close>

definition adds :: "ProgramGraph \<Rightarrow> ProgramGraph \<Rightarrow> bool" where
  "adds G G' \<longleftrightarrow> frame G G' \<and> (\<forall>i. succs G i \<subseteq> succs G' i)"

lemma adds_refl: "adds G G"
  by (simp add: adds_def)

lemma adds_trans: "adds G G1 \<Longrightarrow> adds G1 G2 \<Longrightarrow> adds G G2"
  unfolding adds_def by (blast intro: frame_trans)

lemma addEdge_adds:
  assumes "addEdge a b G = Some G'"
  shows "adds G G'" "b \<in> succs G' a" "cycles G' i = cycles G i"
  using addEdge_frame [OF assms] addEdge_edges(1) [OF assms] by (simp_all add: adds_def subset_insertI)
    (rule same_cycles(2) [OF addEdge_edges(4) [OF assms]])

lemma modNode_adds:
  assumes "modNode j f G = Some G'" "edge_neutral f"
  shows "adds G G'"
  using modNode_frame [OF assms(1)] edge_neutral_edges [OF assms] by (simp add: adds_def)

lemma markHeader_cycles:
  "modNode j (markHeader b s) G = Some G' \<Longrightarrow> cycles G' i = cycles G i"
  by (auto simp: cycles_def node_at_modNode option.map_comp comp_def markHeader_def)

lemma wireReturns_adds:
  "wireReturns Rs x G = Some G' \<Longrightarrow> adds G G' \<and> (\<forall>R \<in> set Rs. x \<in> succs G' R) \<and> (\<forall>i. cycles G' i = cycles G i)"
proof (induction Rs arbitrary: G)
  case Nil
  then show ?case by (simp add: adds_refl)
next
  case (Cons R Rs)
  then obtain G1 where G1: "addEdge R x G = Some G1" "wireReturns Rs x G1 = Some G'"
    by (auto simp: bind_eq_Some_conv)
  note a = addEdge_adds [OF G1(1)] and i = Cons.IH [OF G1(2)]
  have "x \<in> succs G' R" using a(2) i by (auto simp: adds_def)
  then show ?case using a i adds_trans by auto
qed

subsection \<open>What a call costs\<close>

definition extCharge :: "ExternalCost \<Rightarrow> string \<Rightarrow> u32" where
  "extCharge T nm = (case Option.bind T (\<lambda>cost. cost nm) of Some c \<Rightarrow> c | None \<Rightarrow> 0)"

definition calleeCharge :: "FunctionInfo \<Rightarrow> ExternalCost \<Rightarrow> ProgramGraph \<Rightarrow> ptr \<Rightarrow> u32" where
  "calleeCharge env T G F =
     (if StartFunction G = Some F \<or> map_of (FunctionToEntryNodeMap G) F \<noteq> None \<or> \<not> fn_isDeclaration env F then 0
      else extCharge T (fn_name env F))"

lemma calleeCharge_frame: "frame G G' \<Longrightarrow> calleeCharge env T G' = calleeCharge env T G"
  by (simp add: fun_eq_iff calleeCharge_def frameD [of G G'])

definition chargeAt :: "nat \<Rightarrow> u32 \<Rightarrow> nat \<Rightarrow> u32" where
  "chargeAt s c i = (if s = i then c else 0)"

lemma chargeOrStage_cycles:
  assumes "chargeOrStage T s nm st = Some st'"
  shows "adds (fst st) (fst st')"
    "cycles (fst st') i = map_option (\<lambda>c. c + chargeAt s (extCharge T nm) i) (cycles (fst st) i)"
proof -
  have ad: "edge_neutral (addCycles c)" for c by (rule neutral_marks)
  show "adds (fst st) (fst st')"
    using assms adds_refl modNode_adds [OF _ ad] by (auto simp: chargeOrStage_def split: option.splits)
  show "cycles (fst st') i = map_option (\<lambda>c. c + chargeAt s (extCharge T nm) i) (cycles (fst st) i)"
  proof (cases "Option.bind T (\<lambda>cost. cost nm)")
    case None
    then show ?thesis
      using assms by (auto simp: chargeOrStage_def extCharge_def chargeAt_def option.map_ident)
  next
    case (Some c)
    then obtain G' where "modNode s (addCycles c) (fst st) = Some G'" "fst st' = G'"
      using assms by (auto simp: chargeOrStage_def)
    then show ?thesis
      using Some by (auto simp: cycles_def node_at_modNode extCharge_def chargeAt_def option.map_comp
          comp_def addCycles_def option.map_ident)
  qed
qed

text \<open>The edges a call site asks for.\<close>

definition wired :: "ProgramGraph \<Rightarrow> ProgramGraph \<Rightarrow> CallSite \<Rightarrow> bool" where
  "wired G H CS \<longleftrightarrow>
     (\<forall>n. StartFunction G \<noteq> Some (Callee CS) \<and> map_of (FunctionToEntryNodeMap G) (Callee CS) = Some n \<longrightarrow>
        n \<in> succs H (CallNode CS) \<and>
        (HasLanding CS \<longrightarrow> (\<forall>R \<in> set (omap_get [] (FunctionToReturnNodesMap G) (Callee CS)). LandingNode CS \<in> succs H R)))"

lemma wired_adds: "wired G H CS \<Longrightarrow> adds H K \<Longrightarrow> wired G K CS"
  by (auto simp: wired_def adds_def)

lemma wired_frame: "frame G G' \<Longrightarrow> wired G' H CS = wired G H CS"
  by (simp add: wired_def frameD [of G G'])

lemma wireCall_effect:
  assumes "wireCall env T RB CS ws = Some ws'"
  shows "adds (ws_G ws) (ws_G ws')" "wired (ws_G ws) (ws_G ws') CS"
    "cycles (ws_G ws') i =
       map_option (\<lambda>c. c + chargeAt (CallNode CS) (calleeCharge env T (ws_G ws) (Callee CS)) i) (cycles (ws_G ws) i)"
proof -
  let ?G = "ws_G ws" and ?F = "Callee CS"
  let ?c = "chargeAt (CallNode CS) (calleeCharge env T ?G ?F) i"
  have "adds ?G (ws_G ws') \<and> wired ?G (ws_G ws') CS \<and> cycles (ws_G ws') i = map_option (\<lambda>c. c + ?c) (cycles ?G i)"
  proof -
    consider (start) "StartFunction ?G = Some ?F"
      | (ext) "StartFunction ?G \<noteq> Some ?F" "map_of (FunctionToEntryNodeMap ?G) ?F = None"
      | (def) n where "StartFunction ?G \<noteq> Some ?F" "map_of (FunctionToEntryNodeMap ?G) ?F = Some n" by fastforce
    then show ?thesis
    proof cases
      case start
      then show ?thesis
        using assms by (simp add: wireCall_def wired_def adds_refl calleeCharge_def chargeAt_def option.map_ident)
    next
      case ext
      show ?thesis
      proof (cases "fn_isDeclaration env ?F")
        case True
        then obtain st where st: "chargeOrStage T (CallNode CS) (fn_name env ?F) (?G, ws_Pending ws) = Some st"
          "ws_G ws' = fst st" using ext assms by (auto simp: wireCall_def Let_def bind_eq_Some_conv)
        then show ?thesis
          using chargeOrStage_cycles [OF st(1)] ext True by (simp add: wired_def calleeCharge_def)
      next
        case False
        then show ?thesis
          using ext assms by (simp add: wireCall_def wired_def adds_refl calleeCharge_def chargeAt_def option.map_ident)
      qed
    next
      case def
      let ?R = "omap_get [] (FunctionToReturnNodesMap ?G) ?F"
      obtain G1 where G1: "addEdge (CallNode CS) n ?G = Some G1"
        using def assms by (cases "addEdge (CallNode CS) n ?G") (simp_all add: wireCall_def Let_def)
      obtain G2 where G2: "(if HasLanding CS then wireReturns ?R (LandingNode CS) G1 else Some G1) = Some G2"
        using def assms G1
        by (cases "if HasLanding CS then wireReturns ?R (LandingNode CS) G1 else Some G1")
          (simp_all add: wireCall_def Let_def)
      have w: "ws_G ws' = G2 \<or> (\<exists>b. modNode n (markHeader b (CallNode CS)) G2 = Some (ws_G ws'))"
        using assms unfolding wireCall_def Let_def
        by (simp add: def G1 G2 split: if_splits option.splits) (auto simp: bind_eq_Some_conv)
      note a1 = addEdge_adds [OF G1]
      have a2: "adds G1 G2 \<and> (HasLanding CS \<longrightarrow> (\<forall>R \<in> set ?R. LandingNode CS \<in> succs G2 R)) \<and> (\<forall>i. cycles G2 i = cycles G1 i)"
        using G2 wireReturns_adds adds_refl by (auto split: if_splits)
      have a3: "adds G2 (ws_G ws') \<and> cycles (ws_G ws') i = cycles G2 i"
        using w adds_refl modNode_adds [OF _ neutral_marks(1)] markHeader_cycles by auto
      have "n \<in> succs G2 (CallNode CS)" using a1(2) a2 by (auto simp: adds_def)
      then have "wired ?G G2 CS" using a2 def by (simp add: wired_def)
      then have "wired ?G (ws_G ws') CS" using a3 wired_adds by blast
      moreover have "?c = 0" using def by (simp add: calleeCharge_def chargeAt_def)
      ultimately show ?thesis
        using a1 a2 a3 adds_trans [OF adds_trans [OF a1(1)], of G2 "ws_G ws'"] by (simp add: option.map_ident)
    qed
  qed
  then show "adds (ws_G ws) (ws_G ws')" "wired (ws_G ws) (ws_G ws') CS"
    "cycles (ws_G ws') i = map_option (\<lambda>c. c + ?c) (cycles (ws_G ws) i)" by simp_all
qed

text \<open>The loops.\<close>

lemma charge_add: "map_option (\<lambda>c. c + b) (map_option (\<lambda>c :: u32. c + a) x) = map_option (\<lambda>c. c + (a + b)) x"
  by (cases x) (simp_all add: add.assoc)

lemma wireCalls_effect:
  "wireCalls env T RB Css ws = Some ws' \<Longrightarrow>
   adds (ws_G ws) (ws_G ws') \<and> (\<forall>CS \<in> set Css. wired (ws_G ws) (ws_G ws') CS) \<and>
   cycles (ws_G ws') i = map_option
     (\<lambda>c. c + (\<Sum>CS \<leftarrow> Css. chargeAt (CallNode CS) (calleeCharge env T (ws_G ws) (Callee CS)) i)) (cycles (ws_G ws) i)"
proof (induction Css arbitrary: ws)
  case Nil
  then show ?case by (simp add: adds_refl option.map_ident)
next
  case (Cons CS Css)
  then obtain ws1 where w: "wireCall env T RB CS ws = Some ws1" "wireCalls env T RB Css ws1 = Some ws'"
    by (auto simp: bind_eq_Some_conv)
  note e = wireCall_effect [OF w(1)] and I = Cons.IH [OF w(2)]
  have fr: "frame (ws_G ws) (ws_G ws1)" using e(1) by (simp add: adds_def)
  have "wired (ws_G ws) (ws_G ws') CS" using wired_adds [OF e(2)] I by blast
  then show ?case
    using I adds_trans [OF e(1)] unfolding wired_frame [OF fr] calleeCharge_frame [OF fr] e(3)
    by (simp add: charge_add)
qed

lemma chargeSymbols_effect:
  "chargeSymbols T Cs st = Some st' \<Longrightarrow>
   adds (fst st) (fst st') \<and>
   cycles (fst st') i = map_option (\<lambda>c. c + (\<Sum>p \<leftarrow> Cs. chargeAt (fst p) (extCharge T (snd p)) i)) (cycles (fst st) i)"
proof (induction T Cs st rule: chargeSymbols.induct)
  case (1 T st)
  then show ?case by (simp add: adds_refl option.map_ident)
next
  case (2 T s nm Cs st)
  then obtain st1 where c: "chargeOrStage T s nm st = Some st1" "chargeSymbols T Cs st1 = Some st'"
    by (auto simp: bind_eq_Some_conv)
  note e = chargeOrStage_cycles [OF c(1)] and I = "2.IH" [OF c]
  show ?case using I adds_trans [OF e(1)] by (simp add: e(2) charge_add)
qed

lemma markCallSites_effect:
  "markCallSites f hf b h Css G = Some G' \<Longrightarrow> adds G G' \<and> cycles G' i = cycles G i"
proof (induction Css arbitrary: G)
  case Nil
  then show ?case by (simp add: adds_refl)
next
  case (Cons CS Css)
  show ?case
  proof (cases "Callee CS \<noteq> hf \<or> map_of (NodeToFunctionMap G) (CallNode CS) \<noteq> Some f")
    case True
    then show ?thesis using Cons by auto
  next
    case False
    then obtain G1 where G1: "modNode h (markHeader b (CallNode CS)) G = Some G1" "markCallSites f hf b h Css G1 = Some G'"
      using Cons.prems by (auto simp: bind_eq_Some_conv)
    show ?thesis
      using Cons.IH [OF G1(2)] modNode_adds [OF G1(1) neutral_marks(1)] markHeader_cycles [OF G1(1)] adds_trans by auto
  qed
qed

lemma boundHeaders_effect:
  "boundHeaders env RB Bes b G = Some (b', G') \<Longrightarrow> adds G G' \<and> cycles G' i = cycles G i"
proof (induction Bes arbitrary: b G)
  case Nil
  then show ?case by (simp add: adds_refl)
next
  case (Cons e Bes)
  obtain f h where e: "e = (f, h)" by force
  show ?case
  proof (cases "positiveBound RB (fn_name env h) = None \<or> map_of (FunctionToEntryNodeMap G) h = None")
    case True
    then have "boundHeaders env RB Bes False G = Some (b', G')" using Cons.prems e by (auto split: option.splits)
    then show ?thesis by (rule Cons.IH)
  next
    case False
    then obtain B n where Bn: "positiveBound RB (fn_name env h) = Some B" "map_of (FunctionToEntryNodeMap G) h = Some n"
      by auto
    then obtain G1 where G1: "markCallSites f h B n (CallSites G) G = Some G1" "boundHeaders env RB Bes b G1 = Some (b', G')"
      using Cons.prems e by (auto simp: bind_eq_Some_conv)
    show ?thesis using markCallSites_effect [OF G1(1)] Cons.IH [OF G1(2)] adds_trans by auto
  qed
qed

lemma boundSCCs_effect:
  "boundSCCs env RB adj Cyc Fs ms = Some ms' \<Longrightarrow> adds (ms_G ms) (ms_G ms') \<and> cycles (ms_G ms') i = cycles (ms_G ms) i"
proof (induction Fs arbitrary: ms)
  case Nil
  then show ?case by (simp add: adds_refl)
next
  case (Cons F Fs)
  show ?case
  proof (cases "F \<in> Assigned ms")
    case True
    then show ?thesis using Cons by simp
  next
    case False
    let ?S = "sccOf adj Cyc F"
    obtain Bes where B: "findSCCBackEdges ?S (sccEntries adj (StartFunction (ms_G ms)) ?S) adj = Some Bes"
      using False Cons.prems
      by (cases "findSCCBackEdges ?S (sccEntries adj (StartFunction (ms_G ms)) ?S) adj") (simp_all add: Let_def)
    obtain b' G1 where h: "boundHeaders env RB Bes (Bes \<noteq> []) (ms_G ms) = Some (b', G1)"
      using False Cons.prems B
      by (cases "boundHeaders env RB Bes (Bes \<noteq> []) (ms_G ms)") (auto simp: Let_def)
    define ms1 where "ms1 = ms\<lparr>ms_G := G1, Assigned := Assigned ms \<union> set ?S,
        BoundedMutual := (if b' then BoundedMutual ms \<union> set ?S else BoundedMutual ms),
        UnboundedMutual := (if b' then UnboundedMutual ms else UnboundedMutual ms \<union> set ?S)\<rparr>"
    have "boundSCCs env RB adj Cyc Fs ms1 = Some ms'" "ms_G ms1 = G1"
      using False Cons.prems B h by (simp_all add: Let_def ms1_def)
    then show ?thesis using boundHeaders_effect [OF h] Cons.IH [of ms1] adds_trans by auto
  qed
qed

subsection \<open>Finalisation\<close>

text \<open>\<open>H\<close> is the graph before pruning.\<close>

definition finalCharge :: "FunctionInfo \<Rightarrow> ExternalCost \<Rightarrow> ProgramGraph \<Rightarrow> nat \<Rightarrow> u32" where
  "finalCharge env T G i =
     (\<Sum>CS \<leftarrow> CallSites G. chargeAt (CallNode CS) (calleeCharge env T G (Callee CS)) i) +
     (\<Sum>p \<leftarrow> ExternalSymbolCallSites G. chargeAt (fst p) (extCharge T (snd p)) i)"

definition completes :: "FunctionInfo \<Rightarrow> ExternalCost \<Rightarrow> ProgramGraph \<Rightarrow> ProgramGraph \<Rightarrow> ProgramGraph \<Rightarrow> bool" where
  "completes env T G H G' \<longleftrightarrow>
     adds G H \<and> (\<forall>CS \<in> set (CallSites G). wired G H CS) \<and>
     (\<forall>i. cycles H i = map_option (\<lambda>c. c + finalCharge env T G i) (cycles G i)) \<and>
     (\<forall>a \<in> node_ids G'. succs G' a = succs H a \<and> cycles G' a = cycles H a)"

lemma finalize_completes:
  assumes "pg_wf G" "sites_ok G" "HasEntryNode G" "EntryNodeId G \<in> node_ids G" "finalize env T RB G = Some G'"
  shows "\<exists>H. completes env T G H G'"
proof -
  let ?ws = "\<lparr>ws_G = G, ws_Pending = [], BoundedSelfRec = {}, UnboundedSelfRec = {}\<rparr>"
  obtain ws ms st K where ws: "wireCalls env T RB (CallSites G) ?ws = Some ws"
    and ms: "boundSCCs env RB (callAdj (ws_G ws)) (inCycle (callAdj (ws_G ws))) (inCycle (callAdj (ws_G ws)))
        \<lparr>ms_G = ws_G ws, Assigned = {}, BoundedMutual = {}, UnboundedMutual = {}\<rparr> = Some ms"
    and st: "chargeSymbols T (ExternalSymbolCallSites (ms_G ms)) (ms_G ms, ws_Pending ws) = Some st"
    and K: "prune (fst st) = Some K" and G': "G' = reportRecursion env ws ms (reportCalls (snd st) K)"
    using assms(5) by (auto simp: finalize_def Let_def bind_eq_Some_conv)
  let ?H = "fst st"
  note w = wireCalls_effect [OF ws] and m = boundSCCs_effect [OF ms] and c = chargeSymbols_effect [OF st]
  have a1: "adds G (ws_G ws)" using w by simp
  have a2: "adds (ws_G ws) (ms_G ms)" using m by simp
  have a3: "adds (ms_G ms) ?H" using c by simp
  have "ExternalSymbolCallSites (ms_G ms) = ExternalSymbolCallSites G"
    using frameD(9) [of G "ms_G ms"] adds_trans [OF a1 a2] by (simp add: adds_def)
  then have cyc: "cycles ?H i = map_option (\<lambda>c. c + finalCharge env T G i) (cycles G i)" for i
    using w [of i] m [of i] c [of i] by (simp add: finalCharge_def charge_add)
  have ad: "adds G ?H" by (rule adds_trans [OF adds_trans [OF a1 a2] a3])
  have wi: "wired G ?H CS" if "CS \<in> set (CallSites G)" for CS
  proof (rule wired_adds [OF _ adds_trans [OF a2 a3]])
    show "wired G (ws_G ws) CS" using w that by simp
  qed
  have x: "extends G ?H"
  proof (rule finalize_stages [OF assms(1,2)])
    fix ws' ms' H P
    assume "wireCalls env T RB (CallSites G) ?ws = Some ws'"
      "boundSCCs env RB (callAdj (ws_G ws')) (inCycle (callAdj (ws_G ws'))) (inCycle (callAdj (ws_G ws')))
        \<lparr>ms_G = ws_G ws', Assigned = {}, BoundedMutual = {}, UnboundedMutual = {}\<rparr> = Some ms'"
      "chargeSymbols T (ExternalSymbolCallSites (ms_G ms')) (ms_G ms', ws_Pending ws') = Some (H, P)"
      and H: "extends G H"
    then have "st = (H, P)" using ws ms st by simp
    then show ?thesis using H by simp
  qed
  have H: "pg_wf ?H" "HasEntryNode ?H" "EntryNodeId ?H \<in> node_ids ?H"
    using extendsD [OF x] frameD(3,4) [of G ?H] assms(3,4) by simp_all
  obtain K' where "prune ?H = Some K'" "\<forall>a \<in> node_ids K'. succs K' a = succs ?H a \<and>
       map_option node_core (node_at K' a) = map_option node_core (node_at ?H a)"
    using prune_reach [OF H] by blast
  then have k: "succs K a = succs ?H a \<and> cycles K a = cycles ?H a" if "a \<in> node_ids K" for a
    using K that same_cycles(2) [of K a ?H] by simp
  have n: "node_at G' = node_at K" unfolding G' by (rule reportRecursion_graph)
  have "cycles G' = cycles K" by (simp add: fun_eq_iff cycles_def n)
  then have fin: "\<forall>a \<in> node_ids G'. succs G' a = succs ?H a \<and> cycles G' a = cycles ?H a"
    using k by (simp add: node_at_edges(1,4) [OF n])
  have "completes env T G ?H G'" unfolding completes_def using ad wi cyc fin by blast
  then show ?thesis ..
qed

end
