(* ===== verification/ModuleFill.thy ===== *)
theory ModuleFill
  imports ModuleGraph FinalizeCost
begin

text \<open>
  A whole module through \<open>FillMuGraphPass\<close>: the functions in the order of the pass manager, the last
  of them finalising. The filled graph represents every function: its blocks are nodes of their
  own with their latency, the edges between them, its entry, its returns and its call sites; that
  is kept while the other functions are filled in.
\<close>

subsection \<open>How the graph represents a function\<close>

text \<open>A step of the module: the function, its loops, and the results the other passes have published
  when the graph pass sees it. The node of a block is the one \<open>MBBToNodeMap\<close> names.\<close>

type_synonym ModuleStep = "MachineFunction \<times> MachineLoopInfo \<times> TimingAnalysisResults"

abbreviation stFun :: "ModuleStep \<Rightarrow> MachineFunction" where
  "stFun \<equiv> fst"

abbreviation stId :: "ModuleStep \<Rightarrow> ptr" where
  "stId St \<equiv> mf_function (stFun St)"

abbreviation stBlocks :: "ModuleStep \<Rightarrow> MachineBasicBlock list" where
  "stBlocks St \<equiv> mf_blocks (stFun St)"

abbreviation blockMap :: "ProgramGraph \<Rightarrow> ptr \<rightharpoonup> nat" where
  "blockMap G \<equiv> map_of (MBBToNodeMap G)"

abbreviation nodeAt :: "ProgramGraph \<Rightarrow> MachineBasicBlock \<Rightarrow> nat" where
  "nodeAt G \<equiv> nodeFor (blockMap G)"

definition blockLatency :: "ModuleStep \<Rightarrow> MachineBasicBlock \<Rightarrow> u32" where
  "blockLatency St B =
     (case getMBBLatencyMap (snd (snd St)) of
        Some Lat \<Rightarrow> (case Lat (mbb_id B) of Some l \<Rightarrow> l | None \<Rightarrow> 0)
      | None \<Rightarrow> 0)"

definition rep_block :: "ModuleStep \<Rightarrow> ProgramGraph \<Rightarrow> MachineBasicBlock \<Rightarrow> bool" where
  "rep_block St G B \<longleftrightarrow>
     blockMap G (mbb_id B) = Some (nodeAt G B) \<and> nodeAt G B \<in> node_ids G \<and>
     nodeFun G (nodeAt G B) = Some (stId St) \<and> cycles G (nodeAt G B) = Some (blockLatency St B) \<and>
     nodeAt G ` {C \<in> set (stBlocks St). mbb_id C \<in> set (mbb_succs B)} \<subseteq> succs G (nodeAt G B) \<and>
     filter (\<lambda>CS. CallNode CS = nodeAt G B) (CallSites G) = blockSites (blockMap G) B \<and>
     filter (\<lambda>p. fst p = nodeAt G B) (ExternalSymbolCallSites G) = map (Pair (nodeAt G B)) (blockSymbols B)"

definition rep_fn :: "ProgramGraph \<Rightarrow> ModuleStep \<Rightarrow> bool" where
  "rep_fn G St \<longleftrightarrow>
     inj_on (nodeAt G) (set (stBlocks St)) \<and> (\<forall>B \<in> set (stBlocks St). rep_block St G B) \<and>
     map_of (FunctionToEntryNodeMap G) (stId St) =
       (if stBlocks St = [] then None else Some (nodeAt G (hd (stBlocks St)))) \<and>
     returnNodes G (stId St) = map (nodeAt G) (filter mbb_isReturnBlock (stBlocks St))"

definition rep_start :: "ProgramGraph \<Rightarrow> ModuleStep \<Rightarrow> bool" where
  "rep_start G St \<longleftrightarrow>
     StartFunction G = Some (stId St) \<and>
     (stBlocks St \<noteq> [] \<longrightarrow> nodeAt G (hd (stBlocks St)) \<in> succs G (EntryNodeId G)) \<and>
     (\<exists>Xt. map_option nd_Name (node_at G Xt) = Some ''Exit'' \<and> nodeFun G Xt = None \<and>
        (\<forall>B \<in> set (stBlocks St). mbb_isReturnBlock B \<longrightarrow> Xt \<in> succs G (nodeAt G B)))"

lemma filter_concat_one:
  assumes "distinct Bs" "B \<in> set Bs" "inj_on k (set Bs)"
    and "\<And>C x. C \<in> set Bs \<Longrightarrow> x \<in> set (f C) \<Longrightarrow> key x = k C"
  shows "filter (\<lambda>x. key x = k B) (concat (map f Bs)) = f B"
  using assms
proof (induction Bs)
  case (Cons C Bs)
  have c: "filter (\<lambda>x. key x = k B) (f C) = (if C = B then f C else [])"
    using Cons.prems(2,3) Cons.prems(4) [of C] by (auto simp: filter_id_conv filter_empty_conv dest: inj_onD)
  show ?case
  proof (cases "B \<in> set Bs")
    case True
    then have "C \<noteq> B" using Cons.prems(1) by auto
    moreover have "filter (\<lambda>x. key x = k B) (concat (map f Bs)) = f B"
      using Cons.prems True by (intro Cons.IH) (auto simp: inj_on_def)
    ultimately show ?thesis using c by simp
  next
    case False
    then have "C = B" using Cons.prems(2) by simp
    moreover have "filter (\<lambda>x. key x = k B) (f D) = []" if "D \<in> set Bs" for D
    proof -
      have "k D \<noteq> k B" using Cons.prems(3) that False \<open>C = B\<close> by (metis inj_on_contraD list.set_intros)
      then show ?thesis using Cons.prems(4) [of D] that by (auto simp: filter_empty_conv)
    qed
    then have "filter (\<lambda>x. key x = k B) (concat (map f Bs)) = []"
      by (simp add: filter_concat comp_def)
    ultimately show ?thesis using c by simp
  qed
qed simp

lemma added_sites_apart:
  assumes inv: "module_inv Fs G" and ad: "fn_added MF n m G G'"
  shows "i \<in> newNodes MF n \<Longrightarrow> filter (\<lambda>CS. CallNode CS = i) (CallSites G) = []"
    "i \<in> newNodes MF n \<Longrightarrow> filter (\<lambda>p. fst p = i) (ExternalSymbolCallSites G) = []"
    "i \<in> node_ids G \<Longrightarrow> filter (\<lambda>CS. CallNode CS = i) (concat (map (blockSites m) (mf_blocks MF))) = []"
    "i \<in> node_ids G \<Longrightarrow> filter (\<lambda>p. fst p = i) (concat (map (\<lambda>B. map (Pair (nodeFor m B)) (blockSymbols B)) (mf_blocks MF))) = []"
proof -
  note a = ad [unfolded fn_added_def blocks_at_def]
  note o = inv [unfolded module_inv_def nodes_owned_def]
  have old: "\<forall>CS \<in> set (CallSites G). CallNode CS \<in> node_ids G" "\<forall>p \<in> set (ExternalSymbolCallSites G). fst p \<in> node_ids G"
    using o by blast+
  have bl: "\<And>B. B \<in> set (mf_blocks MF) \<Longrightarrow> nodeFor m B \<in> newNodes MF n" using a by blast
  have dis: "newNodes MF n \<inter> node_ids G = {}" using a by blast
  show "i \<in> newNodes MF n \<Longrightarrow> filter (\<lambda>CS. CallNode CS = i) (CallSites G) = []"
    "i \<in> newNodes MF n \<Longrightarrow> filter (\<lambda>p. fst p = i) (ExternalSymbolCallSites G) = []"
    using old dis by (auto simp: filter_empty_conv)
  show "filter (\<lambda>CS. CallNode CS = i) (concat (map (blockSites m) (mf_blocks MF))) = []" if "i \<in> node_ids G"
  proof -
    have "CallNode CS \<noteq> i" if "B \<in> set (mf_blocks MF)" "CS \<in> set (blockSites m B)" for B CS
      using blockSites_fields [OF that(2)] bl [OF that(1)] \<open>i \<in> node_ids G\<close> dis by auto
    then show ?thesis by (auto simp: filter_empty_conv)
  qed
  show "filter (\<lambda>p. fst p = i) (concat (map (\<lambda>B. map (Pair (nodeFor m B)) (blockSymbols B)) (mf_blocks MF))) = []"
    if "i \<in> node_ids G"
    using bl that dis by (auto simp: filter_empty_conv)
qed

lemma rep_new:
  assumes inv: "module_inv Fs G" and sh: "fn_shape F" and new: "mf_function F \<notin> Fs"
    and ad: "fn_added F n (blockMap G') G G'" and em: "embedded F Lat LB MLI Irr extra G G'"
    and lat: "getMBBLatencyMap TAR = Some Lat"
  shows "rep_fn G' (F, MLI', TAR)"
proof -
  let ?Bs = "mf_blocks F" and ?m = "blockMap G'"
  note a = ad [unfolded fn_added_def blocks_at_def]
  note e = em [unfolded embedded_def Let_def nodeOf_nodeFor]
  have d: "distinct ?Bs" using sh by (simp add: fn_shape_def mf_wf_def distinct_map)
  have inj: "inj_on (nodeAt G') (set ?Bs)" using a by simp
  have none: "map_of (FunctionToEntryNodeMap G) (mf_function F) = None"
  proof (rule ccontr)
    assume "map_of (FunctionToEntryNodeMap G) (mf_function F) \<noteq> None"
    then obtain k where "map_of (FunctionToEntryNodeMap G) (mf_function F) = Some k" by blast
    then have "nodeFun G k = Some (mf_function F)" using inv unfolding module_inv_def nodes_owned_def by blast
    then have "mf_function F \<in> ran (nodeFun G)" by (rule ranI)
    then show False using inv new by (auto simp: module_inv_def)
  qed
  have "rep_block (F, MLI', TAR) G' B" if B: "B \<in> set ?Bs" for B
    unfolding rep_block_def
  proof (intro conjI)
    let ?i = "nodeAt G' B"
    have i: "?i \<in> newNodes F n" using a B by blast
    show "?m (mbb_id B) = Some ?i" "?i \<in> node_ids G'" "nodeFun G' ?i = Some (stId (F, MLI', TAR))"
      using a B i by auto
    have "map_option node_body (node_at G' ?i) = Some (bodyNode Lat LB ?i B)" using e B by blast
    then obtain N where N: "node_at G' ?i = Some N" "node_body N = bodyNode Lat LB ?i B" by auto
    have "MaxCycles (nd_State N) = MaxCycles (nd_State (bodyNode Lat LB ?i B))"
      using N(2) [symmetric] by (simp add: node_body_def)
    then show "cycles G' ?i = Some (blockLatency (F, MLI', TAR) B)"
      using N(1) lat by (simp add: cycles_def blockLatency_def bodyNode_def newNode_def newMuArchState_def Let_def
          split: option.splits)
    have "succs G' ?i = nodeOf G' ` set (mbb_succs B) \<union> {j. (?i, j) \<in> extra}" using e B by blast
    then show "nodeAt G' ` {C \<in> set (stBlocks (F, MLI', TAR)). mbb_id C \<in> set (mbb_succs B)} \<subseteq> succs G' ?i"
      by (auto simp: nodeOf_nodeFor [symmetric])
    have "filter (\<lambda>CS. CallNode CS = ?i) (concat (map (blockSites ?m) ?Bs)) = blockSites ?m B"
      by (rule filter_concat_one [OF d B inj]) (simp add: blockSites_fields)
    then show "filter (\<lambda>CS. CallNode CS = ?i) (CallSites G') = blockSites ?m B"
      using a added_sites_apart(1) [OF inv ad i] by simp
    have "filter (\<lambda>p. fst p = ?i) (concat (map (\<lambda>B. map (Pair (nodeAt G' B)) (blockSymbols B)) ?Bs)) =
        map (Pair ?i) (blockSymbols B)"
      by (rule filter_concat_one [OF d B inj]) auto
    then show "filter (\<lambda>p. fst p = ?i) (ExternalSymbolCallSites G') = map (Pair ?i) (blockSymbols B)"
      using a added_sites_apart(2) [OF inv ad i] by simp
  qed
  then show ?thesis
    using a none added_owned(3) [OF inv sh new ad] by (simp add: rep_fn_def)
qed

text \<open>Blocks of other functions keep their nodes.\<close>

lemma blockSites_same:
  assumes "fn_shape F" "B \<in> set (mf_blocks F)" "\<And>C. C \<in> set (mf_blocks F) \<Longrightarrow> m' (mbb_id C) = m (mbb_id C)"
  shows "blockSites m' B = blockSites m B"
proof -
  have "(case landingBlock B of Some L \<Rightarrow> m' L | None \<Rightarrow> None) = (case landingBlock B of Some L \<Rightarrow> m L | None \<Rightarrow> None)"
    using landing_in [OF assms(1,2)] assms(3) by (auto split: option.splits)
  then show ?thesis
    using assms(3) [OF assms(2)] by (simp add: blockSites_def siteOf_def nodeFor_def)
qed

definition kept :: "MachineFunction \<Rightarrow> ModuleStep \<Rightarrow> ProgramGraph \<Rightarrow> ProgramGraph \<Rightarrow> bool" where
  "kept F St G G' \<longleftrightarrow> fn_shape (stFun St) \<and> stId St \<noteq> mf_function F \<and>
     (\<forall>B \<in> set (stBlocks St). blockMap G' (mbb_id B) = blockMap G (mbb_id B))"

lemma rep_old:
  assumes inv: "module_inv Fs G" and ad: "fn_added F n m G G'" and em: "embedded F Lat LB MLI Irr extra G G'"
    and r: "rep_fn G St" and k: "kept F St G G'"
  shows "rep_fn G' St"
proof -
  note a = ad [unfolded fn_added_def] and e = em [unfolded embedded_def Let_def]
  have nd: "nodeAt G' B = nodeAt G B" if "B \<in> set (stBlocks St)" for B
    using k that by (simp add: kept_def nodeFor_def)
  have "rep_block St G' B" if B: "B \<in> set (stBlocks St)" for B
  proof -
    let ?i = "nodeAt G B"
    have rb: "rep_block St G B" using r B by (simp add: rep_fn_def)
    then have i: "?i \<in> node_ids G" by (simp add: rep_block_def)
    then have "?i \<notin> newNodes F n" using a by blast
    then have "nodeFun G' ?i = nodeFun G ?i" using a by simp
    moreover have "succs G' ?i = succs G ?i" using e i by blast
    moreover have "cycles G' ?i = cycles G ?i" by (rule same_cycles(1)) (use e i in blast)
    moreover have "blockMap G' (mbb_id B) = blockMap G (mbb_id B)" using k B by (simp add: kept_def)
    moreover have "blockSites (blockMap G') B = blockSites (blockMap G) B"
    proof (rule blockSites_same)
      show "fn_shape (stFun St)" using k by (simp add: kept_def)
      show "blockMap G' (mbb_id C) = blockMap G (mbb_id C)" if "C \<in> set (stBlocks St)" for C
        using k that by (simp add: kept_def)
    qed (rule B)
    moreover have "?i \<in> node_ids G'" using a i by blast
    moreover have "filter (\<lambda>CS. CallNode CS = ?i) (CallSites G') = filter (\<lambda>CS. CallNode CS = ?i) (CallSites G)"
      "filter (\<lambda>p. fst p = ?i) (ExternalSymbolCallSites G') = filter (\<lambda>p. fst p = ?i) (ExternalSymbolCallSites G)"
      using a added_sites_apart(3,4) [OF inv ad i] by simp_all
    moreover have "nodeAt G' ` {C \<in> set (stBlocks St). mbb_id C \<in> set (mbb_succs B)} =
        nodeAt G ` {C \<in> set (stBlocks St). mbb_id C \<in> set (mbb_succs B)}"
      by (rule image_cong) (use nd in auto)
    ultimately show ?thesis
      using rb unfolding rep_block_def nd [OF B] by simp
  qed
  moreover have "inj_on (nodeAt G') (set (stBlocks St))"
    using r nd by (auto simp: rep_fn_def inj_on_def)
  moreover have "map (nodeAt G') (filter mbb_isReturnBlock (stBlocks St)) = map (nodeAt G) (filter mbb_isReturnBlock (stBlocks St))"
    using nd by simp
  moreover have "map_of (FunctionToEntryNodeMap G') (stId St) = map_of (FunctionToEntryNodeMap G) (stId St)"
    "returnNodes G' (stId St) = returnNodes G (stId St)"
    using a k by (auto simp: kept_def split: if_splits)
  ultimately show ?thesis
    using r nd by (simp add: rep_fn_def)
qed

lemma rep_start_new:
  assumes "start_added True F (blockMap G') G G'" "module_inv Fs G"
  shows "rep_start G' (F, MLI, TAR)"
proof -
  have "nodeFun G Xt = None" if "Xt \<notin> node_ids G" for Xt
    using assms(2) that unfolding module_inv_def nodes_owned_def by blast
  then show ?thesis using assms(1) by (auto simp: start_added_def rep_start_def)
qed

lemma rep_start_old:
  assumes st: "start_added False F m G G'" and ea: "entry_added False G G'" and em: "embedded F Lat LB MLI Irr extra G G'"
    and ad: "fn_added F n m G G'" and en: "HasEntryNode G" "entry_apart G"
    and r: "rep_fn G St" "rep_start G St" and k: "kept F St G G'"
  shows "rep_start G' St"
proof -
  note e = em [unfolded embedded_def Let_def]
  have nd: "nodeAt G' B = nodeAt G B" if "B \<in> set (stBlocks St)" for B
    using k that by (simp add: kept_def nodeFor_def)
  have old: "succs G' i = succs G i" "map_option node_body (node_at G' i) = map_option node_body (node_at G i)"
    if "i \<in> node_ids G" for i using e that by blast+
  have E: "EntryNodeId G' = EntryNodeId G" "EntryNodeId G \<in> node_ids G"
    using ea en by (simp_all add: entry_added_def entry_apart_def)
  have bl: "nodeAt G B \<in> node_ids G" if "B \<in> set (stBlocks St)" for B
    using r(1) that by (simp add: rep_fn_def rep_block_def)
  obtain Xt where X: "map_option nd_Name (node_at G Xt) = Some ''Exit''" "nodeFun G Xt = None"
    "\<forall>B \<in> set (stBlocks St). mbb_isReturnBlock B \<longrightarrow> Xt \<in> succs G (nodeAt G B)"
    using r(2) by (auto simp: rep_start_def)
  have Xi: "Xt \<in> node_ids G" using X(1) by (auto simp: node_ids_def)
  then have "map_option nd_Name (node_at G' Xt) = Some ''Exit''" using X(1) same_names [OF old(2)] by simp
  moreover have "nodeFun G' Xt = None" using ad X(2) Xi by (auto simp: fn_added_def)
  moreover have "\<forall>B \<in> set (stBlocks St). mbb_isReturnBlock B \<longrightarrow> Xt \<in> succs G' (nodeAt G' B)"
    using X(3) old(1) bl nd by simp
  moreover have "StartFunction G' = StartFunction G" using st by (simp add: start_added_def)
  moreover have "stBlocks St \<noteq> [] \<Longrightarrow> nodeAt G' (hd (stBlocks St)) \<in> succs G' (EntryNodeId G')"
    using r(2) nd old(1) [OF E(2)] by (simp add: rep_start_def E(1))
  ultimately show ?thesis using r(2) by (auto simp: rep_start_def)
qed

subsection \<open>The module\<close>

text \<open>The pass manager runs the passes function by function. What the other passes leave in the
  shared results before the graph pass sees a function is \<open>TAR\<close>; none of them writes the graph.\<close>

fun fillModule ::
  "Options \<Rightarrow> ModuleInfo \<Rightarrow> ModuleStep list \<Rightarrow> FillState \<times> ProgramGraph \<Rightarrow> (FillState \<times> ProgramGraph) option" where
  "fillModule Opt M [] st = Some st"
| "fillModule Opt M ((F, MLI, TAR) # Steps) (S, G) =
     do {
       (S', TAR') \<leftarrow> FillMuGraph_run Opt M F MLI (S, TAR\<lparr>MASG := G\<rparr>);
       fillModule Opt M Steps (S', MASG TAR')
     }"

definition starts :: "Options \<Rightarrow> ModuleInfo \<Rightarrow> MachineFunction \<Rightarrow> bool" where
  "starts Opt M F \<longleftrightarrow>
     (if StartFunctionName Opt \<noteq> [] then mf_name F = StartFunctionName Opt
      else findStartFunction (fn_name (mod_Functions M)) (StartFunctionName Opt) (mod_CallGraph M) =
        Some (mf_function F))"

text \<open>What a module must be: functions of the shape above, each once and no block in two, one of them the start function,
  the last one the last defined of the module, the latencies published, few enough blocks.\<close>

definition module_ok :: "Options \<Rightarrow> ModuleInfo \<Rightarrow> ModuleStep list \<Rightarrow> bool" where
  "module_ok Opt M Steps \<longleftrightarrow>
     Steps \<noteq> [] \<and> distinct (map (mf_function \<circ> fst) Steps) \<and>
     distinct (concat (map (map mbb_id \<circ> stBlocks) Steps)) \<and>
     list_all (\<lambda>(F, MLI, TAR). fn_shape F \<and> getMBBLatencyMap TAR \<noteq> None \<and> getTarget TAR \<noteq> None) Steps \<and>
     length (filter (starts Opt M \<circ> fst) Steps) = 1 \<and>
     lastDefined M = Some (mf_function (fst (last Steps))) \<and>
     (\<Sum>S \<leftarrow> Steps. length (mf_blocks (fst S)) + 2) < 2 ^ 32"

definition not_found :: "Options \<Rightarrow> FillState \<Rightarrow> bool" where
  "not_found Opt S \<longleftrightarrow> StartFunctionName Opt = [] \<longrightarrow> \<not> FoundStartingFunction S"

lemma FillMuGraph_step:
  assumes "not_found Opt S" "getMBBLatencyMap TAR = Some Lat" "getTarget TAR = Some T"
  shows "\<exists>S'. not_found Opt S' \<and> FillMuGraph_run Opt M F MLI (S, TAR\<lparr>MASG := G\<rparr>) =
    (do {
       G1 \<leftarrow> fillGraphWithFunction F (starts Opt M F) Lat (getLoopBoundMap TAR) (Some MLI)
         (set (getIrreducibleBackEdges TAR)) G;
       G2 \<leftarrow> (if lastDefined M = Some (mf_function F)
         then finalize (mod_Functions M) (Some (rt_getExternalCallCost T)) (map_of (getRecursionBoundMap TAR)) G1
         else Some G1);
       Some (S', TAR\<lparr>MASG := G2\<rparr>)
     })"
proof -
  have get: "getMBBLatencyMap (TAR\<lparr>MASG := G\<rparr>) = Some Lat" "getTarget (TAR\<lparr>MASG := G\<rparr>) = Some T"
    "getLoopBoundMap (TAR\<lparr>MASG := G\<rparr>) = getLoopBoundMap TAR"
    "getIrreducibleBackEdges (TAR\<lparr>MASG := G\<rparr>) = getIrreducibleBackEdges TAR"
    "getRecursionBoundMap (TAR\<lparr>MASG := G\<rparr>) = getRecursionBoundMap TAR" for G
    using assms(2,3) by (auto simp: getMBBLatencyMap_def getTarget_def getLoopBoundMap_def
        getIrreducibleBackEdges_def getRecursionBoundMap_def split: if_splits)
  show ?thesis
  proof (cases "StartFunctionName Opt = []")
    case True
    then show ?thesis
      using assms(1)
      by (intro exI [of _ "S\<lparr>StartingFunction := findStartFunction (fn_name (mod_Functions M))
            (StartFunctionName Opt) (mod_CallGraph M)\<rparr>"])
        (auto simp: FillMuGraph_run_def Let_def get not_found_def isEntryFunction_def starts_def
          intro!: bind_option_cong)
  next
    case False
    then show ?thesis
      by (intro exI [of _ "S\<lparr>FoundStartingFunction := True\<rparr>"])
        (auto simp: FillMuGraph_run_def Let_def get not_found_def isEntryFunction_def starts_def
          intro!: bind_option_cong)
  qed
qed

lemma fill_module_rep:
  assumes inv: "module_inv Fs G" and sh: "fn_shape F" and new: "mf_function F \<notin> Fs"
    and room: "NextNodeId G + length (mf_blocks F) + 2 < 2 ^ 32" and e: "e \<Longrightarrow> \<not> HasEntryNode G"
    and lat: "getMBBLatencyMap TAR = Some Lat"
    and rp: "\<forall>St \<in> set Done. rep_fn G St \<and> fn_shape (stFun St) \<and> stId St \<in> Fs \<and>
      mbb_id ` set (stBlocks St) \<inter> mbb_id ` set (mf_blocks F) = {}"
    and ent: "HasEntryNode G \<longleftrightarrow> (\<exists>St \<in> set Done. P St)" and st: "\<forall>St \<in> set Done. P St \<longrightarrow> rep_start G St"
    and P: "P (F, MLI, TAR) = e"
  shows "\<exists>G'. fillGraphWithFunction F e Lat LB (Some MLI) Irr G = Some G' \<and>
    module_inv (insert (mf_function F) Fs) G' \<and>
    NextNodeId G' \<le> NextNodeId G + length (mf_blocks F) + 2 \<and>
    (\<forall>St \<in> set (Done @ [(F, MLI, TAR)]). rep_fn G' St) \<and>
    (HasEntryNode G' \<longleftrightarrow> (\<exists>St \<in> set (Done @ [(F, MLI, TAR)]). P St)) \<and>
    (\<forall>St \<in> set (Done @ [(F, MLI, TAR)]). P St \<longrightarrow> rep_start G' St)"
proof -
  let ?St = "(F, MLI, TAR)"
  have wf: "pg_wf G" and ea: "entry_apart G" using inv by (simp_all add: module_inv_def)
  have sh': "mf_wf F" "calls_ok F" "\<forall>B \<in> set (mf_blocks F). mbb_name B \<noteq> ''Entry''"
    using sh by (simp_all add: fn_shape_def)
  obtain G' n where G': "fillGraphWithFunction F e Lat LB (Some MLI) Irr G = Some G'" "pg_wf G'"
      "NextNodeId G' \<le> NextNodeId G + length (mf_blocks F) + 2"
    and ad: "fn_added F n (blockMap G') G G'" and en: "entry_added e G G'" and sa: "start_added e F (blockMap G') G G'"
    and m: "\<forall>b. b \<notin> mbb_id ` set (mf_blocks F) \<longrightarrow> blockMap G' b = blockMap G b"
    using fill_added [OF wf sh' room, of e Lat LB "Some MLI" Irr] by blast
  obtain extra where em: "embedded F Lat LB (Some MLI) Irr extra G G'"
    using fillGraphWithFunction_spec [OF wf sh'(1,2) room, of e Lat LB "Some MLI" Irr] G'(1) by auto
  note inv' = added_entry [OF inv G'(2) ad en e]
  have "maps_ok G'" using ad inv by (simp add: fn_added_def module_inv_def)
  then have minv: "module_inv (insert (mf_function F) Fs) G'"
    using G'(2) added_owned [OF inv sh new ad] added_apart [OF inv sh new ad] inv'(1)
    by (simp add: module_inv_def)
  have kp: "kept F St G G'" if "St \<in> set Done" for St
  proof -
    have "mbb_id B \<notin> mbb_id ` set (mf_blocks F)" if "B \<in> set (stBlocks St)" for B
      using rp \<open>St \<in> set Done\<close> that by blast
    then show ?thesis using that rp new m by (auto simp: kept_def)
  qed
  have "rep_fn G' ?St" by (rule rep_new [OF inv sh new ad em lat])
  moreover have "rep_fn G' St" if "St \<in> set Done" for St
    using rep_old [OF inv ad em _ kp [OF that]] rp that by blast
  moreover have "rep_start G' ?St" if "P ?St"
    using rep_start_new sa that P inv by auto
  moreover have "rep_start G' St" if s: "St \<in> set Done" "P St" for St
  proof -
    have h: "HasEntryNode G" using ent s by blast
    then have "\<not> e" using e by blast
    then have "start_added False F (blockMap G') G G'" "entry_added False G G'" using sa en by simp_all
    then show ?thesis using rep_start_old em ad h ea rp st s kp [OF s(1)] by blast
  qed
  moreover have "HasEntryNode G' \<longleftrightarrow> (\<exists>St \<in> set (Done @ [?St]). P St)" using inv'(2) ent P by auto
  ultimately show ?thesis
    using G'(1,3) minv by (intro exI [of _ G']) auto
qed

text \<open>The filled graph and its finalisation, with the results the last step publishes.\<close>

definition module_filled ::
  "Options \<Rightarrow> ModuleInfo \<Rightarrow> ModuleStep list \<Rightarrow> ProgramGraph \<Rightarrow> ProgramGraph \<Rightarrow> bool" where
  "module_filled Opt M Steps G0 G \<longleftrightarrow>
     module_inv (stId ` set Steps) G0 \<and> HasEntryNode G0 \<and>
     (\<forall>St \<in> set Steps. rep_fn G0 St \<and> (starts Opt M (stFun St) \<longrightarrow> rep_start G0 St)) \<and>
     (\<exists>T. getTarget (snd (snd (last Steps))) = Some T \<and>
        finalize (mod_Functions M) (Some (rt_getExternalCallCost T))
          (map_of (getRecursionBoundMap (snd (snd (last Steps))))) G0 = Some G)"

lemma fill_steps:
  assumes "Steps \<noteq> []" "module_inv (stId ` set Done) G" "not_found Opt S"
    and "distinct (map (mf_function \<circ> fst) (Done @ Steps))"
    and "distinct (concat (map (map mbb_id \<circ> stBlocks) (Done @ Steps)))"
    and "list_all (\<lambda>(F, MLI, TAR). fn_shape F \<and> getMBBLatencyMap TAR \<noteq> None \<and> getTarget TAR \<noteq> None) Steps"
    and "length (filter (starts Opt M \<circ> fst) (Done @ Steps)) = 1"
    and "lastDefined M = Some (mf_function (fst (last Steps)))"
    and "NextNodeId G + (\<Sum>S \<leftarrow> Steps. length (mf_blocks (fst S)) + 2) < 2 ^ 32"
    and "\<forall>St \<in> set Done. rep_fn G St \<and> fn_shape (stFun St)"
    and "HasEntryNode G \<longleftrightarrow> (\<exists>St \<in> set Done. starts Opt M (stFun St))"
    and "\<forall>St \<in> set Done. starts Opt M (stFun St) \<longrightarrow> rep_start G St"
  shows "\<exists>S' G0 G'. fillModule Opt M Steps (S, G) = Some (S', G') \<and>
    module_filled Opt M (Done @ Steps) G0 G'"
  using assms
proof (induction Steps arbitrary: S G Done)
  case (Cons St Steps)
  obtain F MLI TAR where St: "St = (F, MLI, TAR)" by (cases St) auto
  let ?e = "starts Opt M F" and ?Done = "Done @ [St]" and ?P = "\<lambda>St. starts Opt M (stFun St)"
  obtain Lat T where TAR: "getMBBLatencyMap TAR = Some Lat" "getTarget TAR = Some T" and sh: "fn_shape F"
    using Cons.prems(6) St by auto
  obtain S' where S': "not_found Opt S'" "FillMuGraph_run Opt M F MLI (S, TAR\<lparr>MASG := G\<rparr>) =
    (do {
       G1 \<leftarrow> fillGraphWithFunction F ?e Lat (getLoopBoundMap TAR) (Some MLI)
         (set (getIrreducibleBackEdges TAR)) G;
       G2 \<leftarrow> (if lastDefined M = Some (mf_function F)
         then finalize (mod_Functions M) (Some (rt_getExternalCallCost T)) (map_of (getRecursionBoundMap TAR)) G1
         else Some G1);
       Some (S', TAR\<lparr>MASG := G2\<rparr>)
     })"
    using FillMuGraph_step [OF Cons.prems(3) TAR] by blast
  have new: "mf_function F \<notin> stId ` set Done" using Cons.prems(4) St by auto
  have room: "NextNodeId G + length (mf_blocks F) + 2 < 2 ^ 32" using Cons.prems(9) St by simp
  have once: "\<not> HasEntryNode G" if ?e
  proof -
    have "length (filter ?P Done) = 0" using Cons.prems(7) St that by (simp add: comp_def)
    then show ?thesis using Cons.prems(11) by (simp add: filter_empty_conv)
  qed
  have rp: "\<forall>St \<in> set Done. rep_fn G St \<and> fn_shape (stFun St) \<and> stId St \<in> stId ` set Done \<and>
      mbb_id ` set (stBlocks St) \<inter> mbb_id ` set (mf_blocks F) = {}"
  proof
    fix D assume D: "D \<in> set Done"
    have "(\<Union>x \<in> set Done. mbb_id ` set (stBlocks x)) \<inter> mbb_id ` set (mf_blocks F) = {}"
      using Cons.prems(5) unfolding St by (simp add: comp_def) blast
    then have "mbb_id ` set (stBlocks D) \<inter> mbb_id ` set (mf_blocks F) = {}" using D by blast
    then show "rep_fn G D \<and> fn_shape (stFun D) \<and> stId D \<in> stId ` set Done \<and>
      mbb_id ` set (stBlocks D) \<inter> mbb_id ` set (mf_blocks F) = {}" using D Cons.prems(10) by simp
  qed
  obtain G1 where G1: "fillGraphWithFunction F ?e Lat (getLoopBoundMap TAR) (Some MLI)
         (set (getIrreducibleBackEdges TAR)) G = Some G1"
    "module_inv (insert (mf_function F) (stId ` set Done)) G1"
    "NextNodeId G1 \<le> NextNodeId G + length (mf_blocks F) + 2"
    "\<forall>St \<in> set ?Done. rep_fn G1 St"
    "HasEntryNode G1 \<longleftrightarrow> (\<exists>St \<in> set ?Done. ?P St)" "\<forall>St \<in> set ?Done. ?P St \<longrightarrow> rep_start G1 St"
    using fill_module_rep [OF Cons.prems(2) sh new room once TAR(1) rp Cons.prems(11,12),
        where MLI = MLI and LB = "getLoopBoundMap TAR" and Irr = "set (getIrreducibleBackEdges TAR)"] St by auto
  have inv1: "module_inv (stId ` set ?Done) G1" using G1(2) St by simp
  show ?case
  proof (cases "Steps = []")
    case True
    have en: "HasEntryNode G1"
      using Cons.prems(7) True G1(5) by (auto simp: comp_def filter_empty_conv length_Suc_conv filter_eq_Cons_iff)
    then obtain G2 where G2: "finalize (mod_Functions M) (Some (rt_getExternalCallCost T))
        (map_of (getRecursionBoundMap TAR)) G1 = Some G2"
      using finalize_ready [OF inv1] by blast
    have "lastDefined M = Some (mf_function F)" using Cons.prems(8) True St by simp
    then have "fillModule Opt M (St # Steps) (S, G) = Some (S', G2)" using G1(1) G2 S'(2) True St by simp
    moreover have "module_filled Opt M (Done @ St # Steps) G1 G2"
      unfolding module_filled_def using inv1 en G1(4,6) G2 TAR(2) True St by auto
    ultimately show ?thesis by blast
  next
    case False
    then have "last Steps \<in> set Steps" by simp
    then have "mf_function F \<noteq> mf_function (fst (last Steps))" using Cons.prems(4) St by auto
    then have "lastDefined M \<noteq> Some (mf_function F)" using Cons.prems(8) False by auto
    then have run: "fillModule Opt M (St # Steps) (S, G) = fillModule Opt M Steps (S', G1)"
      using G1(1) S'(2) St by simp
    have "\<exists>S'' G0 G'. fillModule Opt M Steps (S', G1) = Some (S'', G') \<and>
        module_filled Opt M (?Done @ Steps) G0 G'"
    proof (rule Cons.IH [OF False inv1 S'(1)])
      show "\<forall>St \<in> set ?Done. rep_fn G1 St \<and> fn_shape (stFun St)" using G1(4) Cons.prems(10) sh St by auto
      show "\<forall>St \<in> set ?Done. ?P St \<longrightarrow> rep_start G1 St"
        "HasEntryNode G1 \<longleftrightarrow> (\<exists>St \<in> set ?Done. ?P St)" using G1(5,6) by blast+
      show "NextNodeId G1 + (\<Sum>S \<leftarrow> Steps. length (mf_blocks (fst S)) + 2) < 2 ^ 32"
        using Cons.prems(9) G1(3) St by simp
    qed (use Cons.prems(4-8) False in \<open>simp_all\<close>)
    then show ?thesis unfolding run by simp
  qed
qed simp

lemma module_fills:
  assumes "module_ok Opt M Steps"
  shows "\<exists>S G0 G. fillModule Opt M Steps (newFillState, emptyPG) = Some (S, G) \<and> module_filled Opt M Steps G0 G"
  using fill_steps [of Steps "[]" emptyPG Opt newFillState M] assms module_inv_empty
  by (simp add: module_ok_def not_found_def newFillState_def emptyPG_def)

lemma filled_ready: "module_filled Opt M Steps G0 G \<Longrightarrow> pg_ready G"
  unfolding module_filled_def by (metis finalize_ready option.inject)

lemma module_ready:
  assumes "module_ok Opt M Steps"
  shows "\<exists>S G. fillModule Opt M Steps (newFillState, emptyPG) = Some (S, G) \<and> pg_ready G"
  using module_fills [OF assms] filled_ready by blast

end
