(* ===== verification/CallExample.thy ===== *)
theory CallExample
  imports ModuleFill
begin

text \<open>
  A module of two functions taken through every stage on concrete values: filled, finalised, copied,
  solved and reported. It is the input at which the theorem of \<open>ModuleWCET\<close> is applied.
\<close>

subsection \<open>The module\<close>

text \<open>The start function calls the other one in its first block and returns in the second.\<close>

definition call_block :: MachineBasicBlock where
  "call_block = \<lparr>mbb_id = 10, mbb_name = '''',
     mbb_instrs = [\<lparr>mi_id = 100, mi_opcode = CALL call_i, mi_operands = [MO_GlobalAddress (GV_Function 2)],
       mi_memoperands = [], mi_isCall = True, mi_mayLoad = False, mi_mayStore = False, mi_isPseudo = False,
       mi_isDebug = False, mi_isCFI = False, mi_isMeta = False, mi_debugLoc = None\<rparr>],
     mbb_succs = [11], mbb_preds = [], mbb_isReturnBlock = False, mbb_fallThrough = Some 11\<rparr>"

definition caller_fun :: MachineFunction where
  "caller_fun = \<lparr>mf_function = 1, mf_name = ''main'', mf_blocks = [call_block, demo_block 11 [] True]\<rparr>"

definition callee_fun :: MachineFunction where
  "callee_fun = \<lparr>mf_function = 2, mf_name = ''f'', mf_blocks = [demo_block 20 [] True]\<rparr>"

definition call_module :: ModuleInfo where
  "call_module = \<lparr>mod_Functions = \<lparr>fn_name = (\<lambda>f. if f = 1 then ''main'' else ''f''), fn_isDeclaration = (\<lambda>_. False)\<rparr>,
     mod_FunctionList = [2, 1], mod_CallGraph = [(Some 1, 0), (Some 2, 1)]\<rparr>"

definition call_results :: TimingAnalysisResults where
  "call_results = newTAR\<lparr>ActiveTarget := Some MSP430FR5994Target, MBBLatencyMap := [10 \<mapsto> 7, 11 \<mapsto> 3, 20 \<mapsto> 5],
     MBBLatencyMapSet := True\<rparr>"

abbreviation callee_step :: ModuleStep where
  "callee_step \<equiv> (callee_fun, \<lambda>_. None, call_results)"

abbreviation caller_step :: ModuleStep where
  "caller_step \<equiv> (caller_fun, \<lambda>_. None, call_results)"

abbreviation call_steps :: "ModuleStep list" where
  "call_steps \<equiv> [callee_step, caller_step]"

abbreviation callee_node :: "nat list \<Rightarrow> nat list \<Rightarrow> Node" where
  "callee_node ss ps \<equiv> (newNode 0 (newMuArchState 5 5))\<lparr>Successors := ss, Predecessors := ps\<rparr>"

abbreviation caller_nodes :: "nat list \<Rightarrow> nat list \<Rightarrow> (nat \<times> Node) list" where
  "caller_nodes ss ps \<equiv>
     [(1, (newNode 1 (newMuArchState 0 0))\<lparr>nd_Name := ''Entry'', Successors := [3]\<rparr>),
      (2, (newNode 2 (newMuArchState 0 0))\<lparr>nd_Name := ''Exit'', Predecessors := [4]\<rparr>),
      (3, (newNode 3 (newMuArchState 7 7))\<lparr>Successors := ss, Predecessors := [1]\<rparr>),
      (4, (newNode 4 (newMuArchState 3 3))\<lparr>Successors := [2], Predecessors := ps\<rparr>)]"

definition callee_graph :: ProgramGraph where
  "callee_graph = emptyPG\<lparr>Nodes := [(0, callee_node [] [])], MBBToNodeMap := [(20, 0)], NodeToFunctionMap := [(0, 2)],
     FunctionToEntryNodeMap := [(2, 0)], FunctionToReturnNodesMap := [(2, [0])], NextNodeId := 1\<rparr>"

definition with_caller :: "(nat \<times> Node) list \<Rightarrow> ProgramGraph" where
  "with_caller Ns = emptyPG\<lparr>Nodes := Ns, MBBToNodeMap := [(10, 3), (11, 4), (20, 0)],
     NodeToFunctionMap := [(0, 2), (3, 1), (4, 1)], HasEntryNode := True, EntryNodeId := 1, StartFunction := Some 1,
     FunctionToEntryNodeMap := [(1, 3), (2, 0)], FunctionToReturnNodesMap := [(1, [4]), (2, [0])],
     CallSites := [\<lparr>CallNode = 3, Callee = 2, LandingNode = 4, HasLanding = True\<rparr>], NextNodeId := 5\<rparr>"

abbreviation call_graph0 :: ProgramGraph where
  "call_graph0 \<equiv> with_caller ((0, callee_node [] []) # caller_nodes [4] [3])"

abbreviation call_graph :: ProgramGraph where
  "call_graph \<equiv> with_caller ((0, callee_node [4] [3]) # caller_nodes [0, 4] [0, 3])"

abbreviation call_latency :: "ptr \<rightharpoonup> u32" where
  "call_latency \<equiv> [10 \<mapsto> 7, 11 \<mapsto> 3, 20 \<mapsto> 5]"

lemmas fill_eqs =
  fillGraphWithFunction_def fillEntry_def demo_block_def addNode_def emptyPG_def omap_insert_def copyNode_def
  modNode_def node_at_def newNode_def newMuArchState_def wireEntryExit_def addEdge_def addSuccessor_def
  addPredecessor_def nodeOf_def omap_get_def cfgEdges_def fillEdge_def Let_def insort_insert_key_def

lemma callee_filled:
  "fillGraphWithFunction callee_fun False call_latency (\<lambda>_. None) (Some (\<lambda>_. None)) {} emptyPG = Some callee_graph"
  by (simp add: fill_eqs callee_fun_def callee_graph_def)

lemma caller_filled:
  "fillGraphWithFunction caller_fun True call_latency (\<lambda>_. None) (Some (\<lambda>_. None)) {} callee_graph = Some call_graph0"
  by (simp add: fill_eqs caller_fun_def call_block_def callee_graph_def with_caller_def captureCall_def)

lemma call_finalized:
  "finalize (mod_Functions call_module) (Some (rt_getExternalCallCost MSP430FR5994Target)) (map_of []) call_graph0 = Some call_graph"
  by code_simp

definition call_model :: HighsModel where
  "call_model = \<lparr>sense = kMaximize, num_col = 10, col_cost = [5, 0, 0, 7, 3, 0, 0, 0, 0, 0],
     col_lower = [0, 0, 0, 0, 0, 0, 0, 0, 0, 0],
     col_upper = [None, None, None, None, None, None, None, None, None, None],
     integrality = [kInteger, kInteger, kInteger, kInteger, kInteger, kInteger, kInteger, kInteger, kInteger, kInteger],
     hm_rows = [\<lparr>row_lower = 0, row_upper = Some 0, row_coeffs = [(0, 1), (7, - 1)]\<rparr>,
        \<lparr>row_lower = 0, row_upper = Some 0, row_coeffs = [(0, 1), (5, - 1)]\<rparr>,
        \<lparr>row_lower = 0, row_upper = Some 0, row_coeffs = [(1, 1), (6, - 1)]\<rparr>,
        \<lparr>row_lower = 1, row_upper = Some 1, row_coeffs = [(1, 1)]\<rparr>,
        \<lparr>row_lower = 0, row_upper = Some 0, row_coeffs = [(2, 1), (9, - 1)]\<rparr>,
        \<lparr>row_lower = 0, row_upper = Some 0, row_coeffs = [(3, 1), (6, - 1)]\<rparr>,
        \<lparr>row_lower = 0, row_upper = Some 0, row_coeffs = [(3, 1), (7, - 1), (8, - 1)]\<rparr>,
        \<lparr>row_lower = 0, row_upper = Some 0, row_coeffs = [(4, 1), (5, - 1), (8, - 1)]\<rparr>,
        \<lparr>row_lower = 0, row_upper = Some 0, row_coeffs = [(4, 1), (9, - 1)]\<rparr>,
        \<lparr>row_lower = 0, row_upper = Some 0, row_coeffs = [(7, 1), (5, - 1)]\<rparr>]\<rparr>"

subsection \<open>The state graph and the integer program\<close>

text \<open>The state graph, with the edges it has so far.\<close>

abbreviation call_state :: "StageState list" where
  "call_state \<equiv> [SimpleStageState 0, InstructionCacheState 0]"

definition call_asg ::
  "(nat \<times> EdgeSet) list \<Rightarrow> (nat \<times> nat list) list \<Rightarrow> StageState list AbstractStateGraph" where
  "call_asg Succs Preds = emptyASG\<lparr>asg_NextNodeId := 5,
     asg_Nodes :=
       [(0, (newASGNode 0 call_state None)\<lparr>Cost := 5\<rparr>),
        (1, (newASGNode 1 call_state None)\<lparr>IsEntry := True\<rparr>),
        (2, (newASGNode 2 call_state None)\<lparr>IsExit := True\<rparr>),
        (3, (newASGNode 3 call_state None)\<lparr>Cost := 7\<rparr>),
        (4, (newASGNode 4 call_state None)\<lparr>Cost := 3\<rparr>)],
     AdjacencyList := Succs, asg_Predecessors := Preds\<rparr>"

abbreviation call_ids :: "(nat \<times> nat) list" where
  "call_ids \<equiv> [(0, 0), (1, 1), (2, 2), (3, 3), (4, 4)]"

definition call_edges_asg :: "StageState list AbstractStateGraph" where
  "call_edges_asg = call_asg [(0, [(4, False)]), (1, [(3, False)]), (3, [(0, False), (4, False)]), (4, [(2, False)])]
     [(0, [3]), (2, [4]), (3, [1]), (4, [0, 3])]"

definition call_linked_asg :: "StageState list AbstractStateGraph" where
  "call_linked_asg = call_edges_asg\<lparr>FunctionEntries := [(1, 3), (2, 0)], FunctionReturns := [(1, [4]), (2, [0])],
     asg_CallSites := [\<lparr>CallNodeId = 3, ReturnNodeId = 4, asg_Callee = 2\<rparr>]\<rparr>"

lemma call_initial: "an_getInitialState MSP430Pipeline = call_state"
  by code_simp

lemmas call_eqs = with_caller_def emptyASG_def emptyPG_def newNode_def newMuArchState_def newASGNode_def asg_defs
  omap_get_def omap_insert_def copyPGNode_def getUpperBoundCycles_def Let_def call_asg_def call_edges_asg_def
  call_linked_asg_def insort_insert_key_def

lemma call_nodes_copied: "copyNodes MSP430Pipeline (\<lambda>_. 0) (Nodes call_graph) [] emptyASG = (call_ids, call_asg [] [])"
  by (simp add: call_eqs call_initial)

lemma call_edges_copied: "copyEdges call_graph call_ids (Nodes call_graph) (call_asg [] []) = call_edges_asg"
  by (simp add: call_eqs node_at_def)

lemma call_ends: "markEnds call_ids (Nodes call_graph) call_edges_asg = call_edges_asg"
  by (simp add: call_eqs)

lemma call_copied:
  "initializeGraph_PG MSP430Pipeline (\<lambda>_. 0) call_graph newSolver =
     \<lparr>ws_Graph = call_linked_asg, Worklist = [1], InWorklist = {1}\<rparr>"
proof -
  have c: "copyEntries call_ids (FunctionToEntryNodeMap call_graph) [] = [(1, 3), (2, 0)]"
    "copyReturns call_ids (FunctionToReturnNodesMap call_graph) [] = [(1, [4]), (2, [0])]"
    "copyCallSites call_ids (CallSites call_graph) = [\<lparr>CallNodeId = 3, ReturnNodeId = 4, asg_Callee = 2\<rparr>]"
    by (simp_all add: with_caller_def copyEntries_def copyReturns_def copyCallSites_def omap_get_def)
  have e: "FunctionEntries call_edges_asg = []" "FunctionReturns call_edges_asg = []" "asg_CallSites call_edges_asg = []"
    by (simp_all add: call_edges_asg_def call_asg_def emptyASG_def)
  have s: "seedEntries (asg_Nodes call_linked_asg) (newSolver\<lparr>ws_Graph := call_linked_asg\<rparr>) =
      \<lparr>ws_Graph = call_linked_asg, Worklist = [1], InWorklist = {1}\<rparr>"
    by (simp add: call_linked_asg_def call_edges_asg_def call_asg_def emptyASG_def newASGNode_def newSolver_def addToWorklist_def)
  have n: "ws_Graph newSolver = emptyASG" by (simp add: newSolver_def)
  show ?thesis
    by (simp only: initializeGraph_PG_def Let_def n call_nodes_copied prod.case call_edges_copied call_ends c e append_Nil
      call_linked_asg_def [symmetric] s)
qed

text \<open>The stage states never change, so each node is visited once.\<close>

definition call_work :: "nat list \<Rightarrow> StageState list WorklistSolver" where
  "call_work Is = \<lparr>ws_Graph = call_linked_asg, Worklist = Is, InWorklist = set Is\<rparr>"

lemma call_node:
  "asg_getNode call_linked_asg i = Some N \<Longrightarrow> asg_State N = call_state \<and> asg_MBB N = None"
  by (auto simp: call_linked_asg_def call_edges_asg_def call_asg_def emptyASG_def newASGNode_def asg_getNode_def
      split: if_splits)

lemma call_join: "joinPreds MSP430Pipeline call_linked_asg Ps b call_state = call_state"
proof (induction Ps arbitrary: b)
  case (Cons P Ps)
  have "an_clone MSP430Pipeline call_state = call_state" "fst (an_join MSP430Pipeline call_state call_state) = call_state"
    by code_simp+
  then show ?case using Cons.IH call_node [of P] by (simp split: option.split)
qed simp

lemma call_visit:
  assumes "i \<notin> set Is"
  shows "visit_PG MSP430Pipeline (call_work (i # Is)) = call_work Is"
proof -
  have "an_equals MSP430Pipeline call_state call_state" by code_simp
  moreover have "insert i (set Is) - {i} = set Is" using assms by auto
  ultimately show ?thesis
    using call_node [of i] call_join
    by (simp add: visit_PG_def takeFromWorklist_def call_work_def updateState_def call_initial Let_def split: option.split)
qed

lemma call_loop: "distinct Is \<Longrightarrow> loop_PG MSP430Pipeline (call_work Is) = Some (call_work [])"
proof (induction Is)
  case Nil
  show ?case by (subst loop_PG.simps) (simp add: call_work_def)
next
  case (Cons i Is)
  have "Worklist (call_work (i # Is)) \<noteq> []" by (simp add: call_work_def)
  then have "loop_PG MSP430Pipeline (call_work (i # Is)) = loop_PG MSP430Pipeline (visit_PG MSP430Pipeline (call_work (i # Is)))"
    by (subst loop_PG.simps) simp
  then show ?case using Cons call_visit [of i Is] by simp
qed

lemma call_solved: "run_PG MSP430Pipeline (\<lambda>_. 0) call_graph newSolver = Some (call_work [])"
proof -
  let ?S = "\<lparr>ws_Graph = call_linked_asg, Worklist = [1], InWorklist = {1}\<rparr>"
  have "map fst (asg_Nodes call_linked_asg) = [0, 1, 2, 3, 4]"
    by (simp add: call_linked_asg_def call_edges_asg_def call_asg_def)
  moreover have "addAll [0, 1, 2, 3, 4] ?S = call_work [1, 0, 2, 3, 4]"
    by (auto simp: addToWorklist_def call_work_def)
  moreover have "asg_Nodes call_linked_asg \<noteq> []" by (simp add: call_linked_asg_def call_edges_asg_def call_asg_def)
  ultimately show ?thesis
    using call_loop [of "[1, 0, 2, 3, 4]"] unfolding run_PG_def call_copied Let_def by simp
qed

lemma call_wcetModel: "wcetModel call_linked_asg = call_model"
  by (simp add: wcetModel_def buildColumns_def call_eqs emptyModel_def addCol_def nodeRows_def flowInRow_def
    flowOutRow_def entryRow_def addRow_def call_model_def callRow_def returnCols_def)

definition call_highs :: "HighsModel \<Rightarrow> HighsAnswer" where
  "call_highs M = (if M = call_model
     then \<lparr>kOptimal = True, modelStatusToString = ''Optimal'', getObjectiveValue = 15,
           col_value = [1, 1, 1, 1, 1, 1, 1, 1, 0, 1]\<rparr>
     else \<lparr>kOptimal = False, modelStatusToString = ''Unknown'', getObjectiveValue = 0, col_value = []\<rparr>)"

lemma call_sound: "solver_sound call_highs"
  unfolding solver_sound_def
proof (intro allI impI)
  fix M assume k: "kOptimal (call_highs M)"
  then have M: "M = call_model" by (simp add: call_highs_def split: if_splits)
  have "objective call_model x \<le> 15" if f: "feasible call_model x" for x
  proof -
    have "x 0 = x 7" "x 0 = x 5" "x 1 = x 6" "x 1 = 1" "x 3 = x 6" "x 3 = x 7 + x 8" "x 4 = x 5 + x 8"
      using f by (simp_all add: feasible_def call_model_def row_holds_def row_value_def)
    moreover have "0 \<le> x 8"
      using f unfolding feasible_def by (auto simp: call_model_def dest: spec [of _ 8])
    moreover have "objective call_model x = 5 * x 0 + 7 * x 3 + 3 * x 4"
      by (simp add: objective_def call_model_def numeral_eq_Suc lessThan_Suc)
    ultimately show ?thesis by linarith
  qed
  moreover have "sense call_model = kMaximize" by (simp add: call_model_def)
  ultimately have "mip_optimal 0 M (call_highs M)"
    using k by (simp add: M mip_optimal_def) (simp add: call_highs_def)
  then show "\<exists>e < 1 / 2. mip_optimal e M (call_highs M)" by (intro exI [of _ 0]) simp
qed

definition call_done :: TimingAnalysisResults where
  "call_done = call_results\<lparr>MASG := call_graph\<rparr>"

lemma call_finish: "PathAnalysis_finish (\<lambda>_. 0) (Some call_highs) call_done = Some (ReportWCET 15 {} {})"
proof -
  have "llround 15 = 15" by (simp add: llround_def floor_eq_iff)
  moreover have "UnsoundExternalCallees call_graph = {}" by (simp add: with_caller_def emptyPG_def)
  ultimately show ?thesis
    using call_solved
    by (simp add: PathAnalysis_finish_def call_done_def call_results_def getTarget_def newTAR_def MSP430FR5994Target_def
      MSP430Target_def solveWCET_def call_highs_def Let_def getUnsoundReasons_def call_work_def call_wcetModel)
qed

subsection \<open>The module is filled in\<close>

lemma call_starts: "starts defaultOptions call_module caller_fun" "\<not> starts defaultOptions call_module callee_fun"
  "lastDefined call_module = Some 1"
  by (simp_all add: starts_def findStartFunction_def startStep_def call_module_def defaultOptions_def caller_fun_def
    callee_fun_def lastDefined_def)

lemma call_calls: "blockCalls call_block = [2]" "blockSymbols call_block = []" "landingBlock call_block = Some 11"
  "blockCalls (demo_block b ss r) = []" "blockSymbols (demo_block b ss r) = []"
  by (simp_all add: blockCalls_def blockSymbols_def landingBlock_def call_block_def demo_block_def calledFunction_def
    calledSymbol_def map_filter_simps)

lemma call_ok: "module_ok defaultOptions call_module call_steps"
proof -
  have "fn_shape caller_fun" "fn_shape callee_fun"
    by (simp_all add: fn_shape_def mf_wf_def calls_ok_def callLandings_def call_calls caller_fun_def callee_fun_def)
      (simp_all add: call_block_def demo_block_def calls_last_def landingBlock_def)
  then show ?thesis
    by (simp add: module_ok_def call_starts) (simp add: caller_fun_def callee_fun_def call_block_def demo_block_def call_results_def
      getMBBLatencyMap_def getTarget_def newTAR_def)
qed

lemma call_fill: "\<exists>S. fillModule defaultOptions call_module call_steps (newFillState, emptyPG) = Some (S, call_graph)"
proof -
  have r: "getMBBLatencyMap call_results = Some call_latency" "getTarget call_results = Some MSP430FR5994Target"
    "getLoopBoundMap call_results = (\<lambda>_. None)" "getIrreducibleBackEdges call_results = []"
    "getRecursionBoundMap call_results = []"
    by (simp_all add: call_results_def newTAR_def getMBBLatencyMap_def getTarget_def getLoopBoundMap_def
      getIrreducibleBackEdges_def getRecursionBoundMap_def)
  have f: "mf_function caller_fun = 1" "mf_function callee_fun = 2"
    by (simp_all add: caller_fun_def callee_fun_def)
  have "not_found defaultOptions newFillState" by (simp add: not_found_def newFillState_def)
  from FillMuGraph_step [OF this r(1,2), of call_module callee_fun "\<lambda>_. None" emptyPG]
  obtain S where S: "not_found defaultOptions S" "FillMuGraph_run defaultOptions call_module callee_fun (\<lambda>_. None)
      (newFillState, call_results\<lparr>MASG := emptyPG\<rparr>) = Some (S, call_results\<lparr>MASG := callee_graph\<rparr>)"
    by (auto simp: r call_starts callee_filled f)
  from FillMuGraph_step [OF S(1) r(1,2), of call_module caller_fun "\<lambda>_. None" callee_graph]
  obtain S' where "FillMuGraph_run defaultOptions call_module caller_fun (\<lambda>_. None)
      (S, call_results\<lparr>MASG := callee_graph\<rparr>) = Some (S', call_results\<lparr>MASG := call_graph\<rparr>)"
    using call_finalized by (auto simp: r call_starts caller_filled f)
  then show ?thesis using S(2) by simp
qed

end
