(* ===== verification/ModuleWCET.thy ===== *)
theory ModuleWCET
  imports CallExample
begin

text \<open>
  From the source of a module to the number printed. A run of the program is a run of the blocks
  of its functions with a call stack (\<open>prog_run\<close>); its cost is the sum of what its blocks cost.
  Every run is followed by an execution of the graph the graph pass leaves, node by node, call by
  call, return by return, at the same cost, so the value the path analysis reports bounds it.
\<close>

subsection \<open>The graph of a module\<close>

text \<open>C5: The graph pass over a whole module always succeeds and leaves a graph the analysis can rely on:
  when every function has the shape the call splitter and the back end give it, one of them is the
  start function and the last one is the last defined, filling in function by function and
  finalising with the last gives a well-formed graph with one entry that nothing leads to, alone in
  being named or having no predecessor, and with call sites that share no call or return edge.\<close>

theorem module_graph_ready:
  assumes "module_ok Opt M Steps"
  shows "\<exists>S G. fillModule Opt M Steps (newFillState, emptyPG) = Some (S, G) \<and> pg_ready G"
  using assms by (rule module_ready)

subsection \<open>Executions of the program\<close>

text \<open>A position is a block of a function; the stack holds the blocks whose call has not returned. A
  block ends with its call, its return or a jump to a successor. A call whose function the module
  does not define (a library, a symbol) has returned when its block is left. A call of a defined
  function that has no block to come back to never returns, and such a run does not end.\<close>

type_synonym Pos = "ModuleStep \<times> MachineBasicBlock"

definition calleeOf :: "ModuleStep list \<Rightarrow> MachineBasicBlock \<Rightarrow> ModuleStep option" where
  "calleeOf Steps B =
     (case blockCalls B of
        f # _ \<Rightarrow> List.find (\<lambda>St. stId St = f \<and> stBlocks St \<noteq> []) Steps
      | [] \<Rightarrow> None)"

inductive prog_step :: "ModuleStep list \<Rightarrow> Pos \<times> Pos list \<Rightarrow> Pos \<times> Pos list \<Rightarrow> bool" for Steps where
  jump: "calleeOf Steps B = None \<Longrightarrow> \<not> mbb_isReturnBlock B \<Longrightarrow> C \<in> set (stBlocks St) \<Longrightarrow>
     mbb_id C \<in> set (mbb_succs B) \<Longrightarrow> prog_step Steps ((St, B), stk) ((St, C), stk)"
| call: "calleeOf Steps B = Some K \<Longrightarrow> landingBlock B \<noteq> None \<Longrightarrow>
     prog_step Steps ((St, B), stk) ((K, hd (stBlocks K)), (St, B) # stk)"
| return: "mbb_isReturnBlock B \<Longrightarrow> C \<in> set (stBlocks H) \<Longrightarrow> landingBlock A = Some (mbb_id C) \<Longrightarrow>
     prog_step Steps ((St, B), (H, A) # stk) ((H, C), stk)"

inductive prog_run :: "ModuleStep list \<Rightarrow> Pos \<times> Pos list \<Rightarrow> Pos list \<Rightarrow> bool" for Steps where
  finish: "mbb_isReturnBlock B \<Longrightarrow> prog_run Steps ((St, B), []) [(St, B)]"
| go: "prog_step Steps (p, stk) (q, stk') \<Longrightarrow> prog_run Steps (q, stk') tr \<Longrightarrow> prog_run Steps (p, stk) (p # tr)"

inductive_cases prog_step_cases: "prog_step Steps (p, stk) (q, stk')"

text \<open>A run of the program starts in the start function and ends when that returns.\<close>

definition program_run :: "Options \<Rightarrow> ModuleInfo \<Rightarrow> ModuleStep list \<Rightarrow> Pos list \<Rightarrow> bool" where
  "program_run Opt M Steps tr \<longleftrightarrow>
     (\<exists>St \<in> set Steps. starts Opt M (stFun St) \<and> stBlocks St \<noteq> [] \<and>
        prog_run Steps ((St, hd (stBlocks St)), []) tr)"

text \<open>The cycles of a block: its latency and what the target charges for the call it ends with.\<close>

definition callCharge :: "FunctionInfo \<Rightarrow> ExternalCost \<Rightarrow> ModuleStep list \<Rightarrow> ptr \<Rightarrow> u32" where
  "callCharge env T Steps f =
     (if list_ex (\<lambda>St. stId St = f \<and> stBlocks St \<noteq> []) Steps \<or> \<not> fn_isDeclaration env f then 0
      else extCharge T (fn_name env f))"

definition blockCost :: "FunctionInfo \<Rightarrow> ExternalCost \<Rightarrow> ModuleStep list \<Rightarrow> Pos \<Rightarrow> u32" where
  "blockCost env T Steps p =
     blockLatency (fst p) (snd p) + (\<Sum>f \<leftarrow> blockCalls (snd p). callCharge env T Steps f) +
     (\<Sum>s \<leftarrow> blockSymbols (snd p). extCharge T s)"

definition run_cost :: "FunctionInfo \<Rightarrow> ExternalCost \<Rightarrow> ModuleStep list \<Rightarrow> Pos list \<Rightarrow> int" where
  "run_cost env T Steps tr = (\<Sum>p \<leftarrow> tr. uint (blockCost env T Steps p))"

text \<open>Nothing calls the start function: the code wires no call of it.\<close>

definition start_not_called :: "Options \<Rightarrow> ModuleInfo \<Rightarrow> ModuleStep list \<Rightarrow> bool" where
  "start_not_called Opt M Steps \<longleftrightarrow>
     (\<forall>St \<in> set Steps. \<forall>B \<in> set (stBlocks St). \<forall>K. calleeOf Steps B = Some K \<longrightarrow> \<not> starts Opt M (stFun K))"

lemma calleeOf_Some:
  "calleeOf Steps B = Some K \<Longrightarrow> K \<in> set Steps \<and> stBlocks K \<noteq> [] \<and> (\<exists>fs. blockCalls B = stId K # fs)"
  by (auto simp: calleeOf_def find_Some_iff split: list.splits)

lemma calleeOf_None:
  "calleeOf Steps B = None \<Longrightarrow> blockCalls B = [f] \<Longrightarrow> K \<in> set Steps \<Longrightarrow> stId K = f \<Longrightarrow> stBlocks K = []"
  unfolding calleeOf_def by (simp add: find_None_iff) (metis prod.collapse)

subsection \<open>The graph of the module\<close>

text \<open>What the theorems below use of a module through the graph pass: the filled graph \<open>G0\<close> and the
  finished one \<open>G\<close>, which has the wired graph's edges and costs on the nodes it keeps.\<close>

lemma sum_chargeAt: "(\<Sum>x \<leftarrow> xs. chargeAt (k x) (c x) i) = (\<Sum>x \<leftarrow> filter (\<lambda>x. k x = i) xs. c x)"
  by (induction xs) (simp_all add: chargeAt_def)

definition module_done ::
  "Options \<Rightarrow> ModuleInfo \<Rightarrow> ExternalCost \<Rightarrow> ModuleStep list \<Rightarrow> ProgramGraph \<Rightarrow> ProgramGraph \<Rightarrow> ProgramGraph \<Rightarrow> bool" where
  "module_done Opt M T Steps G0 H G \<longleftrightarrow>
     module_inv (stId ` set Steps) G0 \<and> HasEntryNode G0 \<and>
     (\<forall>St \<in> set Steps. fn_shape (stFun St) \<and> rep_fn G0 St \<and> (starts Opt M (stFun St) \<longrightarrow> rep_start G0 St)) \<and>
     pg_ready G \<and> finalized G0 G \<and> completes (mod_Functions M) T G0 H G"

lemma module_done_intro:
  assumes ok: "module_ok Opt M Steps" and run: "fillModule Opt M Steps (newFillState, emptyPG) = Some (S, G)"
    and T: "getTarget (snd (snd (last Steps))) = Some Tg"
  shows "\<exists>G0 H. module_done Opt M (Some (rt_getExternalCallCost Tg)) Steps G0 H G"
proof -
  obtain G0 where f: "module_filled Opt M Steps G0 G" using module_fills [OF ok] run by auto
  note m = f [unfolded module_filled_def]
  have inv: "module_inv (stId ` set Steps) G0" and en: "HasEntryNode G0" using m by simp_all
  have fin: "finalize (mod_Functions M) (Some (rt_getExternalCallCost Tg))
      (map_of (getRecursionBoundMap (snd (snd (last Steps))))) G0 = Some G" using m T by auto
  have "pg_wf G0" "EntryNodeId G0 \<in> node_ids G0" using inv en by (simp_all add: module_inv_def entry_apart_def)
  then obtain H where "completes (mod_Functions M) (Some (rt_getExternalCallCost Tg)) G0 H G"
    using finalize_completes [OF _ module_inv_sites [OF inv] en _ fin] by blast
  moreover have "pg_ready G" by (rule filled_ready [OF f])
  moreover have "finalized G0 G" using finalize_ready [OF inv en] fin by (metis option.inject)
  moreover have "fn_shape (stFun St)" if "St \<in> set Steps" for St
    using ok that by (auto simp: module_ok_def list_all_iff)
  ultimately show ?thesis using m by (auto simp: module_done_def)
qed

text \<open>A module whose start function has a body and is called by nobody, through the graph pass.\<close>

definition linked ::
  "Options \<Rightarrow> ModuleInfo \<Rightarrow> ExternalCost \<Rightarrow> ModuleStep list \<Rightarrow> ProgramGraph \<Rightarrow> ProgramGraph \<Rightarrow> ProgramGraph \<Rightarrow> bool" where
  "linked Opt M T Steps G0 H G \<longleftrightarrow>
     module_done Opt M T Steps G0 H G \<and> distinct (map stId Steps) \<and> start_not_called Opt M Steps \<and>
     (\<exists>St \<in> set Steps. starts Opt M (stFun St) \<and> stBlocks St \<noteq> [])"

definition placed :: "ModuleStep list \<Rightarrow> ProgramGraph \<Rightarrow> Pos \<Rightarrow> bool" where
  "placed Steps G p \<longleftrightarrow>
     fst p \<in> set Steps \<and> snd p \<in> set (stBlocks (fst p)) \<and> nodeAt G (snd p) \<in> node_ids G"

lemma same_step: "distinct (map stId Steps) \<Longrightarrow> K \<in> set Steps \<Longrightarrow> L \<in> set Steps \<Longrightarrow> stId K = stId L \<Longrightarrow> K = L"
  by (simp add: distinct_map inj_on_def)

lemma linkedD:
  assumes "linked Opt M T Steps G0 H G"
  shows "module_inv (stId ` set Steps) G0" "HasEntryNode G0" "pg_ready G" "pg_wf G" "distinct (map stId Steps)"
    "blockMap G = blockMap G0" "CallSites G = CallSites G0" "returnNodes G = returnNodes G0"
    "FunctionToEntryNodeMap G = FunctionToEntryNodeMap G0" "EntryNodeId G = EntryNodeId G0"
    "\<And>St. St \<in> set Steps \<Longrightarrow> fn_shape (stFun St)" "\<And>St. St \<in> set Steps \<Longrightarrow> rep_fn G0 St"
    "\<And>St. St \<in> set Steps \<Longrightarrow> starts Opt M (stFun St) \<Longrightarrow> rep_start G0 St"
    "\<And>a. a \<in> node_ids G \<Longrightarrow> succs G0 a \<subseteq> succs G a"
    "\<And>a. a \<in> node_ids G \<Longrightarrow> map_option nd_Name (node_at G a) = map_option nd_Name (node_at G0 a)"
    "\<And>CS. CS \<in> set (CallSites G) \<Longrightarrow> wired G0 H CS"
    "\<And>a. a \<in> node_ids G \<Longrightarrow> succs G a = succs H a"
    "\<And>a. a \<in> node_ids G \<Longrightarrow>
       cycles G a = map_option (\<lambda>c. c + finalCharge (mod_Functions M) T G0 a) (cycles G0 a)"
proof -
  have dn: "module_done Opt M T Steps G0 H G" and ds: "distinct (map stId Steps)" using assms by (simp_all add: linked_def)
  have fin: "finalized G0 G" and cm: "completes (mod_Functions M) T G0 H G" and r: "pg_ready G"
    using dn by (simp_all add: module_done_def)
  show "module_inv (stId ` set Steps) G0" "HasEntryNode G0" "pg_ready G" "distinct (map stId Steps)"
    "\<And>St. St \<in> set Steps \<Longrightarrow> fn_shape (stFun St)" "\<And>St. St \<in> set Steps \<Longrightarrow> rep_fn G0 St"
    "\<And>St. St \<in> set Steps \<Longrightarrow> starts Opt M (stFun St) \<Longrightarrow> rep_start G0 St"
    using dn ds by (simp_all add: module_done_def)
  show "pg_wf G" using r by (simp add: pg_ready_def)
  show "blockMap G = blockMap G0" "CallSites G = CallSites G0" "returnNodes G = returnNodes G0"
    "FunctionToEntryNodeMap G = FunctionToEntryNodeMap G0" "EntryNodeId G = EntryNodeId G0"
    "\<And>a. a \<in> node_ids G \<Longrightarrow> succs G0 a \<subseteq> succs G a"
    "\<And>a. a \<in> node_ids G \<Longrightarrow> map_option nd_Name (node_at G a) = map_option nd_Name (node_at G0 a)"
    using fin by (simp_all add: finalized_def fun_eq_iff)
  show "\<And>CS. CS \<in> set (CallSites G) \<Longrightarrow> wired G0 H CS"
    using fin cm by (simp add: finalized_def completes_def)
  show "\<And>a. a \<in> node_ids G \<Longrightarrow> succs G a = succs H a"
    "\<And>a. a \<in> node_ids G \<Longrightarrow>
       cycles G a = map_option (\<lambda>c. c + finalCharge (mod_Functions M) T G0 a) (cycles G0 a)"
    using cm by (simp_all add: completes_def)
qed

text \<open>The functions with an entry node are those with a body.\<close>

lemma entry_iff:
  assumes "linked Opt M T Steps G0 H G"
  shows "map_of (FunctionToEntryNodeMap G0) f = Some n \<longleftrightarrow>
    (\<exists>K \<in> set Steps. stId K = f \<and> stBlocks K \<noteq> [] \<and> n = nodeAt G (hd (stBlocks K)))" (is "?l \<longleftrightarrow> ?r")
proof
  note d = linkedD [OF assms]
  note inv = d(1) [unfolded module_inv_def nodes_owned_def]
  assume ?l
  then have "nodeFun G0 n = Some f" using inv by blast
  then have "f \<in> ran (nodeFun G0)" by (rule ranI)
  then obtain K where K: "K \<in> set Steps" "stId K = f" using inv by blast
  then show ?r using d(12) [OF K(1)] \<open>?l\<close> by (auto simp: rep_fn_def d(6) split: if_splits)
next
  note d = linkedD [OF assms]
  assume ?r
  then show ?l using d(12) by (auto simp: rep_fn_def d(6))
qed

lemma start_step:
  assumes "linked Opt M T Steps G0 H G"
  shows "\<exists>St \<in> set Steps. starts Opt M (stFun St) \<and> stBlocks St \<noteq> [] \<and> StartFunction G0 = Some (stId St)"
  using assms linkedD(13) [OF assms] by (auto simp: linked_def rep_start_def)

text \<open>A block and its node.\<close>

lemma placedD:
  assumes l: "linked Opt M T Steps G0 H G" and p: "placed Steps G (St, B)"
  shows "St \<in> set Steps" "B \<in> set (stBlocks St)" "nodeAt G B \<in> node_ids G" "rep_block St G0 B"
    "blockMap G (mbb_id B) = Some (nodeAt G B)" "nodeFun G0 (nodeAt G B) = Some (stId St)"
    "nodeAt G ` {C \<in> set (stBlocks St). mbb_id C \<in> set (mbb_succs B)} \<subseteq> succs G (nodeAt G B)"
    "filter (\<lambda>CS. CallNode CS = nodeAt G B) (CallSites G) = blockSites (blockMap G) B"
    "blockCalls B = [] \<or> (\<exists>F. blockCalls B = [F])"
proof -
  note d = linkedD [OF l]
  show q: "St \<in> set Steps" "B \<in> set (stBlocks St)" "nodeAt G B \<in> node_ids G" using p by (simp_all add: placed_def)
  show r: "rep_block St G0 B" using d(12) [OF q(1)] q(2) by (simp add: rep_fn_def)
  show "blockMap G (mbb_id B) = Some (nodeAt G B)" "nodeFun G0 (nodeAt G B) = Some (stId St)"
    "filter (\<lambda>CS. CallNode CS = nodeAt G B) (CallSites G) = blockSites (blockMap G) B"
    using r by (simp_all add: rep_block_def d(6,7))
  have "nodeAt G ` {C \<in> set (stBlocks St). mbb_id C \<in> set (mbb_succs B)} \<subseteq> succs G0 (nodeAt G B)"
    using r by (simp add: rep_block_def d(6))
  then show "nodeAt G ` {C \<in> set (stBlocks St). mbb_id C \<in> set (mbb_succs B)} \<subseteq> succs G (nodeAt G B)"
    using d(14) [OF q(3)] by blast
  show "blockCalls B = [] \<or> (\<exists>F. blockCalls B = [F])" by (rule one_block_call [OF d(11) [OF q(1)] q(2)])
qed

text \<open>The cycles of a block's node are the cost of the block.\<close>

lemma callee_charge:
  assumes l: "linked Opt M T Steps G0 H G"
  shows "calleeCharge env T G0 f = callCharge env T Steps f"
proof -
  have a: "map_of (FunctionToEntryNodeMap G0) f \<noteq> None \<longleftrightarrow> list_ex (\<lambda>St. stId St = f \<and> stBlocks St \<noteq> []) Steps"
    using entry_iff [OF l] by (auto simp: list_ex_iff)
  have b: "StartFunction G0 = Some f \<Longrightarrow> list_ex (\<lambda>St. stId St = f \<and> stBlocks St \<noteq> []) Steps"
    using start_step [OF l] by (auto simp: list_ex_iff)
  show ?thesis unfolding calleeCharge_def callCharge_def a using b by auto
qed

lemma placed_cost:
  assumes l: "linked Opt M T Steps G0 H G" and p: "placed Steps G (St, B)"
  shows "cycles G (nodeAt G B) = Some (blockCost (mod_Functions M) T Steps (St, B))"
proof -
  note d = linkedD [OF l] and b = placedD [OF l p]
  have r: "cycles G0 (nodeAt G B) = Some (blockLatency St B)"
    "filter (\<lambda>q. fst q = nodeAt G B) (ExternalSymbolCallSites G0) = map (Pair (nodeAt G B)) (blockSymbols B)"
    using b(4) by (simp_all add: rep_block_def d(6))
  have s: "filter (\<lambda>CS. CallNode CS = nodeAt G B) (CallSites G0) = blockSites (blockMap G) B"
    using b(8) by (simp add: d(7))
  have "finalCharge (mod_Functions M) T G0 (nodeAt G B) =
      (\<Sum>f \<leftarrow> blockCalls B. callCharge (mod_Functions M) T Steps f) + (\<Sum>s \<leftarrow> blockSymbols B. extCharge T s)"
    unfolding finalCharge_def sum_chargeAt r(2) s
    by (simp add: blockSites_def comp_def siteOf_def Let_def callee_charge [OF l])
  then show ?thesis by (simp add: d(18) [OF b(3)] r(1) blockCost_def add.assoc)
qed

subsection \<open>Every step of the program is an edge\<close>

text \<open>The call site a pending block has left, and the stack of pending calls.\<close>

definition frameSite :: "ProgramGraph \<Rightarrow> Pos \<Rightarrow> CallSite" where
  "frameSite G p = siteOf (blockMap G) (snd p) (hd (blockCalls (snd p)))"

fun stack_ok :: "Options \<Rightarrow> ModuleInfo \<Rightarrow> ModuleStep list \<Rightarrow> ProgramGraph \<Rightarrow> ModuleStep \<Rightarrow> Pos list \<Rightarrow> bool" where
  "stack_ok Opt M Steps G St [] \<longleftrightarrow> starts Opt M (stFun St)"
| "stack_ok Opt M Steps G St ((K, A) # stk) \<longleftrightarrow>
     placed Steps G (K, A) \<and> calleeOf Steps A = Some St \<and> landingBlock A \<noteq> None \<and>
     stack_ok Opt M Steps G K stk"

lemma wiredD:
  "wired G H CS \<Longrightarrow> StartFunction G \<noteq> Some (Callee CS) \<Longrightarrow> map_of (FunctionToEntryNodeMap G) (Callee CS) = Some n \<Longrightarrow>
     n \<in> succs H (CallNode CS)"
  "wired G H CS \<Longrightarrow> StartFunction G \<noteq> Some (Callee CS) \<Longrightarrow> map_of (FunctionToEntryNodeMap G) (Callee CS) = Some n \<Longrightarrow>
     HasLanding CS \<Longrightarrow> R \<in> set (returnNodes G (Callee CS)) \<Longrightarrow> LandingNode CS \<in> succs H R"
  by (simp_all add: wired_def)

lemma siteOf_fields: "CallNode (siteOf m B f) = nodeFor m B" "Callee (siteOf m B f) = f"
  by (simp_all add: siteOf_def Let_def)

lemma site_node: "CS \<in> set (pg_sites G) \<Longrightarrow> e \<in> set (pg_callEdges G CS) \<Longrightarrow> CallNode CS = fst e"
  by (auto simp: pg_callEdges_def split: option.splits if_splits)

lemma call_site:
  assumes l: "linked Opt M T Steps G0 H G" and p: "placed Steps G (St, B)"
    and CS: "CS \<in> set (CallSites G)" "CallNode CS = nodeAt G B"
  shows "\<exists>f. blockCalls B = [f] \<and> CS = siteOf (blockMap G) B f"
proof -
  note b = placedD [OF l p]
  have "CS \<in> set (blockSites (blockMap G) B)" unfolding b(8) [symmetric] using CS by simp
  then show ?thesis using b(9) by (auto simp: blockSites_def)
qed

text \<open>Only a block that calls has a call edge, only a block that returns a return edge.\<close>

lemma call_edge_from:
  assumes l: "linked Opt M T Steps G0 H G" and p: "placed Steps G (St, B)"
    and CS: "CS \<in> set (pg_sites G)" "(nodeAt G B, x) \<in> set (pg_callEdges G CS)"
  shows "\<exists>K. calleeOf Steps B = Some K \<and> CS = frameSite G (St, B)"
proof -
  note d = linkedD [OF l]
  have "CS \<in> set (CallSites G)" "CallNode CS = nodeAt G B"
    using CS site_node [OF CS] by (simp_all add: pg_sites_def)
  then obtain f where f: "blockCalls B = [f]" "CS = siteOf (blockMap G) B f" using call_site [OF l p] by blast
  have "map_of (FunctionToEntryNodeMap G0) f \<noteq> None"
    using CS(2) by (cases "map_of (FunctionToEntryNodeMap G0) f") (simp_all add: f(2) d(9) pg_callEdges_def siteOf_fields)
  then obtain n where "map_of (FunctionToEntryNodeMap G0) f = Some n" by blast
  then obtain K where "K \<in> set Steps" "stId K = f" "stBlocks K \<noteq> []" using entry_iff [OF l] by blast
  then have "calleeOf Steps B \<noteq> None" using calleeOf_None [OF _ f(1)] by blast
  then show ?thesis using f by (auto simp: frameSite_def)
qed

lemma return_edge_from:
  assumes l: "linked Opt M T Steps G0 H G" and p: "placed Steps G (St, B)"
    and CS: "(nodeAt G B, x) \<in> set (pg_returnEdges G CS)"
  shows "mbb_isReturnBlock B"
proof -
  note d = linkedD [OF l] and b = placedD [OF l p]
  have n: "nodeAt G B \<in> set (returnNodes G0 (Callee CS))" using CS by (auto simp: pg_returnEdges_def d(8))
  moreover have "nodes_owned G0" using d(1) by (simp add: module_inv_def)
  ultimately have "nodeFun G0 (nodeAt G B) = Some (Callee CS)" unfolding nodes_owned_def by blast
  then have "Callee CS = stId St" using b(6) by simp
  then have "nodeAt G B \<in> nodeAt G ` set (filter mbb_isReturnBlock (stBlocks St))"
    using n d(12) [OF b(1)] by (simp add: rep_fn_def d(6))
  moreover have "inj_on (nodeAt G) (set (stBlocks St))" using d(12) [OF b(1)] by (simp add: rep_fn_def d(6))
  ultimately show ?thesis using b(2) by (auto dest: inj_onD)
qed

lemma no_call_edge:
  assumes "linked Opt M T Steps G0 H G" "placed Steps G (St, B)" "calleeOf Steps B = None"
  shows "List.find (\<lambda>CS. (nodeAt G B, x) \<in> set (pg_callEdges G CS)) (pg_sites G) = None"
  using call_edge_from [OF assms(1,2)] assms(3) by (fastforce simp: find_None_iff)

lemma no_return_edge:
  assumes "linked Opt M T Steps G0 H G" "placed Steps G (St, B)" "\<not> mbb_isReturnBlock B"
  shows "\<not> list_ex (\<lambda>CS. (nodeAt G B, x) \<in> set (pg_returnEdges G CS)) (pg_sites G)"
  using return_edge_from [OF assms(1,2)] assms(3) by (auto simp: list_ex_iff)

text \<open>The site of a call of a function with a body: its edges are in the graph, and its landing node is
  the node of the block control comes back to.\<close>

lemma call_edges:
  assumes l: "linked Opt M T Steps G0 H G" and p: "placed Steps G (St, B)"
    and K: "calleeOf Steps B = Some K" and L: "landingBlock B = Some L"
  shows "placed Steps G (K, hd (stBlocks K))" "nodeAt G (hd (stBlocks K)) \<in> succs G (nodeAt G B)"
    "frameSite G (St, B) \<in> set (pg_sites G)"
    "(nodeAt G B, nodeAt G (hd (stBlocks K))) \<in> set (pg_callEdges G (frameSite G (St, B)))"
    "\<And>R C. placed Steps G (K, R) \<Longrightarrow> mbb_isReturnBlock R \<Longrightarrow> C \<in> set (stBlocks St) \<Longrightarrow> mbb_id C = L \<Longrightarrow>
       placed Steps G (St, C) \<and> nodeAt G C \<in> succs G (nodeAt G R) \<and>
       (nodeAt G R, nodeAt G C) \<in> set (pg_returnEdges G (frameSite G (St, B)))"
proof -
  note d = linkedD [OF l] and b = placedD [OF l p]
  let ?CS = "frameSite G (St, B)" and ?E = "hd (stBlocks K)"
  have k: "K \<in> set Steps" "stBlocks K \<noteq> []" "blockCalls B = [stId K]"
    using calleeOf_Some [OF K] b(9) by auto
  have CS: "?CS = siteOf (blockMap G) B (stId K)" by (simp add: frameSite_def k(3))
  have "?CS \<in> set (blockSites (blockMap G) B)" by (simp add: CS blockSites_def k(3))
  then have s: "?CS \<in> set (CallSites G)" unfolding b(8) [symmetric] by simp
  have sh: "fn_shape (stFun St)" by (rule d(11) [OF b(1)])
  have land: "placed Steps G (St, C) \<and> LandingNode ?CS = nodeAt G C \<and> HasLanding ?CS"
    if C: "C \<in> set (stBlocks St)" "mbb_id C = L" for C
  proof -
    have "mbb_id C \<in> set (mbb_succs B)" using landing_succ [OF sh b(2) L] C(2) by simp
    then have "nodeAt G C \<in> succs G (nodeAt G B)" using b(7) C(1) by blast
    then have "nodeAt G C \<in> node_ids G" using pg_wf_succs_exist [OF d(4)] by blast
    then have pc: "placed Steps G (St, C)" using b(1) C(1) by (simp add: placed_def)
    then have "blockMap G L = Some (nodeAt G C)" using placedD(5) [OF l] C(2) by blast
    then show ?thesis using pc by (simp add: CS siteOf_def L)
  qed
  obtain C0 where C0: "C0 \<in> set (stBlocks St)" "mbb_id C0 = L" using landing_in [OF sh b(2) L] by blast
  note l0 = land [OF C0]
  show site: "?CS \<in> set (pg_sites G)"
    using s l0 b(3) by (simp add: pg_sites_def placed_def) (simp add: CS siteOf_fields)
  have en: "map_of (FunctionToEntryNodeMap G0) (stId K) = Some (nodeAt G ?E)"
    using entry_iff [OF l] k by blast
  have ns: "StartFunction G0 \<noteq> Some (stId K)"
  proof
    assume a: "StartFunction G0 = Some (stId K)"
    obtain S where S: "S \<in> set Steps" "starts Opt M (stFun S)" "StartFunction G0 = Some (stId S)"
      using start_step [OF l] by blast
    then have "stId S = stId K" using a by simp
    then have "S = K" by (rule same_step [OF d(5) S(1) k(1)])
    moreover have "\<not> starts Opt M (stFun K)"
      using l K b(1,2) unfolding linked_def start_not_called_def by blast
    ultimately show False using S(2) by simp
  qed
  have w: "wired G0 H ?CS" by (rule d(16) [OF s])
  have cs: "CallNode ?CS = nodeAt G B" "Callee ?CS = stId K" by (simp_all add: CS siteOf_fields)
  have "nodeAt G ?E \<in> succs H (nodeAt G B)" using wiredD(1) [OF w] ns en by (simp add: cs)
  then show e: "nodeAt G ?E \<in> succs G (nodeAt G B)" by (simp add: d(17) [OF b(3)])
  then have ei: "nodeAt G ?E \<in> node_ids G" using pg_wf_succs_exist [OF d(4)] by blast
  then show "placed Steps G (K, ?E)" using k by (simp add: placed_def)
  show "(nodeAt G B, nodeAt G ?E) \<in> set (pg_callEdges G ?CS)"
    by (simp add: pg_callEdges_def cs d(9) en ei)
  show "placed Steps G (St, C) \<and> nodeAt G C \<in> succs G (nodeAt G R) \<and> (nodeAt G R, nodeAt G C) \<in> set (pg_returnEdges G ?CS)"
    if R: "placed Steps G (K, R)" "mbb_isReturnBlock R" and C: "C \<in> set (stBlocks St)" "mbb_id C = L" for R C
  proof -
    note r = placedD [OF l R(1)] and lc = land [OF C]
    have m: "nodeAt G R \<in> set (returnNodes G0 (stId K))"
      using d(12) [OF k(1)] r(2) R(2) by (simp add: rep_fn_def d(6))
    then have "nodeAt G C \<in> succs H (nodeAt G R)" using wiredD(2) [OF w] ns en lc by (simp add: cs)
    moreover have "(nodeAt G R, nodeAt G C) \<in> set (pg_returnEdges G ?CS)"
      using m lc r(3) by (auto simp: pg_returnEdges_def cs d(8))
    ultimately show ?thesis using lc by (simp add: d(17) [OF r(3)])
  qed
qed

subsection \<open>Every run is an execution of the graph\<close>

abbreviation graph_run :: "ProgramGraph \<Rightarrow> CallSite list \<Rightarrow> (nat \<times> nat) list \<Rightarrow> CallSite list option" where
  "graph_run G \<equiv> matched (pg_callEdges G) (pg_returnEdges G) (pg_sites G)"

lemma find_unique: "x \<in> set xs \<Longrightarrow> P x \<Longrightarrow> (\<And>y. y \<in> set xs \<Longrightarrow> P y \<Longrightarrow> y = x) \<Longrightarrow> List.find P xs = Some x"
proof (induction xs)
  case (Cons y xs)
  show ?case
  proof (cases "P y")
    case True
    then have "y = x" by (intro Cons.prems(3)) simp
    then show ?thesis using True by simp
  next
    case False
    then have "x \<in> set xs" using Cons.prems(1,2) by (cases "x = y") simp_all
    then have "List.find P xs = Some x" by (intro Cons.IH Cons.prems) simp_all
    then show ?thesis using False by simp
  qed
qed simp

lemma matched_append:
  "matched ce re Cs stk (es @ fs) = Option.bind (matched ce re Cs stk es) (\<lambda>stk. matched ce re Cs stk fs)"
proof (induction es arbitrary: stk)
  case (Cons e es)
  show ?case
  proof (cases "List.find (\<lambda>CS. e \<in> set (ce CS)) Cs")
    case None
    then show ?thesis using Cons.IH by (cases stk) simp_all
  next
    case (Some CS)
    then show ?thesis using Cons.IH by simp
  qed
qed simp

lemma steps_step: "steps [a] = []" "steps (a # b # p) = (a, b) # steps (b # p)"
  by (simp_all add: steps_def)

lemma return_no_call:
  assumes "linked Opt M T Steps G0 H G" "placed Steps G (St, B)" "mbb_isReturnBlock B"
  shows "calleeOf Steps B = None"
proof -
  have "blockCalls B = []"
    using linkedD(11) [OF assms(1), of St] placedD(1,2) [OF assms(1,2)] assms(3) by (simp add: fn_shape_def)
  then show ?thesis by (simp add: calleeOf_def)
qed

lemma step_follows:
  assumes l: "linked Opt M T Steps G0 H G" and p: "placed Steps G (St, B)" and k: "stack_ok Opt M Steps G St stk"
    and s: "prog_step Steps ((St, B), stk) ((St', C), stk')"
  shows "placed Steps G (St', C) \<and> stack_ok Opt M Steps G St' stk' \<and> nodeAt G C \<in> succs G (nodeAt G B) \<and>
    (\<forall>es. graph_run G (map (frameSite G) stk) ((nodeAt G B, nodeAt G C) # es) = graph_run G (map (frameSite G) stk') es)"
proof -
  consider (jump) "St' = St" "stk' = stk" "calleeOf Steps B = None" "\<not> mbb_isReturnBlock B" "C \<in> set (stBlocks St)"
      "mbb_id C \<in> set (mbb_succs B)"
    | (call) "C = hd (stBlocks St')" "stk' = (St, B) # stk" "calleeOf Steps B = Some St'" "landingBlock B \<noteq> None"
    | (return) H A where "H = St'" "stk = (St', A) # stk'" "mbb_isReturnBlock B" "C \<in> set (stBlocks St')"
      "landingBlock A = Some (mbb_id C)"
    using s by (cases rule: prog_step_cases) auto
  then show ?thesis
  proof cases
  case jump
  note b = placedD [OF l p]
  have e: "nodeAt G C \<in> succs G (nodeAt G B)" using b(7) jump by blast
  then have "nodeAt G C \<in> node_ids G" using pg_wf_succs_exist [OF linkedD(4) [OF l]] by blast
  then have "placed Steps G (St', C)" using b(1) jump by (simp add: placed_def)
  then show ?thesis
    using e k jump no_call_edge [OF l p] no_return_edge [OF l p] by simp
next
  case call
  then obtain L where K: "calleeOf Steps B = Some St'" and L: "landingBlock B = Some L" by auto
  note c = call_edges [OF l p K L]
  have "List.find (\<lambda>CS. (nodeAt G B, nodeAt G C) \<in> set (pg_callEdges G CS)) (pg_sites G) = Some (frameSite G (St, B))"
  proof (rule find_unique [OF c(3)])
    show "(nodeAt G B, nodeAt G C) \<in> set (pg_callEdges G (frameSite G (St, B)))" using c(4) call(1) by simp
    show "CS = frameSite G (St, B)"
      if "CS \<in> set (pg_sites G)" "(nodeAt G B, nodeAt G C) \<in> set (pg_callEdges G CS)" for CS
      using call_edge_from [OF l p that] by blast
  qed
  then show ?thesis using c(1,2) call k p K by simp
next
  case (return H A)
  have q: "placed Steps G (St', A)" "calleeOf Steps A = Some St" "stack_ok Opt M Steps G St' stk'"
    using k return by simp_all
  obtain L where L: "landingBlock A = Some L" "mbb_id C = L" using return by blast
  note c = call_edges [OF l q(1,2) L(1)]
  have r: "placed Steps G (St', C)" "nodeAt G C \<in> succs G (nodeAt G B)"
    "(nodeAt G B, nodeAt G C) \<in> set (pg_returnEdges G (frameSite G (St', A)))"
    using c(5) [OF p] return L(2) by simp_all
  have "list_ex (\<lambda>CS. (nodeAt G B, nodeAt G C) \<in> set (pg_returnEdges G CS)) (pg_sites G)"
    using r(3) c(3) by (auto simp: list_ex_iff)
  moreover have "calleeOf Steps B = None" using return_no_call [OF l p] return by simp
  ultimately show ?thesis using r q(3) return no_call_edge [OF l p] by simp
  qed
qed

definition nodesOf :: "ProgramGraph \<Rightarrow> Pos list \<Rightarrow> nat list" where
  "nodesOf G tr = map (\<lambda>p. nodeAt G (snd p)) tr"

lemma run_follows:
  assumes l: "linked Opt M T Steps G0 H G" and r: "prog_run Steps (p, stk) tr"
  shows "placed Steps G p \<Longrightarrow> stack_ok Opt M Steps G (fst p) stk \<Longrightarrow>
    tr \<noteq> [] \<and> hd tr = p \<and> (\<forall>q \<in> set tr. placed Steps G q) \<and>
    (\<forall>(a, b) \<in> set (steps (nodesOf G tr)). b \<in> succs G a) \<and>
    mbb_isReturnBlock (snd (last tr)) \<and> starts Opt M (stFun (fst (last tr))) \<and>
    graph_run G (map (frameSite G) stk) (steps (nodesOf G tr)) = Some []"
  using r
proof (induction "(p, stk)" tr arbitrary: p stk rule: prog_run.induct)
  case (finish B St)
  then show ?case by (simp add: nodesOf_def steps_step)
next
  case (go p stk q stk' tr)
  obtain St B St' C where pq: "p = (St, B)" "q = (St', C)" by (cases p; cases q) auto
  have f: "placed Steps G q \<and> stack_ok Opt M Steps G (fst q) stk' \<and> nodeAt G C \<in> succs G (nodeAt G B) \<and>
    (\<forall>es. graph_run G (map (frameSite G) stk) ((nodeAt G B, nodeAt G C) # es) = graph_run G (map (frameSite G) stk') es)"
    using step_follows [OF l, of St B stk St' C stk'] go.prems go.hyps(1) by (simp add: pq)
  then have IH: "tr \<noteq> [] \<and> hd tr = q \<and> (\<forall>q \<in> set tr. placed Steps G q) \<and>
    (\<forall>(a, b) \<in> set (steps (nodesOf G tr)). b \<in> succs G a) \<and>
    mbb_isReturnBlock (snd (last tr)) \<and> starts Opt M (stFun (fst (last tr))) \<and>
    graph_run G (map (frameSite G) stk') (steps (nodesOf G tr)) = Some []"
    using go.hyps(3) by blast
  then obtain tr' where tr: "tr = q # tr'" by (cases tr) auto
  have "steps (nodesOf G (p # tr)) = (nodeAt G B, nodeAt G C) # steps (nodesOf G tr)"
    by (simp add: nodesOf_def tr pq steps_step)
  then show ?case using IH f go.prems by simp
qed

text \<open>The nodes of a run, between the entry and an exit.\<close>

definition module_path :: "ProgramGraph \<Rightarrow> Pos list \<Rightarrow> nat \<Rightarrow> nat list" where
  "module_path G tr x = EntryNodeId G # nodesOf G tr @ [x]"

lemma steps_snoc: "p \<noteq> [] \<Longrightarrow> steps (p @ [x]) = steps p @ [(last p, x)]"
proof (induction p)
  case (Cons a p)
  then show ?case by (cases p) (simp_all add: steps_step)
qed simp

lemma steps_path:
  assumes "tr \<noteq> []"
  shows "steps (module_path G tr x) =
     (EntryNodeId G, nodeAt G (snd (hd tr))) # steps (nodesOf G tr) @ [(nodeAt G (snd (last tr)), x)]"
proof -
  have n: "nodesOf G tr \<noteq> []" "last (nodesOf G tr) = nodeAt G (snd (last tr))"
    using assms by (simp_all add: nodesOf_def last_map)
  have "\<exists>ns. nodesOf G tr = nodeAt G (snd (hd tr)) # ns"
    using assms by (cases tr) (simp_all add: nodesOf_def)
  then obtain ns where "nodesOf G tr = nodeAt G (snd (hd tr)) # ns" ..
  then have "steps (module_path G tr x) = (EntryNodeId G, nodeAt G (snd (hd tr))) # steps (nodesOf G tr @ [x])"
    by (simp add: module_path_def steps_step)
  then show ?thesis by (simp only: steps_snoc [OF n(1)] n(2))
qed

text \<open>The entry and the exit belong to no function: no call edge leaves the one, no return edge leads
  to the other.\<close>

lemma owned_edges:
  assumes l: "linked Opt M T Steps G0 H G" and CS: "CS \<in> set (pg_sites G)"
  shows "e \<in> set (pg_callEdges G CS) \<Longrightarrow> nodeFun G0 (fst e) \<noteq> None"
    "e \<in> set (pg_returnEdges G CS) \<Longrightarrow> nodeFun G0 (fst e) \<noteq> None \<and> nodeFun G0 (snd e) \<noteq> None"
proof -
  note d = linkedD [OF l]
  have own: "nodes_owned G0" using d(1) by (simp add: module_inv_def)
  have s: "CS \<in> set (CallSites G0)" "HasLanding CS" using CS by (simp_all add: pg_sites_def d(7))
  have "CallNode CS \<in> dom (nodeFun G0)" "LandingNode CS \<in> dom (nodeFun G0)"
    using own s unfolding nodes_owned_def by blast+
  then have f: "nodeFun G0 (CallNode CS) \<noteq> None" "nodeFun G0 (LandingNode CS) \<noteq> None" by (simp_all add: domIff)
  show "nodeFun G0 (fst e) \<noteq> None" if "e \<in> set (pg_callEdges G CS)"
    using f(1) site_node [OF CS that] by simp
  show "nodeFun G0 (fst e) \<noteq> None \<and> nodeFun G0 (snd e) \<noteq> None" if e: "e \<in> set (pg_returnEdges G CS)"
  proof -
    have "fst e \<in> set (returnNodes G0 (Callee CS))" "snd e = LandingNode CS"
      using e by (auto simp: pg_returnEdges_def d(8))
    moreover from this(1) have "nodeFun G0 (fst e) = Some (Callee CS)" using own unfolding nodes_owned_def by blast
    ultimately show ?thesis using f(2) by simp
  qed
qed

lemma run_execution:
  assumes l: "linked Opt M T Steps G0 H G" and r: "program_run Opt M Steps tr"
  shows "\<exists>x. pg_is_exit G x \<and> (pg_loops_bounded Indet G (module_path G tr x) \<longrightarrow> pg_execution Indet G (module_path G tr x)) \<and>
    run_cost (mod_Functions M) T Steps tr \<le> pg_cost G (module_path G tr x)"
proof -
  note d = linkedD [OF l]
  let ?E = "EntryNodeId G"
  obtain St where St: "St \<in> set Steps" "starts Opt M (stFun St)" "stBlocks St \<noteq> []"
    and run: "prog_run Steps ((St, hd (stBlocks St)), []) tr"
    using r by (auto simp: program_run_def)
  have rs: "rep_start G0 St" by (rule d(13) [OF St(1,2)])
  have en: "?E \<in> node_ids G" using d(3) by (simp add: pg_ready_def)
  have "nodeAt G (hd (stBlocks St)) \<in> succs G0 ?E" using rs St(3) by (simp add: rep_start_def d(6,10))
  then have e1: "nodeAt G (hd (stBlocks St)) \<in> succs G ?E" using d(14) [OF en] by blast
  then have "nodeAt G (hd (stBlocks St)) \<in> node_ids G" using pg_wf_succs_exist [OF d(4)] by blast
  then have "placed Steps G (St, hd (stBlocks St))" using St by (simp add: placed_def)
  then have f: "tr \<noteq> []" "hd tr = (St, hd (stBlocks St))" "\<forall>q \<in> set tr. placed Steps G q"
    "\<forall>(a, b) \<in> set (steps (nodesOf G tr)). b \<in> succs G a"
    "mbb_isReturnBlock (snd (last tr))" "starts Opt M (stFun (fst (last tr)))"
    "graph_run G [] (steps (nodesOf G tr)) = Some []"
    using run_follows [OF l run] St(2) by simp_all
  obtain L B where L: "last tr = (L, B)" by (cases "last tr")
  then have pl: "placed Steps G (L, B)" using f(1,3) last_in_set by metis
  note b = placedD [OF l pl]
  have ret: "mbb_isReturnBlock B" and st: "starts Opt M (stFun L)" using f(5,6) L by simp_all
  obtain x where x: "map_option nd_Name (node_at G0 x) = Some ''Exit''" "nodeFun G0 x = None" "x \<in> succs G0 (nodeAt G B)"
    using d(13) [OF b(1) st] b(2) ret by (auto simp: rep_start_def d(6))
  have e2: "x \<in> succs G (nodeAt G B)" using x(3) d(14) [OF b(3)] by blast
  then have xi: "x \<in> node_ids G" using pg_wf_succs_exist [OF d(4)] by blast
  then have "map_option nd_Name (node_at G x) = Some ''Exit''" using d(15) x(1) by simp
  then have ex: "pg_is_exit G x" by (auto simp: pg_is_exit_def)
  let ?p = "module_path G tr x"
  have set: "set ?p \<subseteq> node_ids G"
    using f(3) en xi by (auto simp: module_path_def nodesOf_def placed_def)
  have edges: "\<forall>(a, b) \<in> set (steps ?p). b \<in> succs G a"
    using f(2,4) L e1 e2 unfolding steps_path [OF f(1)] by auto
  have "entry_apart G0" using d(1) by (simp add: module_inv_def)
  then have ne: "nodeFun G0 ?E = None" using d(2) by (simp add: entry_apart_def d(10))
  have n1: "List.find (\<lambda>CS. (?E, y) \<in> set (pg_callEdges G CS)) (pg_sites G) = None"
    "\<not> list_ex (\<lambda>CS. (?E, y) \<in> set (pg_returnEdges G CS)) (pg_sites G)" for y
    using owned_edges [OF l, of _ "(?E, y)"] ne by (auto simp: find_None_iff list_ex_iff)
  have n2: "\<not> list_ex (\<lambda>CS. (y, x) \<in> set (pg_returnEdges G CS)) (pg_sites G)" for y
    using owned_edges(2) [OF l, of _ "(y, x)"] x(2) by (auto simp: list_ex_iff)
  have "graph_run G [] (steps ?p) = Some []"
    using no_call_edge [OF l pl return_no_call [OF l pl ret], of x]
    by (simp add: steps_path [OF f(1)] matched_append n1 n2 f(7) L)
  then have calls: "pg_calls_matched G ?p" by (simp add: pg_calls_matched_def)
  have "pg_execution Indet G ?p" if "pg_loops_bounded Indet G ?p"
    unfolding pg_execution_def using that set edges calls ex by (simp add: module_path_def)
  moreover have "run_cost (mod_Functions M) T Steps tr \<le> pg_cost G ?p"
  proof -
    let ?c = "\<lambda>i. case node_at G i of Some P \<Rightarrow> uint (MaxCycles (nd_State P)) | None \<Rightarrow> 0"
    have c: "?c (nodeAt G (snd q)) = uint (blockCost (mod_Functions M) T Steps q)" if "q \<in> set tr" for q
      using placed_cost [OF l, of "fst q" "snd q"] f(3) that by (auto simp: cycles_def split: option.splits)
    have "(\<Sum>i \<leftarrow> nodesOf G tr. ?c i) = run_cost (mod_Functions M) T Steps tr"
      unfolding run_cost_def nodesOf_def map_map comp_def using c by (simp cong: map_cong)
    moreover have "0 \<le> ?c i" for i by (simp split: option.split)
    ultimately show ?thesis by (simp add: pg_cost_def module_path_def)
  qed
  ultimately show ?thesis using ex by blast
qed

subsection \<open>The printed number\<close>

lemma module_bound:
  assumes ok: "module_ok Opt M Steps" and nc: "start_not_called Opt M Steps"
    and fill: "fillModule Opt M Steps (newFillState, emptyPG) = Some (S, G)"
    and TAR: "TAR = (snd (snd (last Steps)))\<lparr>MASG := G\<rparr>" "getTarget TAR = Some MSP430FR5994Target"
    and solver: "solver_sound highs" "PathAnalysis_finish Indet (Some highs) TAR = Some (ReportWCET w rs cs)"
      "\<forall>S. run_PG MSP430Pipeline Indet G newSolver = Some S \<longrightarrow> WCET (solveWCET highs (ws_Graph S)) < 2 ^ 32 - 1"
    and run: "program_run Opt M Steps tr"
    and loops: "\<forall>x. pg_is_exit G x \<longrightarrow> pg_loops_bounded Indet G (module_path G tr x)"
  shows "run_cost (mod_Functions M) (Some (rt_getExternalCallCost MSP430FR5994Target)) Steps tr \<le> uint w"
proof -
  let ?T = "Some (rt_getExternalCallCost MSP430FR5994Target)"
  have "getTarget (snd (snd (last Steps))) = Some MSP430FR5994Target"
    using TAR by (simp add: getTarget_def)
  then obtain G0 H where "module_done Opt M ?T Steps G0 H G" using module_done_intro [OF ok fill] by blast
  moreover have "\<exists>St \<in> set Steps. starts Opt M (stFun St) \<and> stBlocks St \<noteq> []" using run by (auto simp: program_run_def)
  moreover have "distinct (map stId Steps)" using ok by (simp add: module_ok_def comp_def)
  ultimately have l: "linked Opt M ?T Steps G0 H G" using nc by (simp add: linked_def)
  obtain x where x: "pg_is_exit G x" "pg_loops_bounded Indet G (module_path G tr x) \<longrightarrow> pg_execution Indet G (module_path G tr x)"
    "run_cost (mod_Functions M) ?T Steps tr \<le> pg_cost G (module_path G tr x)"
    using run_execution [OF l run] by blast
  have g: "MASG TAR = G" using TAR(1) by simp
  have "pg_execution Indet G (module_path G tr x)" using x(1,2) loops by blast
  then have "pg_cost G (module_path G tr x) \<le> uint w"
    using report_bounds [OF _ TAR(2) solver(1,2), of "module_path G tr x"] linkedD(3) [OF l] solver(3) by (simp add: g)
  then show ?thesis using x(3) by simp
qed

text \<open>C1: The number the tool prints bounds the program, from the blocks of its functions to the report.
  For a module in the shape the call splitter and the back end leave, whose start function nobody calls, filled into
  the graph and finalised by the graph pass, solved and reported by the path analysis: no run of the program
  from the start function to its return -- block to block, into the functions it calls and back,
  within the loop bounds of the graph -- costs more than the printed number. A run costs the
  latency of each block plus what the target knows of the calls out of the module; HiGHS answers within
  one half of the optimum, and the optimum fits 32 bits.\<close>

theorem module_wcet:
  assumes "module_ok Opt M Steps" "start_not_called Opt M Steps"
    and "fillModule Opt M Steps (newFillState, emptyPG) = Some (S, G)"
    and "TAR = (snd (snd (last Steps)))\<lparr>MASG := G\<rparr>" "getTarget TAR = Some MSP430FR5994Target"
    and "solver_sound highs" "PathAnalysis_finish Indet (Some highs) TAR = Some (ReportWCET w rs cs)"
    and "\<forall>S. run_PG MSP430Pipeline Indet G newSolver = Some S \<longrightarrow> WCET (solveWCET highs (ws_Graph S)) < 2 ^ 32 - 1"
    and "program_run Opt M Steps tr"
    and "\<forall>x. pg_is_exit G x \<longrightarrow> pg_loops_bounded Indet G (module_path G tr x)"
  shows "run_cost (mod_Functions M) (Some (rt_getExternalCallCost MSP430FR5994Target)) Steps tr \<le> uint w"
  using assms by (rule module_bound)

subsection \<open>The module of two functions\<close>

text \<open>The start function calls, the callee returns, the start function returns: 7 + 5 + 3 cycles.\<close>

lemma call_callee: "calleeOf call_steps call_block = Some callee_step" "calleeOf call_steps (demo_block b ss r) = None"
  by (simp_all add: calleeOf_def call_calls) (simp add: callee_fun_def)

lemma call_bodies:
  "mf_blocks callee_fun = [demo_block 20 [] True]" "mf_blocks caller_fun = [call_block, demo_block 11 [] True]"
  by (simp_all add: caller_fun_def callee_fun_def)

lemma call_not_called: "start_not_called defaultOptions call_module call_steps"
  by (auto simp: start_not_called_def call_bodies call_callee call_starts)

abbreviation call_trace :: "Pos list" where
  "call_trace \<equiv> [(caller_step, call_block), (callee_step, demo_block 20 [] True), (caller_step, demo_block 11 [] True)]"

lemma call_program_run: "program_run defaultOptions call_module call_steps call_trace"
proof -
  let ?A = "(caller_step, call_block)" and ?B = "(callee_step, demo_block 20 [] True)"
    and ?C = "(caller_step, demo_block 11 [] True)"
  have b: "stBlocks callee_step = [demo_block 20 [] True]" "stBlocks caller_step = [call_block, demo_block 11 [] True]"
    by (simp_all add: call_bodies)
  have "prog_step call_steps (?A, []) ((callee_step, hd (stBlocks callee_step)), [?A])"
    by (rule prog_step.call) (simp_all add: call_callee call_calls)
  then have c: "prog_step call_steps (?A, []) (?B, [?A])" by (simp only: b list.sel)
  have r: "prog_step call_steps (?B, [?A]) (?C, [])"
    by (rule prog_step.return) (simp_all add: call_bodies call_calls, simp_all add: demo_block_def)
  have "prog_run call_steps (?C, []) [?C]"
    by (rule prog_run.finish) (simp add: demo_block_def)
  from prog_run.go [OF c prog_run.go [OF r this]]
  have "prog_run call_steps ((caller_step, hd (stBlocks caller_step)), []) call_trace" by (simp only: b list.sel)
  then show ?thesis using b(2) call_starts(1) by (simp add: program_run_def)
qed

lemma call_loops: "pg_loops_bounded (\<lambda>_. 0) call_graph p"
proof -
  have "BackEdgePredecessors N = []" if "node_at call_graph h = Some N" for h N
    using that by (auto simp: with_caller_def node_at_def newNode_def split: if_splits)
  then show ?thesis by (auto simp: pg_loops_bounded_def)
qed

theorem module_graph_ready_witness:
  "\<exists>S. fillModule defaultOptions call_module call_steps (newFillState, emptyPG) = Some (S, call_graph) \<and>
     pg_ready call_graph"
  using module_graph_ready [OF call_ok] call_fill by auto

theorem module_wcet_witness:
  "run_cost (mod_Functions call_module) (Some (rt_getExternalCallCost MSP430FR5994Target)) call_steps call_trace = 15 \<and>
   run_cost (mod_Functions call_module) (Some (rt_getExternalCallCost MSP430FR5994Target)) call_steps call_trace
     \<le> uint (15 :: u32)"
proof
  show "run_cost (mod_Functions call_module) (Some (rt_getExternalCallCost MSP430FR5994Target)) call_steps call_trace = 15"
    by (simp add: run_cost_def blockCost_def call_calls callCharge_def)
      (simp add: blockLatency_def call_block_def demo_block_def call_results_def getMBBLatencyMap_def newTAR_def
        callee_fun_def call_module_def)
  obtain S where S: "fillModule defaultOptions call_module call_steps (newFillState, emptyPG) = Some (S, call_graph)"
    using call_fill by blast
  have t: "call_done = (snd (snd (last call_steps)))\<lparr>MASG := call_graph\<rparr>" "getTarget call_done = Some MSP430FR5994Target"
    by (simp_all add: call_done_def call_results_def getTarget_def)
  have "WCET (solveWCET call_highs (ws_Graph S)) < 2 ^ 32 - 1" for S :: "StageState list WorklistSolver"
    by (simp add: solveWCET_def call_highs_def Let_def)
  then show "run_cost (mod_Functions call_module) (Some (rt_getExternalCallCost MSP430FR5994Target)) call_steps call_trace
     \<le> uint (15 :: u32)"
    using module_wcet [OF call_ok call_not_called S t call_sound call_finish _ call_program_run] call_loops by simp
qed

end
