(* ===== verification/Spec2Isabelle.thy ===== *)
theory Spec2Isabelle
  imports CacheFixpoint ProgramSolver FinalizeProps ILPPaths FRAMPasses LoopBoundPlugin GraphPasses PathAnalysis
    AddressProps CallSplitter HardwarePipeline ModuleWCET
begin

text \<open>
  LLTA computes a bound of the worst-case execution time (WCET) of a program for the MSP430
  family. It is an LLVM back end with analysis passes behind it; this library models the
  analysis and proves what its answer guarantees.

  \<^bold>\<open>The program.\<close> A Clang plugin (\<open>clang-plugin/LoopBoundPlugin.cpp\<close>) writes the loop bounds
  of the user's pragmas to a JSON file. The driver lowers the program to machine functions and
  runs, function by function, the passes listed in \<open>lib/MIRPasses/TimingAnalysisPasses.cpp\<close>:
  blocks are split after calls, instructions are checked and given their addresses in the linked
  image, every block gets its base latency, the memory model of the target adds the cycles of
  its wait states or of its instruction cache, the bounds of the loops are collected, and the
  blocks are filled in as nodes of one program graph. At the end of the module the graph is
  finalised (calls and returns become edges, recursive cycles get a bound, unreachable nodes are
  removed), a worklist solver copies it to a state graph, an integer program over the edges of
  that graph is solved, and its optimum is printed. The passes share one object,
  \<open>TimingAnalysisResults\<close>.

  \<^bold>\<open>Which theory models what\<close>, in the order of the data flow:
  \<^item> \<open>Prelude\<close>: the machine integers (\<open>unsigned\<close> is a 32-bit word and wraps, \<open>uint64_t\<close> a 64-bit
    word), ordered maps and sets, lemmas about them, the collections of simplification rules.
  \<^item> \<open>Machine\<close>: what the code reads of LLVM's machine code, as records; \<open>MSP430Target\<close>: latency
    table, instruction check and implicit loop bounds of \<open>MSP430Target.cpp\<close>; \<open>TimingResults\<close>:
    \<open>TimingAnalysisResults\<close>, the targets, their registry and options, the list of passes.
  \<^item> \<open>LoopBoundPlugin\<close>: the pragma handlers, the visitor and the JSON export of the plugin.
    \<open>LoopBounds\<close>: \<open>MachineLoopBoundAgregatorPass\<close>, the trip count of every loop from scalar
    evolution, the exported bounds or the shape of the loop; loops without a natural header.
  \<^item> \<open>CallSplitter\<close>: \<open>CallSplitterPass\<close>. \<open>AddressResolver\<close>, \<open>AddressProps\<close>: \<open>AdressResolverPass\<close>.
  \<^item> \<open>MemoryWords\<close>: \<open>InstructionWords\<close>, \<open>DataMemoryAccess\<close>, \<open>FRAMAccessMapper\<close>; \<open>FRAMPasses\<close>:
    the check, the base latencies, the wait-state pass and the instruction-cache pass.
  \<^item> \<open>CacheGeometry\<close>, \<open>ReplacementPolicy\<close>, \<open>CacheAnalysis\<close>: the abstract instruction cache,
    policy by policy and operation by operation. \<open>ConcreteCache\<close>: the abstract specification,
    what one set of a real LRU, FIFO or arbitrary cache does, and the contract between a policy
    and the analysis. \<open>CacheSafety\<close>: which policies meet it.
  \<^item> \<open>AnalysisFramework\<close>: the interface of an analysis (\<open>AbstractState\<close>, \<open>AbstractAnalysable\<close>) as
    a record of its operations, and the pipeline analyses; \<open>AbstractStateGraph\<close>;
    \<open>WorklistSolver\<close>: both \<open>run\<close> methods. \<open>SolverProps\<close>, \<open>FunctionSolver\<close>, \<open>CacheFixpoint\<close>,
    \<open>ProgramSolver\<close>: what the loops guarantee for an analysis in general, on one function, for
    the cache, and on the program graph. \<open>HardwarePipeline\<close>: \<open>HardwarePipeline.cpp\<close> and
    \<open>MicroArchitectureAnalysis.h\<close>.
  \<^item> \<open>ProgramGraph\<close>: nodes and edges, filling in a function; \<open>GraphFinalize\<close>: \<open>finalize\<close>;
    \<open>Reach\<close>: the two traversals they repeat; \<open>ProgramGraphInv\<close>, \<open>FunctionGraph\<close>,
    \<open>FinalizeProps\<close>, \<open>FinalizeCost\<close>: the invariant, what filling in adds, what finalisation
    guarantees, and the edges and cycles it adds, exactly.
    \<open>GraphPasses\<close>: \<open>StartFunction.cpp\<close>, \<open>FillMuGraphPass.cpp\<close>, \<open>GraphAdapter.cpp\<close>.
  \<^item> \<open>ILPModel\<close>: the columns and rows of \<open>AbstractHighsSolver.cpp\<close>; \<open>ILPPaths\<close>: the executions
    they bound; \<open>PathAnalysis\<close>: \<open>PathAnalysisPass.cpp\<close>, the composition of the three.
  \<^item> \<open>ModuleGraph\<close>, \<open>ModuleFill\<close>: the graph pass over a whole module, the invariant of the graph
    between two functions and how it represents each of them (\<open>rep_fn\<close>); \<open>ModuleWCET\<close>: runs of the
    program, block by block with a call stack, and the graph's executions that follow them;
    \<open>CallExample\<close>: a module of two functions through all stages.

  \<^bold>\<open>What is shown.\<close> The chain that makes the printed number a bound: a memory access or
  instruction is charged at least what the target takes (\<open>MemoryWords\<close>, \<open>FRAMPasses\<close>); the must
  analysis never promises a hit a real cache does not give (\<open>CacheSafety\<close>), and its fixpoint is
  reached and is sound at every block (\<open>CacheFixpoint\<close>); a function is embedded in the program
  graph with its latencies and bounds (\<open>FunctionGraph\<close>), finalisation keeps the edges of what is
  reachable and leaves no cycle of calls without a bound (\<open>FinalizeProps\<close>), the solver hands an
  exact copy to the integer program (\<open>ProgramSolver\<close>), and the optimum is at least the cost of
  every execution within the loop bounds (\<open>ILPPaths.wcet_bounds_executions\<close>); the pass prints it
  (\<open>PathAnalysis.reported_wcet\<close>). \<open>ModuleWCET.module_wcet\<close> composes graph pass, solver and path
  analysis: for a module of any number of functions, every run of its blocks, calls and returns
  included, costs at most the number printed; \<open>ModuleWCET.module_graph_ready\<close> says that the graph
  pass always gets there. Its assumptions on a function (\<open>fn_shape\<close>) are what
  \<open>CallSplitter.calls_end_blocks\<close> leaves and what the back end guarantees, and it counts the
  latencies that \<open>MBBLatencyMap\<close> holds when the graph pass sees the function. Beside the chain stand the two inputs, bounds and addresses
  (\<open>LoopBoundPlugin\<close>, \<open>LoopBounds\<close>, \<open>AddressProps\<close>), and the places where the code does not do
  what it or a comment says: they are theorems on concrete inputs, or lemmas, named in the text
  before them.

  \<^bold>\<open>Interfaces.\<close> The locales \<open>set_domain\<close>, \<open>must_domain\<close> and \<open>may_domain\<close> (\<open>ConcreteCache\<close>) are the
  contract of a replacement policy, interpreted on the LRU policy and the policy for
  undocumented hardware; \<open>analysis\<close>, \<open>descending\<close>, \<open>sound_analysis\<close> (\<open>SolverProps\<close>) are the
  contract of an analysis with the solver, \<open>must_order\<close> (\<open>CacheFixpoint\<close>) says when a policy
  gives one, by \<open>sublocale\<close>, interpreted on the same two policies.

  \<^bold>\<open>Conventions.\<close> A pointer is a natural number. \<open>std::map\<close> is an association list sorted by key,
  \<open>std::set\<close> a sorted list without repetition, so that iteration has the order of the code. A
  failing assertion and \<open>at()\<close> on a missing key are \<open>None\<close>; diagnostics are values. Counters and
  addresses that the code keeps in 64 bits and only increments are natural numbers where a wrap
  is out of reach of an address space.

  \<^bold>\<open>Loops and fuel.\<close> A loop over a list is structural recursion. The worklists and the pipeline
  are \<open>partial_function (option)\<close>: not ending is \<open>None\<close>, and that they end is a theorem
  (\<open>CacheFixpoint.fram_lru_run\<close>, \<open>ProgramSolver.run_PG_copy\<close>, \<open>FinalizeProps.finalize_total\<close>,
  \<open>HardwarePipeline.single_cycle_latency\<close>). The depth-first search of \<open>finalize\<close> takes the number
  of nodes of the component as fuel; a path of the search has no repetition, so the fuel is
  enough, and \<open>FinalizeProps.scc_cycles_cut\<close> is proved with it.

  \<^bold>\<open>Parameters.\<close> Code that is not in the repository is an argument: LLVM (blocks, operands, loop
  info, scalar evolution, sections and symbols of an object, disassembler, emitter), Clang
  (tokens, locations, the syntax tree), the JSON reader and HiGHS. A theorem that rests on one
  states the documented behaviour it uses: for HiGHS, that an answer marked optimal is a
  feasible vector of largest objective.

  \<^bold>\<open>Not modelled.\<close> \<open>LLTA.cpp\<close>, \<open>NewPMDriver.cpp\<close> and \<open>WCETAnalysisPipeline.cpp\<close> are copies of the
  driver \<open>llc\<close> and calls of passes of LLVM; the printers of graphs and states (\<open>dump\<close>, \<open>dump2Dot\<close>,
  \<open>print\<close>) and debug messages have no effect on the result; tests, scripts, documentation and
  measured latencies are not code of the analysis.
\<close>

end
